(* ===== verification/Prelude.thy ===== *)
theory Prelude
  imports Main "HOL-Library.Word" "HOL-Library.Monad_Syntax"
begin

text \<open>
  The shared layer of the development: the fixed-width integers of the C sources, the
  memory model, the outcome discipline, and the list lemmas every component uses.

  Outcomes. A C-level function of this development returns an \<open>option\<close>. The value
  \<open>None\<close> is undefined behaviour of the C program: an access outside an object, a read of
  an octet that was never written, or a NULL dereference. Error codes of the program are
  ordinary values (see \<open>Pus_Types\<close>), never \<open>None\<close>. So a theorem that an operation
  equals \<open>Some\<close> of something is a memory-safety theorem as well.

  Memory. An array of octets is a list of cells; the cell \<open>None\<close> is an octet whose value
  is indeterminate (an automatic array that has not been written yet). A pointer to an
  array is \<open>Some\<close> of the list of the cells from the pointer on, and NULL is \<open>None\<close>.
  \<open>size_t\<close> values are natural numbers: they only ever hold lengths of real objects.
\<close>

unbundle bit_operations_syntax

section \<open>Types\<close>

type_synonym u8 = "8 word"
type_synonym u16 = "16 word"
type_synonym u32 = "32 word"

text \<open>\<open>int16_t\<close> is a 16-bit word that comparisons read as two's complement, by \<open>sint\<close>.\<close>

type_synonym i16 = "16 word"

type_synonym mem = "u8 option list"

text \<open>
  The argument of an output parameter: \<open>None\<close> is NULL, \<open>Some None\<close> points to an object
  with an indeterminate value, \<open>Some (Some v)\<close> to an object that holds \<open>v\<close>.
\<close>

type_synonym 'a outp = "'a option option"

named_theorems run_simps "rules that run a C-level operation whose accesses are in bounds"

section \<open>Checked accesses\<close>

definition arr_get :: "'a list \<Rightarrow> nat \<Rightarrow> 'a option" where
  "arr_get xs i = (if i < length xs then Some (xs ! i) else None)"

definition arr_set :: "'a list \<Rightarrow> nat \<Rightarrow> 'a \<Rightarrow> 'a list option" where
  "arr_set xs i v = (if i < length xs then Some (xs[i := v]) else None)"

definition rd8 :: "mem \<Rightarrow> nat \<Rightarrow> u8 option" where
  "rd8 p i = do { c \<leftarrow> arr_get p i; c }"

definition wr8 :: "mem \<Rightarrow> nat \<Rightarrow> u8 \<Rightarrow> mem option" where
  "wr8 p i v = arr_set p i (Some v)"

text \<open>The copying loop \<open>for (i = i0; i < i0 + n; ++i) dst[off + i] = src[i];\<close>.\<close>

primrec copy_octets :: "mem \<Rightarrow> nat \<Rightarrow> mem \<Rightarrow> nat \<Rightarrow> nat \<Rightarrow> mem option" where
  "copy_octets dst off src i 0 = Some dst"
| "copy_octets dst off src i (Suc n) = do {
     v \<leftarrow> rd8 src i;
     dst' \<leftarrow> wr8 dst (off + i) v;
     copy_octets dst' off src (Suc i) n }"

text \<open>The loop \<open>for (i = i0; i < i0 + n; ++i) xs[i] = v;\<close>.\<close>

primrec fill_array :: "'a list \<Rightarrow> nat \<Rightarrow> nat \<Rightarrow> 'a \<Rightarrow> 'a list option" where
  "fill_array xs i 0 v = Some xs"
| "fill_array xs i (Suc n) v = do {
     xs' \<leftarrow> arr_set xs i v;
     fill_array xs' (Suc i) n v }"

text \<open>A string of octets with known values, as an array.\<close>

definition octets :: "u8 list \<Rightarrow> mem" where
  "octets bs = map Some bs"

text \<open>The array \<open>p\<close> with \<open>ys\<close> written at offset \<open>off\<close>.\<close>

definition overwrite :: "'a list \<Rightarrow> nat \<Rightarrow> 'a list \<Rightarrow> 'a list" where
  "overwrite p off ys = take off p @ ys @ drop (off + length ys) p"

section \<open>Lemmas on words\<close>

lemma unat_u8_less: "unat x < 256" for x :: u8
  using unsigned_less [where 'a = nat, of x] by simp

lemma unat_u16_less: "unat x < 65536" for x :: u16
  using unsigned_less [where 'a = nat, of x] by simp

lemma unat_u32_less: "unat x < 4294967296" for x :: u32
  using unsigned_less [where 'a = nat, of x] by simp

lemma unat_ucast_mod: "unat (ucast x :: 'b::len word) = unat x mod 2 ^ LENGTH('b)"
  by (simp add: unsigned_ucast_eq take_bit_eq_mod)

lemma unat_plus_small:
  "unat x + unat y < 2 ^ LENGTH('a) \<Longrightarrow> unat (x + y) = unat x + unat y" for x y :: "'a::len word"
  by (simp add: unat_word_ariths)

lemma unat_mult_small:
  "unat x * unat y < 2 ^ LENGTH('a) \<Longrightarrow> unat (x * y) = unat x * unat y" for x y :: "'a::len word"
  by (simp add: unat_word_ariths)

section \<open>Lemmas on accesses\<close>

lemma arr_get_in [run_simps]: "i < length xs \<Longrightarrow> arr_get xs i = Some (xs ! i)"
  by (simp add: arr_get_def)

lemma arr_set_in [run_simps]: "i < length xs \<Longrightarrow> arr_set xs i v = Some (xs[i := v])"
  by (simp add: arr_set_def)

lemma length_octets [simp]: "length (octets bs) = length bs"
  by (simp add: octets_def)

lemma octets_Nil [simp]: "octets [] = []"
  by (simp add: octets_def)

lemma octets_append: "octets (as @ bs) = octets as @ octets bs"
  by (simp add: octets_def)

lemma octets_Cons: "octets (b # bs) = Some b # octets bs"
  by (simp add: octets_def)

lemma octets_take: "take n (octets bs) = octets (take n bs)"
  by (simp add: octets_def take_map)

lemma octets_drop: "drop n (octets bs) = octets (drop n bs)"
  by (simp add: octets_def drop_map)

lemma octets_inject [simp]: "octets as = octets bs \<longleftrightarrow> as = bs"
  by (simp add: octets_def inj_map_eq_map)

lemma map_the_octets [simp]: "map the (octets bs) = bs"
  by (simp add: octets_def)

lemma octets_map_the:
  assumes "None \<notin> set cells"
  shows "octets (map the cells) = cells"
  using assms by (induction cells) (auto simp: octets_def)

lemma rd8_octets [run_simps]: "i < length bs \<Longrightarrow> rd8 (octets bs) i = Some (bs ! i)"
  by (simp add: rd8_def arr_get_def octets_def)

lemma rd8_prefix: "i < length bs \<Longrightarrow> rd8 (octets bs @ rest) i = Some (bs ! i)"
  by (simp add: rd8_def arr_get_def octets_def nth_append)

lemma rd8_Some_bound: "rd8 p i = Some v \<Longrightarrow> i < length p"
  by (auto simp: rd8_def arr_get_def split: if_splits)

lemma wr8_out: "length p \<le> i \<Longrightarrow> wr8 p i v = None"
  by (simp add: wr8_def arr_set_def)

lemma length_overwrite [simp]:
  "off + length ys \<le> length p \<Longrightarrow> length (overwrite p off ys) = length p"
  by (simp add: overwrite_def)

lemma wr8_in [run_simps]:
  "i < length p \<Longrightarrow> wr8 p i v = Some (overwrite p i [Some v])"
  by (simp add: wr8_def arr_set_def overwrite_def upd_conv_take_nth_drop)

lemma overwrite_Nil [simp]: "overwrite p off [] = p"
  by (simp add: overwrite_def)

text \<open>Two adjacent writes are one write of the concatenation.\<close>

lemma overwrite_overwrite:
  assumes "off' = off + length xs" and "off + length xs \<le> length p"
  shows "overwrite (overwrite p off xs) off' ys = overwrite p off (xs @ ys)"
  using assms by (simp add: overwrite_def add_ac)

lemma take_overwrite_0: "take (length ys) (overwrite p 0 ys) = ys"
  by (simp add: overwrite_def)

lemma overwrite_0: "overwrite p 0 ys = ys @ drop (length ys) p"
  by (simp add: overwrite_def)

lemma copy_octets_octets:
  assumes "i + n \<le> length bs" and "off + i + n \<le> length dst"
  shows "copy_octets dst off (octets bs @ rest) i n
       = Some (overwrite dst (off + i) (octets (take n (drop i bs))))"
  using assms
proof (induction n arbitrary: dst i)
  case 0
  then show ?case by simp
next
  case (Suc n)
  let ?d = "overwrite dst (off + i) [Some (bs ! i)]"
  have "copy_octets dst off (octets bs @ rest) i (Suc n)
      = copy_octets ?d off (octets bs @ rest) (Suc i) n"
    using Suc.prems by (simp add: rd8_prefix wr8_in)
  also have "\<dots> = Some (overwrite ?d (off + Suc i) (octets (take n (drop (Suc i) bs))))"
    using Suc.prems by (intro Suc.IH) auto
  also have "\<dots> = Some (overwrite dst (off + i)
      ([Some (bs ! i)] @ octets (take n (drop (Suc i) bs))))"
    using Suc.prems by (subst overwrite_overwrite) auto
  also have "[Some (bs ! i)] @ octets (take n (drop (Suc i) bs))
      = octets (take (Suc n) (drop i bs))"
    using Suc.prems by (simp add: octets_def flip: Cons_nth_drop_Suc)
  finally show ?case .
qed

text \<open>The loop as the code runs it: from index 0, over an array that starts with \<open>bs\<close>.\<close>

lemma copy_octets_prefix [run_simps]:
  "n \<le> length bs \<Longrightarrow> off + n \<le> length dst \<Longrightarrow>
   copy_octets dst off (octets bs @ rest) 0 n = Some (overwrite dst off (octets (take n bs)))"
  using copy_octets_octets [of 0 n bs off dst rest] by simp

lemma copy_octets_all [run_simps]:
  "n \<le> length bs \<Longrightarrow> off + n \<le> length dst \<Longrightarrow>
   copy_octets dst off (octets bs) 0 n = Some (overwrite dst off (octets (take n bs)))"
  using copy_octets_prefix [of n bs off dst "[]"] by simp

lemma fill_array_in:
  "i + n \<le> length xs \<Longrightarrow> fill_array xs i n v = Some (take i xs @ replicate n v @ drop (i + n) xs)"
proof (induction n arbitrary: xs i)
  case 0
  then show ?case by simp
next
  case (Suc n)
  let ?xs = "xs[i := v]"
  have "fill_array xs i (Suc n) v = fill_array ?xs (Suc i) n v"
    using Suc.prems by (simp add: arr_set_in)
  also have "\<dots> = Some (take (Suc i) ?xs @ replicate n v @ drop (Suc i + n) ?xs)"
    using Suc.prems by (intro Suc.IH) simp
  also have "take (Suc i) ?xs = take i xs @ [v]"
    using Suc.prems by (simp add: take_Suc_conv_app_nth)
  also have "drop (Suc i + n) ?xs = drop (i + Suc n) xs"
    by simp
  finally show ?case
    by simp
qed

lemma fill_array_all [run_simps]:
  "fill_array xs 0 (length xs) v = Some (replicate (length xs) v)"
  by (simp add: fill_array_in)

end
