(* ===== verification/Pus_Types.thy ===== *)
theory Pus_Types
  imports Prelude
begin

text \<open>
  The status codes of \<open>include/pus/pus_types.h\<close> and the compile-time configuration of
  \<open>include/pus/pus_config.h\<close>. The status enumeration is a datatype with the constructors
  of the source; \<open>status_code\<close> is the conversion \<open>(uint16_t)st\<close> that puts a status into a
  service 1 report.
\<close>

datatype pus_status_t =
    PUS_OK
  | PUS_ERR_NULL
  | PUS_ERR_BUFFER_TOO_SMALL
  | PUS_ERR_TRUNCATED
  | PUS_ERR_BAD_VERSION
  | PUS_ERR_BAD_PACKET_TYPE
  | PUS_ERR_NO_SEC_HEADER
  | PUS_ERR_BAD_APID
  | PUS_ERR_BAD_CRC
  | PUS_ERR_UNKNOWN_SERVICE
  | PUS_ERR_UNKNOWN_SUBTYPE
  | PUS_ERR_BAD_LENGTH
  | PUS_ERR_BAD_PARAMETER
  | PUS_ERR_UNKNOWN_SID
  | PUS_ERR_UNKNOWN_EVENT
  | PUS_ERR_UNKNOWN_FUNCTION
  | PUS_ERR_QUEUE_FULL
  | PUS_ERR_NOT_PERMITTED

primrec status_code :: "pus_status_t \<Rightarrow> u16" where
  "status_code PUS_OK = 0"
| "status_code PUS_ERR_NULL = 1"
| "status_code PUS_ERR_BUFFER_TOO_SMALL = 2"
| "status_code PUS_ERR_TRUNCATED = 3"
| "status_code PUS_ERR_BAD_VERSION = 4"
| "status_code PUS_ERR_BAD_PACKET_TYPE = 5"
| "status_code PUS_ERR_NO_SEC_HEADER = 6"
| "status_code PUS_ERR_BAD_APID = 7"
| "status_code PUS_ERR_BAD_CRC = 8"
| "status_code PUS_ERR_UNKNOWN_SERVICE = 9"
| "status_code PUS_ERR_UNKNOWN_SUBTYPE = 10"
| "status_code PUS_ERR_BAD_LENGTH = 11"
| "status_code PUS_ERR_BAD_PARAMETER = 12"
| "status_code PUS_ERR_UNKNOWN_SID = 13"
| "status_code PUS_ERR_UNKNOWN_EVENT = 14"
| "status_code PUS_ERR_UNKNOWN_FUNCTION = 15"
| "status_code PUS_ERR_QUEUE_FULL = 16"
| "status_code PUS_ERR_NOT_PERMITTED = 17"

text \<open>\<open>pus_bool_t\<close> is \<open>uint8_t\<close>.\<close>

type_synonym pus_bool_t = u8

abbreviation (input) PUS_TRUE :: pus_bool_t where "PUS_TRUE \<equiv> 1"
abbreviation (input) PUS_FALSE :: pus_bool_t where "PUS_FALSE \<equiv> 0"

section \<open>Configuration\<close>

abbreviation (input) PUS_MAX_PACKET_SIZE :: nat where "PUS_MAX_PACKET_SIZE \<equiv> 256"
abbreviation (input) PUS_TM_QUEUE_DEPTH :: nat where "PUS_TM_QUEUE_DEPTH \<equiv> 16"
abbreviation (input) PUS_TC_APID :: u16 where "PUS_TC_APID \<equiv> 0x00C"
abbreviation (input) PUS_TM_APID :: u16 where "PUS_TM_APID \<equiv> 0x00C"
abbreviation (input) PUS_TM_DESTINATION_ID :: u16 where "PUS_TM_DESTINATION_ID \<equiv> 0x0001"
abbreviation (input) OBC_TICK_PERIOD_MS :: u32 where "OBC_TICK_PERIOD_MS \<equiv> 100"
abbreviation (input) OBC_HK_PERIOD_TICKS :: u32 where "OBC_HK_PERIOD_TICKS \<equiv> 10"
abbreviation (input) OBC_HK_MAX_STRUCTURES :: nat where "OBC_HK_MAX_STRUCTURES \<equiv> 2"
abbreviation (input) OBC_EVENT_MAX_IDS :: nat where "OBC_EVENT_MAX_IDS \<equiv> 8"
abbreviation (input) OBC_TEMP_HEATER_ON_DC :: int where "OBC_TEMP_HEATER_ON_DC \<equiv> 50"
abbreviation (input) OBC_TEMP_HEATER_OFF_DC :: int where "OBC_TEMP_HEATER_OFF_DC \<equiv> 250"
abbreviation (input) OBC_TEMP_ALARM_DC :: int where "OBC_TEMP_ALARM_DC \<equiv> 400"

section \<open>Status codes on the wire\<close>

text \<open>Distinct failures have distinct codes, and only \<open>PUS_OK\<close> has the code 0.\<close>

lemma status_code_inj: "status_code a = status_code b \<Longrightarrow> a = b"
  by (cases a; cases b) simp_all

lemma status_code_eq_iff [simp]: "status_code a = status_code b \<longleftrightarrow> a = b"
  using status_code_inj by blast

text \<open>The enumeration is ordered by its codes, as the comparisons of C see it.\<close>

instantiation pus_status_t :: linorder
begin

definition less_eq_pus_status_t :: "pus_status_t \<Rightarrow> pus_status_t \<Rightarrow> bool" where
  "a \<le> b \<longleftrightarrow> status_code a \<le> status_code b"

definition less_pus_status_t :: "pus_status_t \<Rightarrow> pus_status_t \<Rightarrow> bool" where
  "a < b \<longleftrightarrow> status_code a < status_code b"

instance
  by standard (auto simp: less_eq_pus_status_t_def less_pus_status_t_def less_le)

end

end
