(* ===== verification/Pus_Bytes.thy ===== *)
theory Pus_Bytes
  imports Pus_Types
begin

text \<open>
  The big-endian accessors of \<open>include/pus/pus_bytes.h\<close>, over checked memory. A pointer
  \<open>&buf[off]\<close> is the pair of the array and the offset. The abstract side is the pair of
  encodings \<open>be16\<close>, \<open>be32\<close> and decodings \<open>of_be16\<close>, \<open>of_be32\<close>.
\<close>

section \<open>The code\<close>

definition pus_put_u8 :: "mem \<Rightarrow> nat \<Rightarrow> u8 \<Rightarrow> mem option" where
  "pus_put_u8 p off v = wr8 p off v"

definition pus_put_u16 :: "mem \<Rightarrow> nat \<Rightarrow> u16 \<Rightarrow> mem option" where
  "pus_put_u16 p off v = do {
     p \<leftarrow> wr8 p off (ucast (drop_bit 8 v AND 0xFF));
     wr8 p (off + 1) (ucast (v AND 0xFF)) }"

definition pus_put_u32 :: "mem \<Rightarrow> nat \<Rightarrow> u32 \<Rightarrow> mem option" where
  "pus_put_u32 p off v = do {
     p \<leftarrow> wr8 p off (ucast (drop_bit 24 v AND 0xFF));
     p \<leftarrow> wr8 p (off + 1) (ucast (drop_bit 16 v AND 0xFF));
     p \<leftarrow> wr8 p (off + 2) (ucast (drop_bit 8 v AND 0xFF));
     wr8 p (off + 3) (ucast (v AND 0xFF)) }"

definition pus_get_u8 :: "mem \<Rightarrow> nat \<Rightarrow> u8 option" where
  "pus_get_u8 p off = rd8 p off"

definition pus_get_u16 :: "mem \<Rightarrow> nat \<Rightarrow> u16 option" where
  "pus_get_u16 p off = do {
     a \<leftarrow> rd8 p off;
     b \<leftarrow> rd8 p (off + 1);
     Some (push_bit 8 (ucast a) OR ucast b) }"

definition pus_get_u32 :: "mem \<Rightarrow> nat \<Rightarrow> u32 option" where
  "pus_get_u32 p off = do {
     a \<leftarrow> rd8 p off;
     b \<leftarrow> rd8 p (off + 1);
     c \<leftarrow> rd8 p (off + 2);
     d \<leftarrow> rd8 p (off + 3);
     Some (push_bit 24 (ucast a) OR push_bit 16 (ucast b) OR push_bit 8 (ucast c) OR ucast d) }"

definition pus_get_i16 :: "mem \<Rightarrow> nat \<Rightarrow> i16 option" where
  "pus_get_i16 p off = pus_get_u16 p off"

definition pus_put_i16 :: "mem \<Rightarrow> nat \<Rightarrow> i16 \<Rightarrow> mem option" where
  "pus_put_i16 p off v = pus_put_u16 p off v"

section \<open>Big-endian encodings\<close>

definition be16 :: "u16 \<Rightarrow> u8 list" where
  "be16 v = [ucast (drop_bit 8 v), ucast v]"

definition be32 :: "u32 \<Rightarrow> u8 list" where
  "be32 v = [ucast (drop_bit 24 v), ucast (drop_bit 16 v), ucast (drop_bit 8 v), ucast v]"

definition of_be16 :: "u8 \<Rightarrow> u8 \<Rightarrow> u16" where
  "of_be16 a b = push_bit 8 (ucast a) OR ucast b"

definition of_be32 :: "u8 \<Rightarrow> u8 \<Rightarrow> u8 \<Rightarrow> u8 \<Rightarrow> u32" where
  "of_be32 a b c d =
     push_bit 24 (ucast a) OR push_bit 16 (ucast b) OR push_bit 8 (ucast c) OR ucast d"

lemma length_be16 [simp]: "length (be16 v) = 2"
  by (simp add: be16_def)

lemma length_be32 [simp]: "length (be32 v) = 4"
  by (simp add: be32_def)

lemma of_be16_be16 [simp]: "of_be16 (ucast (drop_bit 8 v)) (ucast v) = v"
  unfolding of_be16_def by (rule bit_word_eqI) (auto simp: bit_simps not_le)

lemma of_be32_be32 [simp]:
  "of_be32 (ucast (drop_bit 24 v)) (ucast (drop_bit 16 v)) (ucast (drop_bit 8 v)) (ucast v) = v"
proof (unfold of_be32_def, rule bit_word_eqI)
  fix n
  assume "n < LENGTH(32)"
  then consider "n < 8" | "8 \<le> n" "n < 16" | "16 \<le> n" "n < 24" | "24 \<le> n" "n < 32"
    by force
  then show "bit (push_bit 24 (ucast (ucast (drop_bit 24 v) :: u8)) OR
      push_bit 16 (ucast (ucast (drop_bit 16 v) :: u8)) OR
      push_bit 8 (ucast (ucast (drop_bit 8 v) :: u8)) OR ucast (ucast v :: u8) :: u32) n = bit v n"
    by cases (auto simp: bit_simps)
qed

lemma be16_of_be16 [simp]: "be16 (of_be16 a b) = [a, b]"
  unfolding be16_def of_be16_def
  by (simp, intro conjI; rule bit_word_eqI; auto simp: bit_simps dest: bit_imp_le_length)

lemma be32_of_be32 [simp]: "be32 (of_be32 a b c d) = [a, b, c, d]"
  unfolding be32_def of_be32_def
  by (simp, intro conjI; rule bit_word_eqI; auto simp: bit_simps dest: bit_imp_le_length)

lemma be16_inject [simp]: "be16 v = be16 w \<longleftrightarrow> v = w"
  by (metis be16_def list.inject of_be16_be16)

lemma ucast_and_FF: "(ucast (w AND 0xFF) :: u8) = ucast (w :: 'a::len word)"
proof -
  have "(0xFF :: 'a word) = mask 8"
    by (simp add: mask_numeral)
  show ?thesis
    unfolding \<open>(0xFF :: 'a word) = mask 8\<close>
    by (rule bit_word_eqI) (auto simp: bit_simps dest: bit_imp_le_length)
qed

section \<open>The accessors run on memory that is in bounds\<close>

lemma pus_put_u8_in [run_simps]:
  "off < length p \<Longrightarrow> pus_put_u8 p off v = Some (overwrite p off (octets [v]))"
  by (simp add: pus_put_u8_def wr8_in octets_def)

lemma pus_put_u16_in [run_simps]:
  "off + 2 \<le> length p \<Longrightarrow> pus_put_u16 p off v = Some (overwrite p off (octets (be16 v)))"
  by (simp add: pus_put_u16_def wr8_in octets_def be16_def ucast_and_FF overwrite_overwrite)

lemma pus_put_u32_in [run_simps]:
  "off + 4 \<le> length p \<Longrightarrow> pus_put_u32 p off v = Some (overwrite p off (octets (be32 v)))"
  by (simp add: pus_put_u32_def wr8_in octets_def be32_def ucast_and_FF overwrite_overwrite)

lemma pus_put_i16_in [run_simps]:
  "off + 2 \<le> length p \<Longrightarrow> pus_put_i16 p off v = Some (overwrite p off (octets (be16 v)))"
  by (simp add: pus_put_i16_def pus_put_u16_in)

lemma pus_get_u8_prefix [run_simps]:
  "off < length bs \<Longrightarrow> pus_get_u8 (octets bs @ rest) off = Some (bs ! off)"
  by (simp add: pus_get_u8_def rd8_prefix)

lemma pus_get_u16_prefix [run_simps]:
  "off + 2 \<le> length bs \<Longrightarrow>
   pus_get_u16 (octets bs @ rest) off = Some (of_be16 (bs ! off) (bs ! (off + 1)))"
  by (simp add: pus_get_u16_def rd8_prefix of_be16_def)

lemma pus_get_i16_prefix [run_simps]:
  "off + 2 \<le> length bs \<Longrightarrow>
   pus_get_i16 (octets bs @ rest) off = Some (of_be16 (bs ! off) (bs ! (off + 1)))"
  by (simp add: pus_get_i16_def pus_get_u16_prefix)

lemma pus_get_u32_prefix [run_simps]:
  "off + 4 \<le> length bs \<Longrightarrow>
   pus_get_u32 (octets bs @ rest) off
     = Some (of_be32 (bs ! off) (bs ! (off + 1)) (bs ! (off + 2)) (bs ! (off + 3)))"
  by (simp add: pus_get_u32_def rd8_prefix of_be32_def)

section \<open>Properties\<close>

text \<open>Reading a field where it was written gives the value back, at every offset of an array.\<close>

lemma octets_window:
  assumes "off + length bs \<le> length p" and "i < length bs"
  shows "rd8 (overwrite p off (octets bs)) (off + i) = Some (bs ! i)"
  using assms by (simp add: rd8_def arr_get_def overwrite_def octets_def nth_append)

lemma pus_get_put_u16:
  assumes "off + 2 \<le> length p"
  shows "do { p' \<leftarrow> pus_put_u16 p off v; pus_get_u16 p' off } = Some v"
  using assms octets_window [of off "be16 v" p 0] octets_window [of off "be16 v" p 1]
  by (simp add: pus_put_u16_in pus_get_u16_def be16_def flip: of_be16_def)

lemma pus_get_put_u32:
  assumes "off + 4 \<le> length p"
  shows "do { p' \<leftarrow> pus_put_u32 p off v; pus_get_u32 p' off } = Some v"
  using assms octets_window [of off "be32 v" p 0] octets_window [of off "be32 v" p 1]
    octets_window [of off "be32 v" p 2] octets_window [of off "be32 v" p 3]
  by (simp add: pus_put_u32_in pus_get_u32_def be32_def flip: of_be32_def)

text \<open>An access that does not fit in the array is undefined behaviour.\<close>

lemma pus_put_u16_out: "length p < off + 2 \<Longrightarrow> pus_put_u16 p off v = None"
  by (auto simp: pus_put_u16_def wr8_def arr_set_def)

lemma pus_get_u16_out: "length p < off + 2 \<Longrightarrow> pus_get_u16 p off = None"
  by (auto simp: pus_get_u16_def rd8_def arr_get_def split: bind_splits)

text \<open>
  A 32-bit and a 16-bit field written anywhere inside an array are read back unchanged, the
  octets before and behind the field keep their values, and so does the length of the array.
\<close>

theorem pus_bytes_roundtrip:
  assumes "off + 6 \<le> length p"
  shows "\<exists>q. do { q \<leftarrow> pus_put_u32 p off v; pus_put_u16 q (off + 4) w } = Some q \<and>
      pus_get_u32 q off = Some v \<and> pus_get_u16 q (off + 4) = Some w \<and>
      take off q = take off p \<and> drop (off + 6) q = drop (off + 6) p \<and> length q = length p"
proof -
  let ?q = "overwrite p off (octets (be32 v @ be16 w))"
  have run: "do { q \<leftarrow> pus_put_u32 p off v; pus_put_u16 q (off + 4) w } = Some ?q"
    using assms by (simp add: pus_put_u32_in pus_put_u16_in overwrite_overwrite octets_append)
  have rd: "rd8 ?q (off + i) = Some ((be32 v @ be16 w) ! i)" if "i < 6" for i
    using octets_window [of off "be32 v @ be16 w" p i] assms that by simp
  have "pus_get_u32 ?q off = Some v" "pus_get_u16 ?q (off + 4) = Some w"
    using rd [of 0] rd [of 1] rd [of 2] rd [of 3] rd [of 4] rd [of 5] add.commute [of off 5]
    by (simp_all add: pus_get_u32_def pus_get_u16_def be32_def be16_def add.assoc
        flip: of_be32_def of_be16_def)
  with run show ?thesis
    using assms by (simp add: overwrite_def)
qed

lemma pus_bytes_roundtrip_witness:
  "\<exists>q. do { q \<leftarrow> pus_put_u32 (replicate 8 None) 1 0xDEADBEEF; pus_put_u16 q 5 0xCAFE } = Some q \<and>
     pus_get_u32 q 1 = Some 0xDEADBEEF \<and> pus_get_u16 q 5 = Some 0xCAFE"
  using pus_bytes_roundtrip [of 1 "replicate 8 None" "0xDEADBEEF" "0xCAFE"] by auto

end
