(* ===== verification/Crc16.thy ===== *)
theory Crc16
  imports Pus_Bytes
begin

text \<open>
  The packet error control field, \<open>src/crc16.c\<close>. The code side is the two nested loops of
  \<open>crc16_ccitt\<close> over checked memory. The abstract side is \<open>crc_from\<close>, the checksum of an
  octet string from any register value, and the reference is \<open>crc_serial\<close>, a linear
  feedback shift register fed one message bit at a time. The lemmas show that the
  octet-wise loop is that register, that the register is linear and loses no information,
  and, from these, which corruptions of a packet change its checksum.
\<close>

section \<open>The code\<close>

abbreviation (input) CRC16_SEED :: u16 where "CRC16_SEED \<equiv> 0xFFFF"

text \<open>The body of the inner loop.\<close>

definition crc_shift :: "u16 \<Rightarrow> u16" where
  "crc_shift crc =
     (if crc AND 0x8000 \<noteq> 0 then push_bit 1 crc XOR 0x1021 else push_bit 1 crc)"

text \<open>The inner loop: \<open>n\<close> iterations.\<close>

primrec crc_shifts :: "nat \<Rightarrow> u16 \<Rightarrow> u16" where
  "crc_shifts 0 crc = crc"
| "crc_shifts (Suc n) crc = crc_shifts n (crc_shift crc)"

text \<open>The outer loop from index \<open>i\<close>, with \<open>n\<close> iterations left.\<close>

primrec crc16_loop :: "mem \<Rightarrow> nat \<Rightarrow> nat \<Rightarrow> u16 \<Rightarrow> u16 option" where
  "crc16_loop data i 0 crc = Some crc"
| "crc16_loop data i (Suc n) crc = do {
     d \<leftarrow> rd8 data i;
     crc16_loop data (Suc i) n (crc_shifts 8 (crc XOR push_bit 8 (ucast d))) }"

definition crc16_ccitt :: "mem option \<Rightarrow> nat \<Rightarrow> u16 option" where
  "crc16_ccitt data len =
     (case data of None \<Rightarrow> Some CRC16_SEED | Some p \<Rightarrow> crc16_loop p 0 len CRC16_SEED)"

section \<open>The checksum of an octet string\<close>

definition crc_octet :: "u16 \<Rightarrow> u8 \<Rightarrow> u16" where
  "crc_octet crc d = crc_shifts 8 (crc XOR push_bit 8 (ucast d))"

definition crc_from :: "u16 \<Rightarrow> u8 list \<Rightarrow> u16" where
  "crc_from crc bs = foldl crc_octet crc bs"

abbreviation (input) crc16 :: "u8 list \<Rightarrow> u16" where
  "crc16 bs \<equiv> crc_from CRC16_SEED bs"

lemma crc_from_Nil [simp]: "crc_from c [] = c"
  by (simp add: crc_from_def)

lemma crc_from_Cons: "crc_from c (b # bs) = crc_from (crc_octet c b) bs"
  by (simp add: crc_from_def)

lemma crc_from_append: "crc_from c (as @ bs) = crc_from (crc_from c as) bs"
  by (simp add: crc_from_def)

lemma crc16_loop_octets:
  "i + n \<le> length bs \<Longrightarrow>
   crc16_loop (octets bs @ rest) i n c = Some (crc_from c (take n (drop i bs)))"
proof (induction n arbitrary: i c)
  case 0
  then show ?case by simp
next
  case (Suc n)
  have "drop i bs = bs ! i # drop (Suc i) bs"
    using Suc.prems by (simp add: Cons_nth_drop_Suc)
  then show ?case
    using Suc by (simp add: rd8_prefix crc_from_Cons flip: crc_octet_def)
qed

lemma crc16_ccitt_prefix [run_simps]:
  "len \<le> length bs \<Longrightarrow> crc16_ccitt (Some (octets bs @ rest)) len = Some (crc16 (take len bs))"
  by (simp add: crc16_ccitt_def crc16_loop_octets)

lemma crc16_ccitt_octets [run_simps]:
  "len \<le> length bs \<Longrightarrow> crc16_ccitt (Some (octets bs)) len = Some (crc16 (take len bs))"
  using crc16_ccitt_prefix [of len bs "[]"] by simp

section \<open>The register is linear and loses no information\<close>

lemma crc_msb: "crc AND 0x8000 \<noteq> 0 \<longleftrightarrow> bit crc 15" for crc :: u16
  using and_exp_eq_0_iff_not_bit [of crc 15] by simp

lemma crc_shift_bit:
  "crc_shift crc = push_bit 1 crc XOR (if bit crc 15 then 0x1021 else 0)"
  by (simp add: crc_shift_def flip: crc_msb)

lemma crc_shift_xor: "crc_shift (a XOR b) = crc_shift a XOR crc_shift b"
  by (simp add: crc_shift_bit push_bit_xor bit_xor_iff xor.assoc xor.left_commute
      del: push_bit_Suc)

lemma crc_shift_0 [simp]: "crc_shift 0 = 0"
  by (simp add: crc_shift_bit)

lemma bit_0x1021: "bit (0x1021 :: u16) n \<longleftrightarrow> n \<in> {0, 5, 12}"
proof -
  have "(0x1021 :: u16) = push_bit 0 1 OR push_bit 5 1 OR push_bit 12 1"
    by simp
  show ?thesis
    unfolding \<open>(0x1021 :: u16) = push_bit 0 1 OR push_bit 5 1 OR push_bit 12 1\<close>
      bit_or_iff bit_push_bit_iff
    by (auto simp: bit_1_iff)
qed

lemma bit_crc_shift:
  "bit (crc_shift x) n \<longleftrightarrow>
     n < 16 \<and> ((0 < n \<and> bit x (n - 1)) \<noteq> (bit x 15 \<and> n \<in> {0, 5, 12}))"
  by (auto simp: crc_shift_bit bit_xor_iff bit_push_bit_iff bit_0x1021 simp del: push_bit_Suc bit_numeral_word_iff
      dest: bit_imp_le_length)

lemma crc_shift_eq_0: "crc_shift x = 0 \<longleftrightarrow> x = 0"
proof
  assume eq: "crc_shift x = 0"
  have "\<not> bit (crc_shift x) 0"
    by (simp add: eq)
  then have top: "\<not> bit x 15"
    by (simp add: bit_crc_shift)
  have "\<not> bit x n" for n
  proof
    assume "bit x n"
    then have "n < 15"
      using top bit_imp_le_length [of x n] by (cases "n = 15") auto
    with \<open>bit x n\<close> have "bit (crc_shift x) (Suc n)"
      using top by (simp add: bit_crc_shift)
    then show False
      by (simp add: eq)
  qed
  then show "x = 0"
    by (auto intro: bit_word_eqI)
qed simp

lemma xor_eq_0_word: "a XOR b = 0 \<longleftrightarrow> a = b" for a b :: "'a::len word"
  by (metis xor.right_neutral xor_self_eq xor.assoc xor.commute)

lemma xor_left_cancel: "x XOR a = x XOR b \<longleftrightarrow> a = b" for a b x :: "'a::len word"
proof
  assume "x XOR a = x XOR b"
  then have "x XOR (x XOR a) = x XOR (x XOR b)"
    by simp
  then show "a = b"
    by (simp only: xor.assoc [symmetric] xor_self_eq xor.left_neutral)
qed simp

lemma crc_shift_inject: "crc_shift a = crc_shift b \<longleftrightarrow> a = b"
  by (metis crc_shift_eq_0 crc_shift_xor xor_eq_0_word)

lemma crc_shifts_xor: "crc_shifts n (a XOR b) = crc_shifts n a XOR crc_shifts n b"
  by (induction n arbitrary: a b) (simp_all add: crc_shift_xor)

lemma crc_shifts_0 [simp]: "crc_shifts n 0 = 0"
  by (induction n) simp_all

lemma crc_shifts_inject: "crc_shifts n a = crc_shifts n b \<longleftrightarrow> a = b"
  by (induction n arbitrary: a b) (simp_all add: crc_shift_inject)

section \<open>The bit-serial reference\<close>

text \<open>
  The register of the standard: a message bit is added to the bit that leaves the register;
  when their sum is 1 the polynomial \<open>x^16 + x^12 + x^5 + 1\<close> is subtracted.
\<close>

definition crc_feed :: "u16 \<Rightarrow> bool \<Rightarrow> u16" where
  "crc_feed crc b = push_bit 1 crc XOR (if bit crc 15 \<noteq> b then 0x1021 else 0)"

definition crc_serial :: "u16 \<Rightarrow> bool list \<Rightarrow> u16" where
  "crc_serial crc bits = foldl crc_feed crc bits"

text \<open>The bits of an octet string in transmission order, most significant bit first.\<close>

definition octet_bits :: "u8 \<Rightarrow> bool list" where
  "octet_bits d = map (\<lambda>i. bit d (7 - i)) [0..<8]"

definition message_bits :: "u8 list \<Rightarrow> bool list" where
  "message_bits bs = concat (map octet_bits bs)"

text \<open>A string of at most 16 bits, aligned with the top of the register.\<close>

primrec top_align :: "bool list \<Rightarrow> u16" where
  "top_align [] = 0"
| "top_align (b # bits) = (if b then 0x8000 else 0) XOR drop_bit 1 (top_align bits)"

lemma crc_serial_Nil [simp]: "crc_serial c [] = c"
  by (simp add: crc_serial_def)

lemma crc_serial_Cons: "crc_serial c (b # bits) = crc_serial (crc_feed c b) bits"
  by (simp add: crc_serial_def)

lemma crc_serial_append: "crc_serial c (as @ bs) = crc_serial (crc_serial c as) bs"
  by (simp add: crc_serial_def)

lemma bit_0x8000: "bit (0x8000 :: u16) n \<longleftrightarrow> n = 15"
proof -
  have "(0x8000 :: u16) = push_bit 15 1"
    by simp
  show ?thesis
    unfolding \<open>(0x8000 :: u16) = push_bit 15 1\<close> bit_push_bit_iff
    by (auto simp: bit_1_iff)
qed

lemma crc_feed_shift: "crc_feed crc b = crc_shift (crc XOR (if b then 0x8000 else 0))"
proof -
  have "bit (crc XOR 0x8000) 15 \<longleftrightarrow> \<not> bit crc 15"
    by (simp add: bit_xor_iff)
  moreover have "push_bit 1 (crc XOR 0x8000) = push_bit 1 crc"
  proof -
    have "push_bit 1 (0x8000 :: u16) = 0"
      by simp
    then show ?thesis
      by (simp only: push_bit_xor xor.right_neutral)
  qed
  ultimately show ?thesis
    by (simp add: crc_feed_def crc_shift_bit del: push_bit_Suc)
qed

lemma bit_top_align:
  "bit (top_align bits) n \<longleftrightarrow> n < 16 \<and> 15 - n < length bits \<and> bits ! (15 - n)"
proof (induction bits arbitrary: n)
  case Nil
  then show ?case by simp
next
  case (Cons b bits)
  have "bit (top_align (b # bits)) n \<longleftrightarrow> (b \<and> n = 15) \<noteq> bit (top_align bits) (Suc n)"
    by (auto simp: bit_xor_iff bit_drop_bit_eq bit_0x8000 simp del: bit_numeral_word_iff)
  also have "\<dots> \<longleftrightarrow> n < 16 \<and> 15 - n < length (b # bits) \<and> (b # bits) ! (15 - n)"
  proof (cases "n < 15")
    case True
    then have "15 - n = Suc (15 - Suc n)"
      by simp
    with True show ?thesis
      by (simp add: Cons.IH)
  next
    case False
    then show ?thesis
      by (cases "n = 15") (auto simp: Cons.IH)
  qed
  finally show ?case .
qed

lemma crc_shift_drop_top_align:
  assumes "length bits \<le> 15"
  shows "crc_shift (drop_bit 1 (top_align bits)) = top_align bits"
proof -
  have "\<not> bit (top_align bits) 0"
    using assms by (simp add: bit_top_align)
  moreover have "\<not> bit (drop_bit 1 (top_align bits)) 15"
    by (simp add: bit_simps bit_top_align)
  ultimately have "bit (crc_shift (drop_bit 1 (top_align bits))) n = bit (top_align bits) n"
    if "n < 16" for n
    using that by (cases n) (auto simp: bit_crc_shift bit_drop_bit_eq)
  then show ?thesis
    by (intro bit_word_eqI) simp
qed

text \<open>Feeding up to 16 bits is adding them to the register and shifting that many times.\<close>

lemma crc_serial_block:
  "length bits \<le> 16 \<Longrightarrow> crc_serial c bits = crc_shifts (length bits) (c XOR top_align bits)"
proof (induction bits arbitrary: c)
  case Nil
  then show ?case by simp
next
  case (Cons b bits)
  let ?t = "if b then 0x8000 else 0 :: u16"
  have "crc_serial c (b # bits) = crc_shifts (length bits) (crc_shift (c XOR ?t) XOR top_align bits)"
    using Cons by (simp add: crc_serial_Cons crc_feed_shift)
  also have "crc_shift (c XOR ?t) XOR top_align bits
      = crc_shift ((c XOR ?t) XOR drop_bit 1 (top_align bits))"
    using Cons.prems by (subst crc_shift_xor) (simp add: crc_shift_drop_top_align del: One_nat_def)
  finally show ?case
    by (simp add: xor.assoc)
qed

lemma length_octet_bits [simp]: "length (octet_bits d) = 8"
  by (simp add: octet_bits_def)

lemma top_align_octet_bits: "top_align (octet_bits d) = push_bit 8 (ucast d)"
  by (rule bit_word_eqI) (auto simp: bit_top_align bit_simps octet_bits_def)

lemma crc_octet_serial: "crc_octet c d = crc_serial c (octet_bits d)"
  by (simp add: crc_serial_block top_align_octet_bits crc_octet_def)

text \<open>The octet-wise loop computes the bit-serial register.\<close>

lemma crc_from_serial: "crc_from c bs = crc_serial c (message_bits bs)"
  by (induction bs arbitrary: c)
     (simp_all add: message_bits_def crc_from_Cons crc_serial_append crc_octet_serial)

section \<open>Error detection\<close>

text \<open>
  A burst of at most 16 bits is always detected: two messages that differ, and only inside a
  window of at most 16 consecutive bits, have different checksums from the same register
  value. So does every message obtained by damaging up to two consecutive octets.
\<close>

lemma crc_serial_inject: "crc_serial a bits = crc_serial b bits \<longleftrightarrow> a = b"
proof (induction bits arbitrary: a b)
  case Nil
  then show ?case by simp
next
  case (Cons x bits)
  have "crc_feed a x = crc_feed b x \<longleftrightarrow> a = b"
    unfolding crc_feed_shift crc_shift_inject
    by (simp only: xor.commute [of _ "if x then 0x8000 else 0"] xor_left_cancel)
  then show ?case
    by (simp add: crc_serial_Cons Cons.IH)
qed

lemma top_align_inject:
  assumes "length u = length v" and "length u \<le> 16" and "top_align u = top_align v"
  shows "u = v"
proof (rule nth_equalityI)
  fix i
  assume "i < length u"
  moreover have "bit (top_align u) (15 - i) = bit (top_align v) (15 - i)"
    by (simp add: assms(3))
  moreover have "15 - i < 16"
    by simp
  ultimately show "u ! i = v ! i"
    using assms(1,2) by (auto simp: bit_top_align)
qed (fact assms(1))

lemma crc_serial_burst:
  assumes "length u = length v" and "length u \<le> 16" and "u \<noteq> v"
  shows "crc_serial c (pre @ u @ post) \<noteq> crc_serial c (pre @ v @ post)"
proof
  assume "crc_serial c (pre @ u @ post) = crc_serial c (pre @ v @ post)"
  then have "crc_serial (crc_serial c pre) u = crc_serial (crc_serial c pre) v"
    by (simp add: crc_serial_append crc_serial_inject)
  then have "crc_serial c pre XOR top_align u = crc_serial c pre XOR top_align v"
    using assms(1,2) by (simp add: crc_serial_block crc_shifts_inject)
  then have "top_align u = top_align v"
    by (simp only: xor_left_cancel)
  with assms show False
    by (blast dest: top_align_inject)
qed

text \<open>The checksum of a packet that ends with its own checksum is 0.\<close>

lemma crc_shifts_low:
  assumes "\<And>i. i < n \<Longrightarrow> \<not> bit x (15 - i)" and "n \<le> 16"
  shows "crc_shifts n x = push_bit n x"
  using assms
proof (induction n arbitrary: x)
  case 0
  then show ?case by simp
next
  case (Suc n)
  have "\<not> bit x 15"
    using Suc.prems(1) [of 0] by simp
  then have step: "crc_shift x = push_bit 1 x"
    by (simp add: crc_shift_bit del: push_bit_Suc)
  have "\<not> bit (push_bit 1 x) (15 - i)" if "i < n" for i
    using Suc.prems(1) [of "Suc i"] Suc.prems(2) that
    by (simp add: bit_push_bit_iff del: push_bit_Suc)
  then have "crc_shifts n (push_bit 1 x) = push_bit n (push_bit 1 x)"
    using Suc.prems(2) by (intro Suc.IH) auto
  then show ?case
    by (simp add: step push_bit_push_bit del: push_bit_Suc)
qed

lemma crc_from_trailer: "crc_from c [a, b] = crc_shifts 16 (c XOR of_be16 a b)"
proof -
  have "crc_from c [a, b] = crc_serial c (octet_bits a @ octet_bits b)"
    by (simp add: crc_from_serial message_bits_def)
  also have "\<dots> = crc_shifts 16 (c XOR top_align (octet_bits a @ octet_bits b))"
    by (simp add: crc_serial_block)
  also have "top_align (octet_bits a @ octet_bits b) = of_be16 a b"
    by (rule bit_word_eqI)
       (auto simp: bit_top_align nth_append octet_bits_def of_be16_def bit_simps
             dest: bit_imp_le_length)
  finally show ?thesis .
qed

lemma crc_trailer_iff: "crc_from c (m @ [a, b]) = 0 \<longleftrightarrow> crc_from c m = of_be16 a b"
proof -
  have "crc_shifts 16 x = 0 \<longleftrightarrow> x = 0" for x
    by (metis crc_shifts_0 crc_shifts_inject)
  then show ?thesis
    by (simp add: crc_from_append crc_from_trailer xor_eq_0_word)
qed

lemma crc_residue: "crc_from c (m @ be16 (crc_from c m)) = 0"
  by (simp add: be16_def crc_trailer_iff)

text \<open>
  The polynomial has the factor \<open>x + 1\<close>: each message bit flips the parity of the register
  when it is 1, so the parity of the checksum is that of the message.
\<close>

definition parity :: "u16 \<Rightarrow> bool" where
  "parity w \<longleftrightarrow> odd (length (filter (bit w) [0..<16]))"

definition differing :: "bool list \<Rightarrow> bool list \<Rightarrow> nat" where
  "differing xs ys = length (filter (\<lambda>(x, y). x \<noteq> y) (zip xs ys))"

lemma odd_filter_neq:
  "odd (length (filter (\<lambda>x. P x \<noteq> Q x) xs)) \<longleftrightarrow> odd (length (filter P xs)) \<noteq> odd (length (filter Q xs))"
  by (induction xs) auto

lemma parity_xor: "parity (a XOR b) \<longleftrightarrow> parity a \<noteq> parity b"
proof -
  have "filter (bit (a XOR b)) [0..<16] = filter (\<lambda>n. bit a n \<noteq> bit b n) [0..<16]"
    by (rule filter_cong) (simp_all add: bit_xor_iff)
  then show ?thesis
    unfolding parity_def by (simp only: odd_filter_neq)
qed

lemma parity_shift:
  assumes "\<And>n. bit y n \<longleftrightarrow> 0 < n \<and> n < 16 \<and> bit x (n - 1)"
  shows "parity y \<longleftrightarrow> parity x \<noteq> bit x 15"
proof -
  have s: "[0..<16] = 0 # map Suc [0..<15]"
    by (simp add: upt_conv_Cons flip: map_Suc_upt)
  have "filter (bit y) (map Suc [0..<15]) = map Suc (filter (bit x) [0..<15])"
    unfolding filter_map comp_def assms by (intro arg_cong [of _ _ "map Suc"] filter_cong) auto
  then have "parity y \<longleftrightarrow> odd (length (filter (bit x) [0..<15]))"
    unfolding parity_def s by (simp add: assms)
  moreover have "[0..<16] = [0..<15] @ [15]"
    by (simp add: upt_rec)
  ultimately show ?thesis
    by (simp add: parity_def)
qed

lemma parity_push_bit: "parity (push_bit 1 x) \<longleftrightarrow> parity x \<noteq> bit x 15"
  by (rule parity_shift) (auto simp: bit_push_bit_iff dest: bit_imp_le_length simp del: push_bit_Suc)

lemma parity_crc_feed: "parity (crc_feed crc b) \<longleftrightarrow> parity crc \<noteq> b"
proof -
  have "parity 0x1021" and "\<not> parity 0"
    by (simp_all add: parity_def upt_rec)
  then show ?thesis
    unfolding crc_feed_def parity_xor parity_push_bit by auto
qed

lemma parity_crc_serial:
  "length xs = length ys \<Longrightarrow>
   (parity (crc_serial c xs) \<noteq> parity (crc_serial d ys)) \<longleftrightarrow> (parity c \<noteq> parity d) \<noteq> odd (differing xs ys)"
proof (induction xs ys arbitrary: c d rule: list_induct2)
  case Nil
  then show ?case by (simp add: differing_def)
next
  case (Cons x xs y ys)
  then show ?case
    by (auto simp: crc_serial_Cons parity_crc_feed differing_def)
qed

lemma length_message_bits [simp]: "length (message_bits bs) = 8 * length bs"
  by (induction bs) (simp_all add: message_bits_def)

section \<open>Properties\<close>

text \<open>The check value of the standard.\<close>

lemma crc16_check_value: "crc16 [0x31, 0x32, 0x33, 0x34, 0x35, 0x36, 0x37, 0x38, 0x39] = 0x29B1"
  by code_simp

text \<open>
  C15: The checksum routine never reads outside its input and computes the bit-serial shift
  register of the standard, started at 0xFFFF, on the bits of the octets it is given, most
  significant bit first.
\<close>

theorem crc16_ccitt_reference:
  "crc16_ccitt (Some (octets bs @ rest)) (length bs) = Some (crc_serial CRC16_SEED (message_bits bs))"
  by (simp add: crc16_ccitt_prefix crc_from_serial)

text \<open>
  Two buffers of equal length that differ, and only inside a window of at most 16 bits at
  any bit position, never have the same checksum.
\<close>

theorem crc16_ccitt_burst:
  assumes "message_bits as = pre @ u @ post" and "message_bits bs = pre @ v @ post"
    and "length u = length v" and "length u \<le> 16" and "u \<noteq> v"
  shows "crc16_ccitt (Some (octets as)) (length as) \<noteq> crc16_ccitt (Some (octets bs)) (length bs)"
  using crc_serial_burst [OF assms(3-5), of CRC16_SEED pre post]
  by (simp add: crc16_ccitt_octets crc_from_serial assms(1,2))

lemma crc16_ccitt_burst_witness:
  "crc16_ccitt (Some (octets [0x18, 0x0C])) 2 \<noteq> crc16_ccitt (Some (octets [0x18, 0x03])) 2"
  using crc16_ccitt_burst [of "[0x18, 0x0C]" "message_bits [0x18] @ [False, False, False, False]"
    "[True, True, False, False]" "[]" "[0x18, 0x03]" "[False, False, True, True]"]
  by (simp add: message_bits_def octet_bits_def upt_rec numeral_2_eq_2)

text \<open>
  Two buffers of equal length that differ in an odd number of bits never have the same
  checksum, wherever the bits are.
\<close>

theorem crc16_ccitt_odd_errors:
  assumes "length as = length bs" and "odd (differing (message_bits as) (message_bits bs))"
  shows "crc16_ccitt (Some (octets as)) (length as) \<noteq> crc16_ccitt (Some (octets bs)) (length bs)"
  using parity_crc_serial [of "message_bits as" "message_bits bs" CRC16_SEED CRC16_SEED] assms
  by (auto simp: crc16_ccitt_octets crc_from_serial)

lemma crc16_ccitt_odd_errors_witness:
  "crc16_ccitt (Some (octets [0x18, 0x0C, 0xFF])) 3 \<noteq> crc16_ccitt (Some (octets [0x98, 0x0D, 0x7F])) 3"
proof -
  have "odd (differing (message_bits [0x18, 0x0C, 0xFF]) (message_bits [0x98, 0x0D, 0x7F]))"
    by code_simp
  from crc16_ccitt_odd_errors [OF _ this] show ?thesis
    by (simp add: numeral_3_eq_3)
qed

end
