(* ===== verification/Ccsds.thy ===== *)
theory Ccsds
  imports Crc16
begin

text \<open>
  The CCSDS space packet primary header, \<open>include/pus/ccsds.h\<close> and \<open>src/ccsds.c\<close>: the
  header structure, its codec over checked memory, and on the abstract side the six octets
  \<open>header_octets\<close> of a header and the header \<open>header_of\<close> of six octets.
\<close>

section \<open>The code\<close>

abbreviation (input) CCSDS_PRIMARY_HEADER_LEN :: nat where "CCSDS_PRIMARY_HEADER_LEN \<equiv> 6"
abbreviation (input) CCSDS_CRC_LEN :: nat where "CCSDS_CRC_LEN \<equiv> 2"
abbreviation (input) CCSDS_TYPE_TM :: u8 where "CCSDS_TYPE_TM \<equiv> 0"
abbreviation (input) CCSDS_TYPE_TC :: u8 where "CCSDS_TYPE_TC \<equiv> 1"
abbreviation (input) CCSDS_SEQ_FLAG_UNSEGMENTED :: u8 where "CCSDS_SEQ_FLAG_UNSEGMENTED \<equiv> 3"

record ccsds_primary_header_t =
  version :: u8
  packet_type :: u8
  sec_hdr_flag :: u8
  apid :: u16
  seq_flags :: u8
  seq_count :: u16
  data_length :: u16

definition header_word0 :: "ccsds_primary_header_t \<Rightarrow> u16" where
  "header_word0 hdr =
     push_bit 13 (ucast (version hdr AND 0x07)) OR
     push_bit 12 (ucast (packet_type hdr AND 0x01)) OR
     push_bit 11 (ucast (sec_hdr_flag hdr AND 0x01)) OR
     (apid hdr AND 0x07FF)"

definition header_word1 :: "ccsds_primary_header_t \<Rightarrow> u16" where
  "header_word1 hdr =
     push_bit 14 (ucast (seq_flags hdr AND 0x03)) OR (seq_count hdr AND 0x3FFF)"

text \<open>The result is the status and the buffer afterwards.\<close>

definition ccsds_pack_primary ::
    "ccsds_primary_header_t option \<Rightarrow> mem option \<Rightarrow> nat \<Rightarrow> (pus_status_t \<times> mem option) option" where
  "ccsds_pack_primary hdr buf buf_len =
     (case (hdr, buf) of
        (Some h, Some p) \<Rightarrow>
          if buf_len < CCSDS_PRIMARY_HEADER_LEN then Some (PUS_ERR_BUFFER_TOO_SMALL, buf)
          else do {
            p \<leftarrow> pus_put_u16 p 0 (header_word0 h);
            p \<leftarrow> pus_put_u16 p 2 (header_word1 h);
            p \<leftarrow> pus_put_u16 p 4 (data_length h);
            Some (PUS_OK, Some p) }
      | _ \<Rightarrow> Some (PUS_ERR_NULL, buf))"

definition ccsds_unpack_primary ::
    "mem option \<Rightarrow> nat \<Rightarrow> ccsds_primary_header_t outp
     \<Rightarrow> (pus_status_t \<times> ccsds_primary_header_t outp) option" where
  "ccsds_unpack_primary buf buf_len hdr =
     (case (buf, hdr) of
        (Some p, Some _) \<Rightarrow>
          if buf_len < CCSDS_PRIMARY_HEADER_LEN then Some (PUS_ERR_TRUNCATED, hdr)
          else do {
            word0 \<leftarrow> pus_get_u16 p 0;
            word1 \<leftarrow> pus_get_u16 p 2;
            dl \<leftarrow> pus_get_u16 p 4;
            Some (PUS_OK, Some (Some \<lparr>
              version = ucast (drop_bit 13 word0 AND 0x07),
              packet_type = ucast (drop_bit 12 word0 AND 0x01),
              sec_hdr_flag = ucast (drop_bit 11 word0 AND 0x01),
              apid = word0 AND 0x07FF,
              seq_flags = ucast (drop_bit 14 word1 AND 0x03),
              seq_count = word1 AND 0x3FFF,
              data_length = dl \<rparr>)) }
      | _ \<Rightarrow> Some (PUS_ERR_NULL, hdr))"

definition ccsds_total_length :: "ccsds_primary_header_t option \<Rightarrow> nat" where
  "ccsds_total_length hdr =
     (case hdr of None \<Rightarrow> 0
      | Some h \<Rightarrow> CCSDS_PRIMARY_HEADER_LEN + unat (data_length h) + 1)"

section \<open>Headers and their octets\<close>

text \<open>The field widths of the standard: what six octets can carry.\<close>

definition header_fits :: "ccsds_primary_header_t \<Rightarrow> bool" where
  "header_fits h \<longleftrightarrow> version h < 8 \<and> packet_type h < 2 \<and> sec_hdr_flag h < 2 \<and>
     apid h < 2048 \<and> seq_flags h < 4 \<and> seq_count h < 16384"

definition header_octets :: "ccsds_primary_header_t \<Rightarrow> u8 list" where
  "header_octets h = be16 (header_word0 h) @ be16 (header_word1 h) @ be16 (data_length h)"

definition header_of_words :: "u16 \<Rightarrow> u16 \<Rightarrow> u16 \<Rightarrow> ccsds_primary_header_t" where
  "header_of_words word0 word1 dl = \<lparr>
     version = ucast (drop_bit 13 word0 AND 0x07),
     packet_type = ucast (drop_bit 12 word0 AND 0x01),
     sec_hdr_flag = ucast (drop_bit 11 word0 AND 0x01),
     apid = word0 AND 0x07FF,
     seq_flags = ucast (drop_bit 14 word1 AND 0x03),
     seq_count = word1 AND 0x3FFF,
     data_length = dl \<rparr>"

definition header_of :: "u8 list \<Rightarrow> ccsds_primary_header_t" where
  "header_of bs = header_of_words
     (of_be16 (bs ! 0) (bs ! 1)) (of_be16 (bs ! 2) (bs ! 3)) (of_be16 (bs ! 4) (bs ! 5))"

lemma length_header_octets [simp]: "length (header_octets h) = 6"
  by (simp add: header_octets_def)

section \<open>The codec runs in bounds and computes these\<close>

lemma ccsds_pack_primary_in [run_simps]:
  assumes "6 \<le> n" and "6 \<le> length p"
  shows "ccsds_pack_primary (Some h) (Some p) n
       = Some (PUS_OK, Some (overwrite p 0 (octets (header_octets h))))"
proof -
  have "overwrite (overwrite (overwrite p 0 a) 2 b) 4 c = overwrite p 0 (a @ b @ c)"
    if "length a = 2" and "length b = 2" for a b c :: mem
    using that assms by (simp add: overwrite_overwrite)
  then show ?thesis
    using assms by (simp add: ccsds_pack_primary_def pus_put_u16_in header_octets_def octets_append)
qed

lemma ccsds_unpack_primary_prefix [run_simps]:
  assumes "6 \<le> n" and "6 \<le> length bs"
  shows "ccsds_unpack_primary (Some (octets bs @ rest)) n (Some h)
       = Some (PUS_OK, Some (Some (header_of bs)))"
  using assms
  by (simp add: ccsds_unpack_primary_def pus_get_u16_prefix header_of_def header_of_words_def
      eval_nat_numeral)

section \<open>Round trips\<close>

lemma mask_consts:
  "(0x07 :: 'a::len word) = mask 3" "(0x03 :: 'a word) = mask 2" "(0x01 :: 'a word) = mask 1"
  "(0x07FF :: 'a word) = mask 11" "(0x3FFF :: 'a word) = mask 14"
  by (simp_all add: mask_numeral)

lemma bit_below: "x < 2 ^ n \<Longrightarrow> bit x i \<Longrightarrow> i < n" for x :: "'a::len word"
  by (metis bit_and_iff bit_mask_iff less_mask_eq)

lemma header_fits_bits:
  assumes "header_fits h"
  shows "bit (version h) i \<Longrightarrow> i < 3" and "bit (packet_type h) i \<Longrightarrow> i < 1"
    and "bit (sec_hdr_flag h) i \<Longrightarrow> i < 1" and "bit (apid h) i \<Longrightarrow> i < 11"
    and "bit (seq_flags h) i \<Longrightarrow> i < 2" and "bit (seq_count h) i \<Longrightarrow> i < 14"
  using assms bit_below [of "version h" 3] bit_below [of "packet_type h" 1]
    bit_below [of "sec_hdr_flag h" 1] bit_below [of "apid h" 11] bit_below [of "seq_flags h" 2]
    bit_below [of "seq_count h" 14]
  by (simp_all add: header_fits_def)

text \<open>The bit positions of the fields in the two words.\<close>

lemma bit_header_word0:
  "bit (header_word0 h) i \<longleftrightarrow>
     13 \<le> i \<and> i < 16 \<and> bit (version h) (i - 13) \<or> i = 12 \<and> bit (packet_type h) 0 \<or>
     i = 11 \<and> bit (sec_hdr_flag h) 0 \<or> i < 11 \<and> bit (apid h) i"
proof -
  consider "16 \<le> i" | "13 \<le> i" "i < 16" | "i = 12" | "i = 11" | "i < 11"
    by linarith
  then show ?thesis
    unfolding header_word0_def mask_consts
    by cases (auto simp: bit_simps dest: bit_imp_le_length)
qed

lemma bit_header_word1:
  "bit (header_word1 h) i \<longleftrightarrow>
     14 \<le> i \<and> i < 16 \<and> bit (seq_flags h) (i - 14) \<or> i < 14 \<and> bit (seq_count h) i"
  unfolding header_word1_def mask_consts
  by (auto simp: bit_simps)

text \<open>Decoding gives back every header whose fields fit.\<close>

lemma header_of_words_word0_word1:
  assumes "header_fits h"
  shows "header_of_words (header_word0 h) (header_word1 h) (data_length h) = h"
proof -
  note b = header_fits_bits [OF assms]
  have "ucast (drop_bit 13 (header_word0 h) AND 0x07) = version h"
    "ucast (drop_bit 12 (header_word0 h) AND 0x01) = packet_type h"
    "ucast (drop_bit 11 (header_word0 h) AND 0x01) = sec_hdr_flag h"
    "header_word0 h AND 0x07FF = apid h"
    "ucast (drop_bit 14 (header_word1 h) AND 0x03) = seq_flags h"
    "header_word1 h AND 0x3FFF = seq_count h"
    unfolding mask_consts
    by (rule bit_word_eqI; auto simp: bit_simps bit_header_word0 bit_header_word1 dest: b)+
  then show ?thesis
    by (simp add: header_of_words_def)
qed

text \<open>Encoding gives back every six octets.\<close>

lemma header_octets_of:
  assumes "length bs = 6"
  shows "header_octets (header_of bs) = bs"
proof -
  have w0: "header_word0 (header_of_words a b c) = a"
    and w1: "header_word1 (header_of_words a b c) = b" for a b c
  proof -
    show "header_word0 (header_of_words a b c) = a"
    proof (rule bit_word_eqI)
      fix n
      assume "n < LENGTH(16)"
      then consider "13 \<le> n" "n < 16" | "n = 12" | "n = 11" | "n < 11"
        by force
      then show "bit (header_word0 (header_of_words a b c)) n = bit a n"
        unfolding header_of_words_def mask_consts
        by cases (auto simp: bit_header_word0 bit_simps)
    qed
    show "header_word1 (header_of_words a b c) = b"
      unfolding header_of_words_def mask_consts
      by (rule bit_word_eqI)
         (auto simp: bit_header_word1  bit_simps)
  qed
  obtain a b c d e f where "bs = [a, b, c, d, e, f]"
    using assms by (auto simp: numeral_eq_Suc length_Suc_conv)
  then show ?thesis
    by (simp add: header_octets_def header_of_def w0 w1) (simp add: header_of_words_def)
qed

lemma header_of_octets:
  assumes "header_fits h"
  shows "header_of (header_octets h @ rest) = h"
  using header_of_words_word0_word1 [OF assms]
  by (simp add: header_of_def header_octets_def be16_def)

lemma header_of_append: "6 \<le> length bs \<Longrightarrow> header_of (bs @ rest) = header_of bs"
  by (simp add: header_of_def nth_append del: length_greater_0_conv)

lemma header_of_take: "header_of (take 6 bs) = header_of bs"
  by (simp add: header_of_def)
text \<open>Every decoded header is in range, whatever the octets are.\<close>

lemma and_mask_lt: "(x AND mask n) < 2 ^ n" if "n < LENGTH('a)" for x :: "'a::len word"
  using that by (simp add: and_mask_less_size word_size)

lemma ucast_and_mask_lt: "(ucast (x AND mask n :: u16) :: u8) < 2 ^ n" if "n < 8" 
proof -
  have "(ucast (x AND mask n) :: u8) = ucast x AND mask n"
    by (rule bit_word_eqI) (auto simp: bit_simps)
  with that show ?thesis by (simp add: and_mask_lt)
qed

lemma header_of_fits: "header_fits (header_of bs)"
  unfolding header_fits_def header_of_def header_of_words_def mask_consts
  using and_mask_lt [where 'a = 16, of 11] and_mask_lt [where 'a = 16, of 14] ucast_and_mask_lt [of 3] ucast_and_mask_lt [of 2]
    ucast_and_mask_lt [of 1] by simp

section \<open>Properties\<close>

text \<open>The codec rejects what it cannot handle, and touches nothing then.\<close>

lemma ccsds_pack_primary_errors:
  "ccsds_pack_primary None buf n = Some (PUS_ERR_NULL, buf)"
  "ccsds_pack_primary hdr None n = Some (PUS_ERR_NULL, None)"
  "n < 6 \<Longrightarrow> ccsds_pack_primary (Some h) (Some p) n = Some (PUS_ERR_BUFFER_TOO_SMALL, Some p)"
  by (simp_all add: ccsds_pack_primary_def split: option.splits)

lemma ccsds_unpack_primary_errors:
  "ccsds_unpack_primary None n hdr = Some (PUS_ERR_NULL, hdr)"
  "ccsds_unpack_primary buf n None = Some (PUS_ERR_NULL, None)"
  "n < 6 \<Longrightarrow> ccsds_unpack_primary (Some p) n (Some h) = Some (PUS_ERR_TRUNCATED, Some h)"
  by (simp_all add: ccsds_unpack_primary_def split: option.splits)

lemma ccsds_total_length_bounds: "7 \<le> ccsds_total_length (Some h) \<and> ccsds_total_length (Some h) \<le> 65542"
  using unat_u16_less [of "data_length h"] by (simp add: ccsds_total_length_def)

text \<open>
  Packing a header whose fields fit their widths into any buffer of at least six octets and
  unpacking that buffer gives the header back.
\<close>

theorem ccsds_primary_roundtrip:
  assumes "header_fits h" and "6 \<le> length p"
  shows "do { (_, b) \<leftarrow> ccsds_pack_primary (Some h) (Some p) (length p);
      ccsds_unpack_primary b (length p) (Some None) } = Some (PUS_OK, Some (Some h))"
proof -
  have "ccsds_unpack_primary (Some (octets (header_octets h) @ drop 6 p)) (length p) (Some None)
      = Some (PUS_OK, Some (Some (header_of (header_octets h))))"
    using assms(2) by (simp add: ccsds_unpack_primary_prefix)
  then show ?thesis
    using assms header_of_octets [OF assms(1), of "[]"]
    by (simp add: ccsds_pack_primary_in overwrite_0)
qed

lemma ccsds_primary_roundtrip_witness:
  "let h = \<lparr> version = 0, packet_type = 1, sec_hdr_flag = 1, apid = 12, seq_flags = 3,
       seq_count = 16383, data_length = 249 \<rparr>
   in do { (_, b) \<leftarrow> ccsds_pack_primary (Some h) (Some (replicate 6 None)) 6;
        ccsds_unpack_primary b 6 (Some None) } = Some (PUS_OK, Some (Some h))"
  using ccsds_primary_roundtrip [of "\<lparr> version = 0, packet_type = 1, sec_hdr_flag = 1, apid = 12,
    seq_flags = 3, seq_count = 16383, data_length = 249 \<rparr>" "replicate 6 None"]
  by (simp add: header_fits_def)

text \<open>
  Unpacking any six octets succeeds, yields a header whose fields fit their widths, and
  packing that header writes the same six octets: no bit of the primary header is lost.
\<close>

theorem ccsds_primary_faithful:
  assumes "length bs = 6"
  shows "\<exists>h. ccsds_unpack_primary (Some (octets bs @ rest)) (6 + length rest) (Some None)
        = Some (PUS_OK, Some (Some h)) \<and> header_fits h \<and>
      ccsds_pack_primary (Some h) (Some (replicate 6 None)) 6 = Some (PUS_OK, Some (octets bs))"
  using assms header_octets_of [OF assms] header_of_fits [of bs]
  by (simp add: ccsds_unpack_primary_prefix ccsds_pack_primary_in overwrite_0)

lemma ccsds_primary_faithful_witness:
  "\<exists>h. ccsds_unpack_primary (Some (octets [0xFF, 0xFF, 0xFF, 0xFF, 0xFF, 0xFF] @ [None])) 7 (Some None)
      = Some (PUS_OK, Some (Some h)) \<and> header_fits h \<and>
    ccsds_pack_primary (Some h) (Some (replicate 6 None)) 6
      = Some (PUS_OK, Some (octets [0xFF, 0xFF, 0xFF, 0xFF, 0xFF, 0xFF]))"
  using ccsds_primary_faithful [of "[0xFF, 0xFF, 0xFF, 0xFF, 0xFF, 0xFF]" "[None]"] by simp

end
