(* ===== verification/Pus_Tc.thy ===== *)
theory Pus_Tc
  imports Ccsds
begin

text \<open>
  Telecommand acceptance, \<open>include/pus/pus_tc.h\<close> and \<open>src/pus_tc.c\<close>. The decoded
  telecommand keeps a pointer into the received buffer: \<open>app_data\<close> is the rest of that
  buffer from the first octet of application data on, so a handler that reads too far reads
  the packet error control field, as it would in C. On a failure after the primary header
  was decoded the destination structure is partly written; it is then indeterminate.

  The abstract side is the verdict on an octet string, \<open>tc_verdict\<close>, and the telecommand it
  carries, \<open>tc_decode\<close>.
\<close>

section \<open>The code\<close>

abbreviation (input) PUS_TC_SEC_HEADER_LEN :: nat where "PUS_TC_SEC_HEADER_LEN \<equiv> 5"
abbreviation (input) PUS_VERSION_C :: u8 where "PUS_VERSION_C \<equiv> 2"
abbreviation (input) PUS_ACK_ACCEPTANCE :: u8 where "PUS_ACK_ACCEPTANCE \<equiv> 0x1"
abbreviation (input) PUS_ACK_START :: u8 where "PUS_ACK_START \<equiv> 0x2"
abbreviation (input) PUS_ACK_PROGRESS :: u8 where "PUS_ACK_PROGRESS \<equiv> 0x4"
abbreviation (input) PUS_ACK_COMPLETION :: u8 where "PUS_ACK_COMPLETION \<equiv> 0x8"
abbreviation (input) PUS_TC_MIN_LEN :: nat where
  "PUS_TC_MIN_LEN \<equiv> CCSDS_PRIMARY_HEADER_LEN + PUS_TC_SEC_HEADER_LEN + CCSDS_CRC_LEN"

record pus_tc_t =
  prim :: ccsds_primary_header_t
  pus_version :: u8
  ack_flags :: u8
  service_type :: u8
  service_subtype :: u8
  source_id :: u16
  app_data :: "mem option"
  app_data_len :: nat
  request_id :: u32

definition pus_tc_parse ::
    "mem option \<Rightarrow> nat \<Rightarrow> pus_tc_t outp \<Rightarrow> (pus_status_t \<times> pus_tc_t outp) option" where
  "pus_tc_parse buf len tc =
     (case (buf, tc) of
        (Some p, Some _) \<Rightarrow>
          if len < PUS_TC_MIN_LEN then Some (PUS_ERR_TRUNCATED, tc)
          else do {
            (st, hdr) \<leftarrow> ccsds_unpack_primary buf len (Some None);
            if st \<noteq> PUS_OK then Some (st, Some None)
            else do {
              hd \<leftarrow> hdr;
              h \<leftarrow> hd;
              let total = ccsds_total_length (Some h);
              if total \<noteq> len then Some (PUS_ERR_BAD_LENGTH, Some None)
              else do {
                computed \<leftarrow> crc16_ccitt buf (total - CCSDS_CRC_LEN);
                received \<leftarrow> pus_get_u16 p (total - CCSDS_CRC_LEN);
                if computed \<noteq> received then Some (PUS_ERR_BAD_CRC, Some None)
                else if version h \<noteq> 0 then Some (PUS_ERR_BAD_VERSION, Some None)
                else if packet_type h \<noteq> CCSDS_TYPE_TC then Some (PUS_ERR_BAD_PACKET_TYPE, Some None)
                else if sec_hdr_flag h \<noteq> 1 then Some (PUS_ERR_NO_SEC_HEADER, Some None)
                else if apid h \<noteq> PUS_TC_APID then Some (PUS_ERR_BAD_APID, Some None)
                else do {
                  b \<leftarrow> rd8 p CCSDS_PRIMARY_HEADER_LEN;
                  let ver = drop_bit 4 b AND 0x0F;
                  let ack = b AND 0x0F;
                  svc \<leftarrow> rd8 p (CCSDS_PRIMARY_HEADER_LEN + 1);
                  sub \<leftarrow> rd8 p (CCSDS_PRIMARY_HEADER_LEN + 2);
                  src \<leftarrow> pus_get_u16 p (CCSDS_PRIMARY_HEADER_LEN + 3);
                  if ver \<noteq> PUS_VERSION_C then Some (PUS_ERR_BAD_VERSION, Some None)
                  else do {
                    let n = total - PUS_TC_MIN_LEN;
                    req \<leftarrow> pus_get_u32 p 0;
                    Some (PUS_OK, Some (Some \<lparr>
                      prim = h, pus_version = ver, ack_flags = ack, service_type = svc,
                      service_subtype = sub, source_id = src,
                      app_data = (if n > 0
                        then Some (drop (CCSDS_PRIMARY_HEADER_LEN + PUS_TC_SEC_HEADER_LEN) p)
                        else None),
                      app_data_len = n, request_id = req \<rparr>)) } } } } }
      | _ \<Rightarrow> Some (PUS_ERR_NULL, tc))"

definition pus_tc_ack_requested :: "pus_tc_t option \<Rightarrow> u8 \<Rightarrow> pus_bool_t" where
  "pus_tc_ack_requested tc ack_mask =
     (case tc of None \<Rightarrow> PUS_FALSE
      | Some t \<Rightarrow> if ack_flags t AND ack_mask \<noteq> 0 then PUS_TRUE else PUS_FALSE)"

section \<open>Verdict and content of an octet string\<close>

definition declared_length :: "u8 list \<Rightarrow> nat" where
  "declared_length bs = 7 + unat (data_length (header_of bs))"

definition crc_ok :: "u8 list \<Rightarrow> bool" where
  "crc_ok bs \<longleftrightarrow> crc16 (take (length bs - 2) bs) = of_be16 (bs ! (length bs - 2)) (bs ! (length bs - 1))"

definition tc_verdict :: "u8 list \<Rightarrow> pus_status_t" where
  "tc_verdict bs =
     (let h = header_of bs in
      if length bs < 13 then PUS_ERR_TRUNCATED
      else if declared_length bs \<noteq> length bs then PUS_ERR_BAD_LENGTH
      else if \<not> crc_ok bs then PUS_ERR_BAD_CRC
      else if version h \<noteq> 0 then PUS_ERR_BAD_VERSION
      else if packet_type h \<noteq> 1 then PUS_ERR_BAD_PACKET_TYPE
      else if sec_hdr_flag h \<noteq> 1 then PUS_ERR_NO_SEC_HEADER
      else if apid h \<noteq> 12 then PUS_ERR_BAD_APID
      else if drop_bit 4 (bs ! 6) AND 0x0F \<noteq> 2 then PUS_ERR_BAD_VERSION
      else PUS_OK)"

record telecommand =
  tc_ack :: u8
  tc_service :: u8
  tc_subtype :: u8
  tc_source :: u16
  tc_app :: "u8 list"
  tc_request :: u32

definition tc_decode :: "u8 list \<Rightarrow> telecommand" where
  "tc_decode bs = \<lparr>
     tc_ack = bs ! 6 AND 0x0F, tc_service = bs ! 7, tc_subtype = bs ! 8,
     tc_source = of_be16 (bs ! 9) (bs ! 10),
     tc_app = take (length bs - 13) (drop 11 bs),
     tc_request = of_be32 (bs ! 0) (bs ! 1) (bs ! 2) (bs ! 3) \<rparr>"

text \<open>The telecommand a decoded structure stands for, and when its pointer is usable.\<close>

definition tc_abs :: "pus_tc_t \<Rightarrow> telecommand" where
  "tc_abs tc = \<lparr>
     tc_ack = ack_flags tc, tc_service = service_type tc, tc_subtype = service_subtype tc,
     tc_source = source_id tc,
     tc_app = (case app_data tc of None \<Rightarrow> [] | Some p \<Rightarrow> map the (take (app_data_len tc) p)),
     tc_request = request_id tc \<rparr>"

definition tc_ok :: "pus_tc_t \<Rightarrow> bool" where
  "tc_ok tc \<longleftrightarrow>
     (case app_data tc of None \<Rightarrow> app_data_len tc = 0
      | Some p \<Rightarrow> app_data_len tc \<le> length p \<and> None \<notin> set (take (app_data_len tc) p))"

section \<open>The parser computes the verdict\<close>

lemma pus_tc_parse_NULL:
  "pus_tc_parse None len tc = Some (PUS_ERR_NULL, tc)"
  "pus_tc_parse buf len None = Some (PUS_ERR_NULL, None)"
  by (simp_all add: pus_tc_parse_def split: option.splits)

definition tc_image :: "u8 list \<Rightarrow> mem \<Rightarrow> pus_tc_t" where
  "tc_image bs rest = \<lparr>
     prim = header_of bs, pus_version = 2, ack_flags = bs ! 6 AND 0x0F,
     service_type = bs ! 7, service_subtype = bs ! 8, source_id = of_be16 (bs ! 9) (bs ! 10),
     app_data = (if 13 < length bs then Some (octets (drop 11 bs) @ rest) else None),
     app_data_len = length bs - 13,
     request_id = of_be32 (bs ! 0) (bs ! 1) (bs ! 2) (bs ! 3) \<rparr>"

lemma pus_tc_parse_octets:
  "pus_tc_parse (Some (octets bs @ rest)) (length bs) (Some t) =
     Some (tc_verdict bs,
       if tc_verdict bs = PUS_OK then Some (Some (tc_image bs rest))
       else if length bs < 13 then Some t else Some None)"
proof (cases "length bs < 13")
  case True
  then show ?thesis
    by (simp add: pus_tc_parse_def tc_verdict_def Let_def)
next
  case False
  then have len: "13 \<le> length bs"
    by simp
  have total: "ccsds_total_length (Some (header_of bs)) = declared_length bs"
    by (simp add: ccsds_total_length_def declared_length_def)
  show ?thesis
  proof (cases "declared_length bs = length bs")
    case False
    then show ?thesis
      using len total
      by (simp add: pus_tc_parse_def tc_verdict_def ccsds_unpack_primary_prefix Let_def)
  next
    case True
    have last: "Suc (length bs - 2) = length bs - 1"
      using len by simp
    show ?thesis
      using len total True
      by (simp add: pus_tc_parse_def tc_verdict_def ccsds_unpack_primary_prefix Let_def
          crc16_ccitt_prefix pus_get_u16_prefix pus_get_u32_prefix rd8_prefix crc_ok_def last
          tc_image_def octets_drop flip: numeral_2_eq_2)
  qed
qed

text \<open>The decoded structure stands for the telecommand of the octets, and is safe to use.\<close>

lemma tc_abs_image:
  assumes "13 \<le> length bs"
  shows "tc_abs (tc_image bs rest) = tc_decode bs"
proof -
  have "take (length bs - 13) (octets (drop 11 bs) @ rest) = octets (take (length bs - 13) (drop 11 bs))"
    using assms by (simp add: octets_take)
  then show ?thesis
    by (simp add: tc_abs_def tc_image_def tc_decode_def)
qed

lemma tc_ok_image:
  assumes "13 \<le> length bs"
  shows "tc_ok (tc_image bs rest)"
proof -
  have "take (length bs - 13) (octets (drop 11 bs) @ rest) = octets (take (length bs - 13) (drop 11 bs))"
    using assms by (simp add: octets_take)
  then show ?thesis
    by (auto simp: tc_ok_def tc_image_def octets_def)
qed

lemma tc_verdict_OK_length: "tc_verdict bs = PUS_OK \<Longrightarrow> 13 \<le> length bs"
  by (auto simp: tc_verdict_def Let_def split: if_splits)

text \<open>What a handler may use of a decoded telecommand.\<close>

lemma tc_ok_app:
  assumes "tc_ok tc"
  shows "app_data_len tc = length (tc_app (tc_abs tc))"
    and "0 < app_data_len tc \<Longrightarrow> \<exists>rest. app_data tc = Some (octets (tc_app (tc_abs tc)) @ rest)"
proof -
  show "app_data_len tc = length (tc_app (tc_abs tc))"
    using assms by (auto simp: tc_ok_def tc_abs_def split: option.splits)
  assume pos: "0 < app_data_len tc"
  with assms obtain p where p: "app_data tc = Some p" and "None \<notin> set (take (app_data_len tc) p)"
    by (auto simp: tc_ok_def split: option.splits)
  then have "octets (map the (take (app_data_len tc) p)) = take (app_data_len tc) p"
    by (intro octets_map_the)
  then have "p = octets (tc_app (tc_abs tc)) @ drop (app_data_len tc) p"
    by (simp add: tc_abs_def p)
  then show "\<exists>rest. app_data tc = Some (octets (tc_app (tc_abs tc)) @ rest)"
    unfolding p by blast
qed

section \<open>Acceptance as a predicate\<close>

definition tc_wellformed :: "u8 list \<Rightarrow> bool" where
  "tc_wellformed bs \<longleftrightarrow>
     13 \<le> length bs \<and> length bs = 7 + unat (data_length (header_of bs)) \<and> crc16 bs = 0 \<and>
     version (header_of bs) = 0 \<and> packet_type (header_of bs) = 1 \<and>
     sec_hdr_flag (header_of bs) = 1 \<and> apid (header_of bs) = 12 \<and>
     drop_bit 4 (bs ! 6) = 2"

lemma last_two:
  assumes "2 \<le> length bs"
  shows "drop (length bs - 2) bs = [bs ! (length bs - 2), bs ! (length bs - 1)]"
  using assms by (intro nth_equalityI) (auto simp: less_2_cases_iff)

lemma crc_ok_residue:
  assumes "2 \<le> length bs"
  shows "crc_ok bs \<longleftrightarrow> crc16 bs = 0"
proof -
  let ?n = "length bs - 2"
  have "bs = take ?n bs @ [bs ! ?n, bs ! (length bs - 1)]"
    using last_two [OF assms] by (metis append_take_drop_id)
  then have "crc16 bs = crc16 (take ?n bs @ [bs ! ?n, bs ! (length bs - 1)])"
    by (rule arg_cong)
  then show ?thesis
    by (simp add: crc_trailer_iff crc_ok_def)
qed

lemma drop_bit_4_u8: "drop_bit 4 b AND 0x0F = drop_bit 4 b" for b :: u8
proof -
  have mask: "(0x0F :: u8) = mask 4"
    by (simp add: mask_numeral)
  have "n < 4" if "bit b (4 + n)" for n
    using bit_imp_le_length [OF that] by simp
  then show ?thesis
    unfolding mask by (intro bit_word_eqI) (auto simp: bit_simps)
qed

lemma tc_verdict_OK_iff: "tc_verdict bs = PUS_OK \<longleftrightarrow> tc_wellformed bs"
  using crc_ok_residue [of bs]
  by (auto simp: tc_verdict_def tc_wellformed_def declared_length_def drop_bit_4_u8 Let_def)

lemma version_ack_bits:
  "drop_bit 4 (0x20 OR (ack AND 0x0F)) = 2" "(0x20 OR (ack AND 0x0F)) AND 0x0F = ack AND 0x0F" for ack :: u8
proof -
  have m: "(0x0F :: u8) = mask 4" and v: "(0x20 :: u8) = push_bit 5 1" "(2 :: u8) = push_bit 1 1"
    by (simp_all add: mask_numeral)
  show "drop_bit 4 (0x20 OR (ack AND 0x0F)) = 2"
    unfolding m v by (rule bit_word_eqI) (auto simp: bit_simps)
  show "(0x20 OR (ack AND 0x0F)) AND 0x0F = ack AND 0x0F"
    by (simp add: bit.conj_disj_distrib2 and.assoc)
qed

text \<open>
  The packet of the standard that carries a telecommand: an unsegmented telecommand packet with
  secondary header for the application's APID, numbered \<open>n\<close>, with PUS version 2 and the checksum.
\<close>

definition tc_packet :: "u16 \<Rightarrow> u8 \<Rightarrow> u8 \<Rightarrow> u8 \<Rightarrow> u16 \<Rightarrow> u8 list \<Rightarrow> u8 list" where
  "tc_packet n ack svc sub src app =
     (let body = [0x18, 0x0C] @ be16 (0xC000 OR n) @ be16 (of_nat (length app + 6)) @
        [0x20 OR ack, svc, sub] @ be16 src @ app
      in body @ be16 (crc16 body))"

definition tc_unsegmented :: "u16 \<Rightarrow> nat \<Rightarrow> ccsds_primary_header_t" where
  "tc_unsegmented n k = \<lparr> version = 0, packet_type = 1, sec_hdr_flag = 1, apid = 12, seq_flags = 3,
     seq_count = n, data_length = of_nat (k + 6) \<rparr>"

lemma tc_unsegmented_octets:
  assumes "n < 16384"
  shows "[0x18, 0x0C] @ be16 (0xC000 OR n) @ be16 (of_nat (k + 6)) = header_octets (tc_unsegmented n k)"
proof -
  have "be16 (header_word0 (tc_unsegmented n k)) = [0x18, 0x0C]"
    by (simp add: header_word0_def tc_unsegmented_def be16_def)
  moreover have "n AND 0x3FFF = n"
    unfolding mask_consts(5) using assms by (simp add: less_mask_eq)
  then have "header_word1 (tc_unsegmented n k) = 0xC000 OR n"
    by (simp add: header_word1_def tc_unsegmented_def)
  ultimately show ?thesis
    by (simp add: header_octets_def) (simp add: tc_unsegmented_def)
qed

lemma tc_packet_eq:
  assumes "n < 16384"
  shows "tc_packet n ack svc sub src app =
    (let body = header_octets (tc_unsegmented n (length app)) @ [0x20 OR ack, svc, sub] @ be16 src @ app
     in body @ be16 (crc16 body))"
  by (simp only: tc_packet_def tc_unsegmented_octets [OF assms, symmetric] append_assoc)

lemma tc_packet_parts:
  assumes "n < 16384"
  shows "header_of (tc_packet n ack svc sub src app) = tc_unsegmented n (length app)"
    "length (tc_packet n ack svc sub src app) = 13 + length app" "crc16 (tc_packet n ack svc sub src app) = 0"
    "tc_packet n ack svc sub src app ! 6 = 0x20 OR ack" "tc_packet n ack svc sub src app ! 7 = svc"
    "tc_packet n ack svc sub src app ! 8 = sub"
    "of_be16 (tc_packet n ack svc sub src app ! 9) (tc_packet n ack svc sub src app ! 10) = src"
    "take (length app) (drop 11 (tc_packet n ack svc sub src app)) = app"
proof -
  define hd where "hd = header_octets (tc_unsegmented n (length app))"
  have hd: "length hd = 6"
    by (simp add: hd_def)
  note eq = tc_packet_eq [OF assms, of ack svc sub src app, folded hd_def]
  have "header_fits (tc_unsegmented n (length app))"
    using assms by (simp add: header_fits_def tc_unsegmented_def)
  then show "header_of (tc_packet n ack svc sub src app) = tc_unsegmented n (length app)"
    unfolding tc_packet_eq [OF assms] Let_def by (simp add: header_of_octets)
  show "crc16 (tc_packet n ack svc sub src app) = 0"
    unfolding eq Let_def by (rule crc_residue)
  show "length (tc_packet n ack svc sub src app) = 13 + length app" "tc_packet n ack svc sub src app ! 6 = 0x20 OR ack"
    "tc_packet n ack svc sub src app ! 7 = svc" "tc_packet n ack svc sub src app ! 8 = sub"
    "of_be16 (tc_packet n ack svc sub src app ! 9) (tc_packet n ack svc sub src app ! 10) = src"
    "take (length app) (drop 11 (tc_packet n ack svc sub src app)) = app"
    unfolding eq Let_def using hd by (simp_all add: be16_def nth_append)
qed

text \<open>The other direction: a well-formed unsegmented packet is the packet of what it carries.\<close>

lemma tc_wellformed_packet:
  assumes wf: "tc_wellformed bs" and seg: "seq_flags (header_of bs) = 3"
  shows "bs = tc_packet (seq_count (header_of bs)) (bs ! 6 AND 0x0F) (bs ! 7) (bs ! 8) (of_be16 (bs ! 9) (bs ! 10))
    (take (length bs - 13) (drop 11 bs))"
proof -
  let ?n = "seq_count (header_of bs)" and ?app = "take (length bs - 13) (drop 11 bs)"
  have len: "13 \<le> length bs" "length bs = 7 + unat (data_length (header_of bs))"
    using wf by (simp_all add: tc_wellformed_def)
  have n: "?n < 16384"
    using header_of_fits [of bs] by (simp add: header_fits_def)
  have app: "length ?app = length bs - 13"
    using len(1) by simp
  have "length ?app + 6 = unat (data_length (header_of bs))"
    using len by simp
  then have "of_nat (length ?app + 6) = data_length (header_of bs)"
    by (simp only: of_nat_unat ucast_id)
  then have "header_of bs = tc_unsegmented ?n (length ?app)"
    using wf seg by (simp add: tc_wellformed_def tc_unsegmented_def)
  then have h: "take 6 bs = header_octets (tc_unsegmented ?n (length ?app))"
    using header_octets_of [of "take 6 bs"] len(1) by (simp add: header_of_take)
  have "bs ! 6 = 0x20 OR (bs ! 6 AND 0x0F)"
  proof -
    have v: "drop_bit 4 (bs ! 6) = 2"
      using wf by (simp add: tc_wellformed_def)
    have "bs ! 6 = push_bit 4 (drop_bit 4 (bs ! 6)) OR (bs ! 6 AND mask 4)"
      by (rule bit_word_eqI) (auto simp: bit_simps)
    then show ?thesis
      unfolding v by (simp add: mask_numeral)
  qed
  then have five: "take 5 (drop 6 bs) = [0x20 OR (bs ! 6 AND 0x0F), bs ! 7, bs ! 8] @ be16 (of_be16 (bs ! 9) (bs ! 10))"
    using len(1) by (intro nth_equalityI) (auto simp: nth_Cons' numeral_eq_Suc less_Suc_eq)
  let ?body = "take (length bs - 2) bs"
  have body: "?body = take 6 bs @ take 5 (drop 6 bs) @ ?app"
  proof -
    have "length bs - 2 = 6 + (5 + (length bs - 13))"
      using len(1) by linarith
    then show ?thesis
      by (simp only: take_add drop_drop) simp
  qed
  have "crc_ok bs"
    using wf crc_ok_residue [of bs] len(1) by (simp add: tc_wellformed_def)
  then have "be16 (crc16 ?body) = [bs ! (length bs - 2), bs ! (length bs - 1)]"
    by (simp add: crc_ok_def)
  also have "\<dots> = drop (length bs - 2) bs"
    using len(1) by (intro last_two [symmetric]) simp
  finally have "bs = ?body @ be16 (crc16 ?body)"
    by simp
  then show ?thesis
    unfolding tc_packet_eq [OF n] Let_def body h five by simp
qed

text \<open>The verdict is one of the acceptance codes, never a code of the execution phase.\<close>

lemma tc_verdict_codes:
  "tc_verdict bs \<in> {PUS_OK, PUS_ERR_TRUNCATED, PUS_ERR_BAD_LENGTH, PUS_ERR_BAD_CRC,
     PUS_ERR_BAD_VERSION, PUS_ERR_BAD_PACKET_TYPE, PUS_ERR_NO_SEC_HEADER, PUS_ERR_BAD_APID}"
  by (simp add: tc_verdict_def Let_def)

text \<open>
  A packet damaged in a window of at most 16 bits is rejected, and always for its length or
  its checksum: no field of it is interpreted first.
\<close>

lemma tc_verdict_burst:
  assumes ok: "tc_verdict as = PUS_OK" and len: "length bs = length as"
    and a: "message_bits as = pre @ u @ post" and b: "message_bits bs = pre @ v @ post"
    and uv: "length u = length v" "length u \<le> 16" "u \<noteq> v"
  shows "tc_verdict bs \<in> {PUS_ERR_BAD_LENGTH, PUS_ERR_BAD_CRC}"
proof -
  have "13 \<le> length as" and "crc16 as = 0"
    using ok by (simp_all add: tc_verdict_OK_iff tc_wellformed_def)
  moreover have "crc16 bs \<noteq> crc16 as"
    using crc_serial_burst [OF uv, of CRC16_SEED pre post] by (simp add: crc_from_serial a b)
  ultimately show ?thesis
    using len crc_ok_residue [of bs] by (simp add: tc_verdict_def Let_def)
qed

section \<open>Acknowledgement flags\<close>

definition ack_requested :: "telecommand \<Rightarrow> u8 \<Rightarrow> bool" where
  "ack_requested c m \<longleftrightarrow> tc_ack c AND m \<noteq> 0"

lemma pus_tc_ack_requested_abs [run_simps]:
  "pus_tc_ack_requested (Some tc) m = (if ack_requested (tc_abs tc) m then PUS_TRUE else PUS_FALSE)"
  by (simp add: pus_tc_ack_requested_def ack_requested_def tc_abs_def)

lemma pus_tc_ack_requested_NULL: "pus_tc_ack_requested None m = PUS_FALSE"
  by (simp add: pus_tc_ack_requested_def)

section \<open>Properties\<close>

text \<open>
  C11: For every octet string, and whatever follows it in memory, parsing runs in bounds and
  returns the verdict of the acceptance checks; the destination is filled in exactly when the
  packet is accepted, with the fields of the packet and a pointer to its application data.
\<close>

theorem pus_tc_parse_correct:
  "pus_tc_parse (Some (octets bs @ rest)) (length bs) (Some None) =
     Some (tc_verdict bs, Some (if tc_verdict bs = PUS_OK then Some (tc_image bs rest) else None))"
  by (simp add: pus_tc_parse_octets)

text \<open>
  C13: Among unsegmented packets, the only kind the interface has, the parser accepts exactly the
  packets of the standard and reads them correctly: it accepts an octet string as a telecommand
  with given acknowledgement flags, service, subtype, source and application data if and only if
  the string is, octet for octet, the packet that carries them, for some sequence count. Packets
  with other sequence flags are left out because the parser does not look at these flags
  (pus_tc_parse_ignores_segmentation).
\<close>

theorem pus_tc_parse_accepts_iff:
  assumes "seq_flags (header_of bs) = 3"
  shows "(\<exists>tc. pus_tc_parse (Some (octets bs @ rest)) (length bs) (Some None) = Some (PUS_OK, Some (Some tc)) \<and>
      ack_flags tc = ack \<and> service_type tc = svc \<and> service_subtype tc = sub \<and> source_id tc = src \<and>
      tc_app (tc_abs tc) = app)
    \<longleftrightarrow> (\<exists>n < 16384. ack < 16 \<and> length app \<le> 65529 \<and> bs = tc_packet n ack svc sub src app)"
    (is "?accepted \<longleftrightarrow> ?packet")
proof
  assume ?accepted
  then obtain tc where tc: "tc_verdict bs = PUS_OK" "tc = tc_image bs rest" "ack_flags tc = ack" "service_type tc = svc"
      "service_subtype tc = sub" "source_id tc = src" "tc_app (tc_abs tc) = app"
    by (auto simp: pus_tc_parse_octets split: if_splits)
  then have wf: "tc_wellformed bs" and len: "13 \<le> length bs"
    by (simp_all add: tc_verdict_OK_iff tc_wellformed_def)
  have fields: "ack = bs ! 6 AND 0x0F" "svc = bs ! 7" "sub = bs ! 8" "src = of_be16 (bs ! 9) (bs ! 10)"
      "app = take (length bs - 13) (drop 11 bs)"
    using tc(3-7) tc_abs_image [OF len, of rest] unfolding tc(2) by (simp_all add: tc_image_def tc_decode_def)
  have "ack < 16"
    unfolding fields mask_consts using and_mask_lt [of 4 "bs ! 6"] by (simp add: mask_numeral)
  moreover have "length bs \<le> 65542"
    using wf unat_u16_less [of "data_length (header_of bs)"] by (simp add: tc_wellformed_def)
  then have "length app \<le> 65529"
    unfolding fields by simp
  moreover have "seq_count (header_of bs) < 16384"
    using header_of_fits [of bs] by (simp add: header_fits_def)
  moreover have "bs = tc_packet (seq_count (header_of bs)) ack svc sub src app"
    using tc_wellformed_packet [OF wf assms] unfolding fields .
  ultimately show ?packet
    by blast
next
  assume ?packet
  then obtain n where n: "n < 16384" and ack: "ack < 16" and app: "length app \<le> 65529"
    and bs: "bs = tc_packet n ack svc sub src app"
    by blast
  note parts = tc_packet_parts [OF n, where ack = ack and svc = svc and sub = sub and src = src and app = app, folded bs]
  have a: "ack AND 0x0F = ack"
    using ack less_mask_eq [of ack 4] by (simp add: mask_numeral)
  have "unat (of_nat (length app + 6) :: u16) = length app + 6"
    unfolding unsigned_of_nat using app by (simp add: take_bit_eq_mod)
  then have "tc_wellformed bs"
    unfolding tc_wellformed_def parts using version_ack_bits(1) [of ack] by (simp add: tc_unsegmented_def a)
  then have ok: "tc_verdict bs = PUS_OK"
    by (simp add: tc_verdict_OK_iff)
  have "tc_decode bs = \<lparr> tc_ack = ack, tc_service = svc, tc_subtype = sub, tc_source = src, tc_app = app,
      tc_request = of_be32 (bs ! 0) (bs ! 1) (bs ! 2) (bs ! 3) \<rparr>"
    unfolding tc_decode_def parts using version_ack_bits(2) [of ack] by (simp add: a parts(8))
  then have "tc_abs (tc_image bs rest) = \<lparr> tc_ack = ack, tc_service = svc, tc_subtype = sub, tc_source = src,
      tc_app = app, tc_request = of_be32 (bs ! 0) (bs ! 1) (bs ! 2) (bs ! 3) \<rparr>"
    using tc_abs_image [of bs rest] parts(2) by simp
  then show ?accepted
    using ok unfolding pus_tc_parse_octets by (auto simp: tc_abs_def)
qed

text \<open>The connection test of the interface document, octet by octet.\<close>

lemma pus_tc_parse_accepts_iff_witness:
  "let bs = [0x18, 0x0C, 0xC0, 0x01, 0x00, 0x06, 0x29, 0x11, 0x01, 0x01, 0x01] @
       be16 (crc16 [0x18, 0x0C, 0xC0, 0x01, 0x00, 0x06, 0x29, 0x11, 0x01, 0x01, 0x01])
   in \<exists>tc. pus_tc_parse (Some (octets bs)) (length bs) (Some None) = Some (PUS_OK, Some (Some tc)) \<and>
     ack_flags tc = 9 \<and> service_type tc = 17 \<and> service_subtype tc = 1 \<and> source_id tc = 0x0101 \<and> tc_app (tc_abs tc) = []"
proof -
  let ?bs = "[0x18, 0x0C, 0xC0, 0x01, 0x00, 0x06, 0x29, 0x11, 0x01, 0x01, 0x01] @
       be16 (crc16 [0x18, 0x0C, 0xC0, 0x01, 0x00, 0x06, 0x29, 0x11, 0x01, 0x01, 0x01]) :: u8 list"
  have "be16 (0xC000 OR 1) = [0xC0, 0x01]" "be16 (of_nat (0 + 6)) = [0, 6]" "(0x20 OR 9 :: u8) = 0x29" "be16 0x0101 = [1, 1]"
    by code_simp+
  then have bs: "?bs = tc_packet 1 9 17 1 0x0101 []"
    by (simp only: tc_packet_def Let_def list.size append.simps append_Nil2)
  have packet: "\<exists>n < 16384. tc_packet 1 9 17 1 257 [] = tc_packet n 9 17 1 257 []"
    by (intro exI [of _ 1]) simp
  have "seq_flags (header_of ?bs) = 3"
    unfolding bs by (simp add: tc_packet_parts tc_unsegmented_def)
  from pus_tc_parse_accepts_iff [OF this, where rest = "[]" and ack = 9 and svc = 17 and sub = 1 and src = 257 and app = "[]"] show ?thesis
    unfolding Let_def bs append_Nil2 using packet by auto
qed

text \<open>
  The checksum is judged before any field but the length: a packet of the right length with
  a wrong checksum is always rejected as such, whatever its version, type, APID or secondary
  header are.
\<close>

theorem pus_tc_parse_crc_first:
  assumes "13 \<le> length bs" and "declared_length bs = length bs" and "crc16 bs \<noteq> 0"
  shows "pus_tc_parse (Some (octets bs @ rest)) (length bs) (Some t) = Some (PUS_ERR_BAD_CRC, Some None)"
  using assms crc_ok_residue [of bs] by (simp add: pus_tc_parse_octets tc_verdict_def Let_def)

lemma pus_tc_parse_crc_first_witness:
  "let bs = [0xE7, 0xFF, 0, 0, 0, 6, 0x11, 0, 0, 0, 0, 0, 0]
   in pus_tc_parse (Some (octets bs)) (length bs) (Some None) = Some (PUS_ERR_BAD_CRC, Some None)"
proof -
  let ?bs = "[0xE7, 0xFF, 0, 0, 0, 6, 0x11, 0, 0, 0, 0, 0, 0]"
  have "declared_length ?bs = length ?bs" and "crc16 ?bs \<noteq> 0"
    by code_simp+
  from pus_tc_parse_crc_first [OF _ this, of "[]" None] show ?thesis
    by (simp add: Let_def)
qed

text \<open>
  The sequence flags are not checked: a telecommand packet marked as the first segment of a
  segmented one is accepted as if it were complete.
\<close>

theorem pus_tc_parse_ignores_segmentation:
  "let bs = [0x18, 0x0C, 0x40, 0x01, 0x00, 0x06, 0x29, 0x11, 0x01, 0x01, 0x01, 0x88, 0xD2]
   in \<exists>tc. pus_tc_parse (Some (octets bs)) (length bs) (Some None) = Some (PUS_OK, Some (Some tc)) \<and>
     seq_flags (prim tc) = 1"
proof -
  let ?bs = "[0x18, 0x0C, 0x40, 0x01, 0x00, 0x06, 0x29, 0x11, 0x01, 0x01, 0x01, 0x88, 0xD2] :: u8 list"
  have "tc_verdict ?bs = PUS_OK" and "seq_flags (header_of ?bs) = 1"
    by code_simp+
  moreover have "pus_tc_parse (Some (octets ?bs)) (length ?bs) (Some None) = Some (tc_verdict ?bs,
      if tc_verdict ?bs = PUS_OK then Some (Some (tc_image ?bs [])) else if length ?bs < 13 then Some None
      else Some None)"
    using pus_tc_parse_octets [of ?bs "[]" None] unfolding append_Nil2 .
  ultimately show ?thesis
    unfolding Let_def by (simp add: tc_image_def)
qed

end
