(* ===== verification/Hal_Host.thy ===== *)
theory Hal_Host
  imports Pus_Types
begin

text \<open>
  The host implementation of the hardware abstraction layer, \<open>include/pus/hal.h\<close> and
  \<open>src/hal_host.c\<close>: the time base, the thermistor and the heater line. The static
  variables of the file are the fields of \<open>hal_state\<close>. The lemmas give the time reported
  on every tick, the time reported after it was set, and where that time is not the
  commanded one.
\<close>

section \<open>The code\<close>

record hal_state =
  s_ticks :: u32
  s_epoch_coarse :: u32
  s_epoch_fine :: u16
  s_temperature_dc :: i16
  s_heater_on :: pus_bool_t

definition hal_time_init :: "hal_state \<Rightarrow> hal_state" where
  "hal_time_init h = h\<lparr> s_ticks := 0, s_epoch_coarse := 0, s_epoch_fine := 0,
     s_temperature_dc := 200, s_heater_on := PUS_FALSE \<rparr>"

definition hal_time_advance :: "hal_state \<Rightarrow> hal_state" where
  "hal_time_advance h = h\<lparr> s_ticks := s_ticks h + 1 \<rparr>"

definition elapsed_ms :: "hal_state \<Rightarrow> u32" where
  "elapsed_ms h = s_ticks h * OBC_TICK_PERIOD_MS"

text \<open>The two output parameters after the call.\<close>

definition hal_get_cuc_time :: "u32 outp \<Rightarrow> u16 outp \<Rightarrow> hal_state \<Rightarrow> u32 outp \<times> u16 outp" where
  "hal_get_cuc_time coarse fine h =
     (case (coarse, fine) of
        (Some _, Some _) \<Rightarrow>
          (let total_fine = ucast (s_epoch_fine h) + ((elapsed_ms h mod 1000) * 65536) div 1000
           in (Some (Some (s_epoch_coarse h + elapsed_ms h div 1000 + total_fine div 65536)),
               Some (Some (ucast (total_fine mod 65536)))))
      | _ \<Rightarrow> (coarse, fine))"

definition hal_set_cuc_time :: "u32 \<Rightarrow> u16 \<Rightarrow> hal_state \<Rightarrow> hal_state" where
  "hal_set_cuc_time coarse fine h = h\<lparr>
     s_epoch_coarse := coarse - elapsed_ms h div 1000,
     s_epoch_fine := fine - ucast (((elapsed_ms h mod 1000) * 65536) div 1000) \<rparr>"

definition hal_read_temperature :: "hal_state \<Rightarrow> i16" where
  "hal_read_temperature h = s_temperature_dc h"

definition hal_inject_temperature :: "i16 \<Rightarrow> hal_state \<Rightarrow> hal_state" where
  "hal_inject_temperature v h = h\<lparr> s_temperature_dc := v \<rparr>"

definition hal_set_heater :: "pus_bool_t \<Rightarrow> hal_state \<Rightarrow> hal_state" where
  "hal_set_heater on h = h\<lparr> s_heater_on := (if on \<noteq> PUS_FALSE then PUS_TRUE else PUS_FALSE) \<rparr>"

definition hal_get_heater :: "hal_state \<Rightarrow> pus_bool_t" where
  "hal_get_heater h = s_heater_on h"

lemmas hal_defs = hal_time_init_def hal_time_advance_def hal_set_cuc_time_def
  hal_inject_temperature_def hal_set_heater_def

section \<open>The reported time, exactly\<close>

text \<open>
  The reference: with \<open>e\<close> milliseconds elapsed the time is the epoch plus
  \<open>e * 65536 / 1000\<close> units of 1/65536 s, rounded down once, in the 48 bits of the time
  code. The code splits this sum into whole seconds and a fraction so that every
  intermediate value fits in 32 bits.
\<close>

definition cuc_value :: "u32 \<times> u16 \<Rightarrow> nat" where
  "cuc_value t = unat (fst t) * 65536 + unat (snd t)"

definition time48 :: "hal_state \<Rightarrow> nat" where
  "time48 h = (unat (s_epoch_coarse h) * 65536 + unat (s_epoch_fine h)
               + unat (elapsed_ms h) * 65536 div 1000) mod 2 ^ 48"

text \<open>The time the code reports, as a pair of words.\<close>

definition cuc_time :: "hal_state \<Rightarrow> u32 \<times> u16" where
  "cuc_time h =
     (let total_fine = ucast (s_epoch_fine h) + ((elapsed_ms h mod 1000) * 65536) div 1000 :: u32
      in (s_epoch_coarse h + elapsed_ms h div 1000 + total_fine div 65536,
          ucast (total_fine mod 65536)))"

lemma hal_get_cuc_time_in [run_simps]:
  "hal_get_cuc_time (Some c) (Some f) h
     = (Some (Some (fst (cuc_time h))), Some (Some (snd (cuc_time h))))"
  by (simp add: hal_get_cuc_time_def cuc_time_def Let_def)

lemma hal_get_cuc_time_NULL:
  "hal_get_cuc_time None f h = (None, f)" "hal_get_cuc_time c None h = (c, None)"
  by (simp_all add: hal_get_cuc_time_def split: option.splits)

text \<open>The fraction of the running second, in units of 1/65536 s.\<close>

definition frac :: "hal_state \<Rightarrow> nat" where
  "frac h = (unat (elapsed_ms h) mod 1000 * 65536) div 1000"

lemma frac_less: "frac h < 65536"
proof -
  have "unat (elapsed_ms h) mod 1000 < 1000"
    by simp
  then show ?thesis
    unfolding frac_def by simp
qed

lemma unat_times_65536: "unat x < 1000 \<Longrightarrow> unat (x * 65536) = unat x * 65536" for x :: u32
  by (subst unat_mult_small) simp_all

lemma unat_numeral_1000: "unat (1000 :: u32) = 1000"
  by simp

lemma unat_fraction: "unat ((elapsed_ms h mod 1000) * 65536 div 1000) = frac h"
proof -
  let ?m = "elapsed_ms h mod 1000"
  have m: "unat ?m = unat (elapsed_ms h) mod 1000"
    by (simp add: unat_mod_distrib)
  have "unat ?m < 1000"
    unfolding m by simp
  then have "unat (?m * 65536) = unat ?m * 65536"
    by (rule unat_times_65536)
  then show ?thesis
    by (simp only: frac_def unat_div_distrib m unat_numeral_1000)
qed

lemma milliseconds_split:
  "e * 65536 div 1000 = e div 1000 * 65536 + e mod 1000 * 65536 div 1000" for e :: nat
proof -
  have "e * 65536 = (1000 * (e div 1000) + e mod 1000) * 65536"
    by (simp only: mult_div_mod_eq)
  also have "\<dots> = e mod 1000 * 65536 + 1000 * (e div 1000 * 65536)"
    by (simp only: add_mult_distrib mult.assoc add.commute)
  finally have "e * 65536 div 1000 = (e mod 1000 * 65536 + 1000 * (e div 1000 * 65536)) div 1000"
    by (rule arg_cong)
  also have "\<dots> = e div 1000 * 65536 + e mod 1000 * 65536 div 1000"
    by (rule div_mult_self2) simp
  finally show ?thesis .
qed

lemma elapsed_split:
  "unat (elapsed_ms h) * 65536 div 1000 = unat (elapsed_ms h) div 1000 * 65536 + frac h"
  unfolding frac_def by (rule milliseconds_split)

lemma cuc_value_split:
  "(a + x div 65536) mod 2 ^ 32 * 65536 + x mod 65536 = (a * 65536 + x) mod 2 ^ 48" for a x :: nat
proof -
  have "(a * 65536 + x) mod (65536 * 2 ^ 32)
      = 65536 * ((a * 65536 + x) div 65536 mod 2 ^ 32) + (a * 65536 + x) mod 65536"
    by (rule mod_mult2_eq)
  then show ?thesis
    by simp
qed

lemma cuc_value_cuc_time: "cuc_value (cuc_time h) = time48 h"
proof -
  let ?f = "ucast (s_epoch_fine h) + ((elapsed_ms h mod 1000) * 65536) div 1000 :: u32"
  let ?x = "unat (s_epoch_fine h) + frac h"
  have "unat (s_epoch_fine h) < 65536"
    by (rule unat_u16_less)
  then have f: "unat ?f = ?x"
    using frac_less [of h] by (subst unat_plus_small) (simp_all add: unat_fraction unat_ucast_mod)
  have snd: "unat (snd (cuc_time h)) = ?x mod 65536"
  proof -
    have "unat (snd (cuc_time h)) = unat (?f mod 65536) mod 65536"
      by (simp add: cuc_time_def Let_def unat_ucast_mod)
    then show ?thesis
      by (simp add: unat_mod_distrib f)
  qed
  have "unat (fst (cuc_time h))
      = unat (s_epoch_coarse h + elapsed_ms h div 1000 + ?f div 65536)"
    by (simp only: cuc_time_def Let_def fst_conv)
  also have "\<dots> = (unat (s_epoch_coarse h) + unat (elapsed_ms h) div 1000 + unat ?f div 65536) mod 2 ^ 32"
    by (simp add: unat_word_ariths(1) unat_div_distrib mod_simps del: unat_plus_simple)
  also have "\<dots> = (unat (s_epoch_coarse h) + unat (elapsed_ms h) div 1000 + ?x div 65536) mod 2 ^ 32"
    by (simp only: f)
  finally have fst: "unat (fst (cuc_time h))
      = (unat (s_epoch_coarse h) + unat (elapsed_ms h) div 1000 + ?x div 65536) mod 2 ^ 32" .
  show ?thesis
    unfolding cuc_value_def time48_def elapsed_split snd fst cuc_value_split
    by (simp add: algebra_simps)
qed

lemma cuc_value_inject: "cuc_value s = cuc_value t \<longleftrightarrow> s = t"
proof
  assume eq: "cuc_value s = cuc_value t"
  have "unat (snd s) < 65536" and "unat (snd t) < 65536"
    by (rule unat_u16_less)+
  then have "cuc_value s div 65536 = unat (fst s)" "cuc_value s mod 65536 = unat (snd s)"
    "cuc_value t div 65536 = unat (fst t)" "cuc_value t mod 65536 = unat (snd t)"
    by (simp_all add: cuc_value_def)
  with eq have "unat (fst s) = unat (fst t)" and "unat (snd s) = unat (snd t)"
    by simp_all
  then show "s = t"
    by (simp add: prod_eq_iff word_unat_eq_iff)
qed simp

text \<open>The state after \<open>hal_time_init\<close> reports the time 0.\<close>

lemma time48_init: "time48 (hal_time_init h) = 0"
  by (simp add: time48_def hal_time_init_def elapsed_ms_def)

text \<open>
  Setting the time: the next reading is the commanded value when the commanded fraction is
  not below the fraction of the running second, and one second later than commanded
  otherwise, because the borrow of the 16-bit subtraction is not taken from the seconds.
\<close>

lemma elapsed_ms_set [simp]: "elapsed_ms (hal_set_cuc_time c f h) = elapsed_ms h"
  by (simp add: elapsed_ms_def hal_set_cuc_time_def)

lemma frac_set [simp]: "frac (hal_set_cuc_time c f h) = frac h"
  by (simp add: frac_def)

lemma epoch_fine_set:
  "unat (s_epoch_fine (hal_set_cuc_time c f h)) =
     (if frac h \<le> unat f then unat f - frac h else unat f + 65536 - frac h)"
proof -
  let ?d = "ucast ((elapsed_ms h mod 1000) * 65536 div 1000) :: u16"
  have d: "unat ?d = frac h"
    using frac_less [of h] by (simp add: unat_ucast_mod unat_fraction)
  have "unat (f - ?d) = (if unat ?d \<le> unat f then unat f - unat ?d else unat f + 2 ^ 16 - unat ?d)"
    by (simp add: unat_sub_if_size word_size)
  then show ?thesis
    by (simp add: hal_set_cuc_time_def d)
qed

lemma epoch_coarse_set:
  "s_epoch_coarse (hal_set_cuc_time c f h) + elapsed_ms h div 1000 = c"
  by (simp add: hal_set_cuc_time_def)

lemma cuc_value_less: "cuc_value t < 2 ^ 48"
  using unat_u32_less [of "fst t"] unat_u16_less [of "snd t"] by (simp add: cuc_value_def)

text \<open>The sum of the stored epoch and the elapsed time, against the commanded value.\<close>

lemma time48_set:
  "time48 (hal_set_cuc_time c f h) =
     (cuc_value (c, f) + (if frac h \<le> unat f then 0 else 65536)) mod 2 ^ 48"
proof -
  let ?h = "hal_set_cuc_time c f h"
  let ?ec = "unat (s_epoch_coarse ?h)" and ?e = "unat (elapsed_ms h) div 1000"
  let ?x = "unat f + (if frac h \<le> unat f then 0 else 65536)"
  have x: "unat (s_epoch_fine ?h) + frac h = ?x"
    using frac_less [of h] by (simp add: epoch_fine_set)
  have "(?ec + ?e) mod 2 ^ 32 = unat (s_epoch_coarse ?h + elapsed_ms h div 1000)"
    by (simp add: unat_word_ariths(1) unat_div_distrib)
  then have c: "(?ec + ?e) mod 2 ^ 32 = unat c"
    by (simp only: epoch_coarse_set)
  have "time48 ?h = ((?ec + ?e) * 65536 + ?x) mod (2 ^ 32 * 65536)"
    unfolding time48_def elapsed_ms_set elapsed_split x [symmetric] by (simp add: algebra_simps)
  also have "\<dots> = (((?ec + ?e) * 65536) mod (2 ^ 32 * 65536) + ?x) mod (2 ^ 32 * 65536)"
    by (rule mod_add_left_eq [symmetric])
  also have "((?ec + ?e) * 65536) mod (2 ^ 32 * 65536) = ((?ec + ?e) mod 2 ^ 32) * 65536"
    by (rule mod_mult_mult2)
  finally show ?thesis
    unfolding c by (simp add: cuc_value_def algebra_simps)
qed

lemma cuc_time_set_exact:
  assumes "frac h \<le> unat f"
  shows "cuc_time (hal_set_cuc_time c f h) = (c, f)"
proof -
  have "cuc_value (cuc_time (hal_set_cuc_time c f h)) = cuc_value (c, f)"
    using assms cuc_value_less [of "(c, f)"] by (simp add: cuc_value_cuc_time time48_set)
  then show ?thesis
    by (simp only: cuc_value_inject)
qed

lemma cuc_time_set_late:
  assumes "unat f < frac h"
  shows "cuc_time (hal_set_cuc_time c f h) = (c + 1, f)"
proof -
  have f: "unat f div 65536 = 0" "unat f mod 65536 = unat f"
    using unat_u16_less [of f] by simp_all
  have c: "(unat c + 1) mod 2 ^ 32 = unat (c + 1)"
    by (simp add: unat_word_ariths(1))
  have "cuc_value (c + 1, f) = ((unat c + 1) * 65536 + unat f) mod 2 ^ 48"
    using cuc_value_split [of "unat c + 1" "unat f"] unfolding f add_0_right c cuc_value_def
    by (simp only: fst_conv snd_conv)
  then have "cuc_value (c + 1, f) = (cuc_value (c, f) + 65536) mod 2 ^ 48"
    by (simp only: cuc_value_def fst_conv snd_conv add_mult_distrib mult_1 ac_simps)
  then have "cuc_value (cuc_time (hal_set_cuc_time c f h)) = cuc_value (c + 1, f)"
    using assms by (simp add: cuc_value_cuc_time time48_set)
  then show ?thesis
    by (simp only: cuc_value_inject)
qed

section \<open>Time advances\<close>

text \<open>
  One minor cycle adds 100 ms, that is 6553 or 6554 units, as long as the 32-bit
  millisecond count does not wrap (42,949,672 minor cycles, about 49.7 days).
\<close>

lemma elapsed_advance:
  assumes "unat (s_ticks h) < 42949672"
  shows "unat (elapsed_ms (hal_time_advance h)) = unat (elapsed_ms h) + 100"
proof -
  have "unat (s_ticks h + 1) = unat (s_ticks h) + 1"
    using assms by (subst unat_plus_small) simp_all
  moreover have "unat (s_ticks h * 100) = unat (s_ticks h) * 100"
    using assms by (subst unat_mult_small) simp_all
  moreover have "unat ((s_ticks h + 1) * 100) = unat (s_ticks h + 1) * 100"
    using assms calculation(1) by (subst unat_mult_small) simp_all
  ultimately show ?thesis
    by (simp add: elapsed_ms_def hal_time_advance_def)
qed

lemma time48_advance:
  assumes "unat (s_ticks h) < 42949672"
  shows "\<exists>d \<in> {6553, 6554}. time48 (hal_time_advance h) = (time48 h + d) mod 2 ^ 48"
proof -
  let ?e = "unat (elapsed_ms h)"
  have step: "n div 1000 + 6553 \<le> (n + 6553600) div 1000 \<and>
      (n + 6553600) div 1000 \<le> n div 1000 + 6554" for n :: nat
  proof -
    have "(n + 6553600) div 1000 = 6553 + (n + 600) div 1000"
      using div_mult_self2 [of 1000 "n + 600" 6553] by simp
    moreover have "n div 1000 \<le> (n + 600) div 1000"
      by (rule div_le_mono) simp
    moreover have "(n + 600) div 1000 \<le> (n + 1000) div 1000"
      by (rule div_le_mono) simp
    moreover have "(n + 1000) div 1000 = n div 1000 + 1"
      by simp
    ultimately show ?thesis
      by simp
  qed
  have "?e * 65536 div 1000 + 6553 \<le> (?e + 100) * 65536 div 1000 \<and>
      (?e + 100) * 65536 div 1000 \<le> ?e * 65536 div 1000 + 6554"
    using step [of "?e * 65536"] by (simp only: add_mult_distrib) simp
  moreover have "\<exists>d \<in> {6553, 6554}. b = a + d" if "a + 6553 \<le> b \<and> b \<le> a + 6554" for a b :: nat
    using that by auto
  ultimately obtain d where "d \<in> {6553, 6554}"
    and d: "(?e + 100) * 65536 div 1000 = ?e * 65536 div 1000 + d"
    by blast
  have "s_epoch_coarse (hal_time_advance h) = s_epoch_coarse h"
    and "s_epoch_fine (hal_time_advance h) = s_epoch_fine h"
    by (simp_all add: hal_time_advance_def)
  then have "time48 (hal_time_advance h) = (time48 h + d) mod 2 ^ 48"
    unfolding time48_def elapsed_advance [OF assms] d
    by (simp only: mod_add_left_eq add.assoc)
  with \<open>d \<in> {6553, 6554}\<close> show ?thesis
    by blast
qed

text \<open>At that cycle the millisecond count wraps and the reported time jumps back.\<close>

lemma elapsed_wraps:
  "s_ticks h = 42949672 \<Longrightarrow> elapsed_ms h = 4294967200 \<and> elapsed_ms (hal_time_advance h) = 4"
  by (simp add: elapsed_ms_def hal_time_advance_def)

section \<open>Properties\<close>

text \<open>Before that cycle the product is the number of milliseconds.\<close>

lemma elapsed_exact:
  assumes "unat (s_ticks h) \<le> 42949672"
  shows "unat (elapsed_ms h) = unat (s_ticks h) * 100"
  using assms unfolding elapsed_ms_def by (subst unat_mult_small) simp_all

text \<open>
  C39: For the first 42949672 minor cycles (49.7 days) the reported time code is exact: read as a
  48-bit count of 1/65536 s it is the epoch plus one tenth of a second for every minor cycle since
  the initialisation, rounded down once, although every intermediate value of the code is 32
  bits wide. From the next cycle on it is wrong, see hal_cuc_time_wraps.
\<close>

theorem hal_cuc_time_exact:
  assumes "unat (s_ticks h) \<le> 42949672"
  shows "\<exists>c f. hal_get_cuc_time (Some x) (Some y) h = (Some (Some c), Some (Some f)) \<and>
     unat c * 65536 + unat f =
       (unat (s_epoch_coarse h) * 65536 + unat (s_epoch_fine h) + unat (s_ticks h) * 65536 div 10) mod 2 ^ 48"
proof -
  have "unat (elapsed_ms h) * 65536 div 1000 = (unat (s_ticks h) * 65536) * 100 div (10 * 100)"
    unfolding elapsed_exact [OF assms] by (simp add: ac_simps)
  also have "\<dots> = unat (s_ticks h) * 65536 div 10"
    by (rule div_mult_mult2) simp
  finally show ?thesis
    using cuc_value_cuc_time [of h] by (simp add: hal_get_cuc_time_in cuc_value_def time48_def)
qed

text \<open>The last cycle for which it holds: 4294967.2 s after the start.\<close>

lemma hal_cuc_time_exact_witness:
  "let h = \<lparr> s_ticks = 42949672, s_epoch_coarse = 0, s_epoch_fine = 0, s_temperature_dc = 200, s_heater_on = 0 \<rparr>
   in \<exists>c f. hal_get_cuc_time (Some None) (Some None) h = (Some (Some c), Some (Some f)) \<and>
     unat c * 65536 + unat f = 4294967 * 65536 + 13107"
proof -
  let ?h = "\<lparr> s_ticks = 42949672, s_epoch_coarse = 0, s_epoch_fine = 0, s_temperature_dc = 200, s_heater_on = 0 \<rparr>"
  have "unat (s_ticks ?h) \<le> 42949672"
    by simp
  from hal_cuc_time_exact [OF this, of None None] show ?thesis
    by (simp add: Let_def)
qed

text \<open>
  One minor cycle moves the reported time on by 6553 or 6554 units of 1/65536 s (100 ms),
  whatever time was set, until the millisecond count wraps at cycle 42949672.
\<close>

theorem hal_cuc_time_advances:
  assumes "unat (s_ticks h) < 42949672"
  shows "cuc_value (cuc_time (hal_time_advance h)) \<in>
    {(cuc_value (cuc_time h) + 6553) mod 2 ^ 48, (cuc_value (cuc_time h) + 6554) mod 2 ^ 48}"
  using time48_advance [OF assms] by (auto simp: cuc_value_cuc_time)

lemma hal_cuc_time_advances_witness:
  "let h = \<lparr> s_ticks = 9, s_epoch_coarse = 1000, s_epoch_fine = 7, s_temperature_dc = 200,
       s_heater_on = 0 \<rparr>
   in cuc_value (cuc_time (hal_time_advance h)) \<in>
     {(cuc_value (cuc_time h) + 6553) mod 2 ^ 48, (cuc_value (cuc_time h) + 6554) mod 2 ^ 48}"
  unfolding Let_def by (rule hal_cuc_time_advances) simp

text \<open>
  C40: After the time was set, the time read back in the same cycle is the commanded one exactly
  when the commanded fraction is not below the fraction of the running second; otherwise it is
  one second late, because the borrow of the 16-bit subtraction is lost.
\<close>

theorem hal_set_cuc_time_readback:
  "hal_get_cuc_time (Some x) (Some y) (hal_set_cuc_time c f h) =
     (Some (Some (if frac h \<le> unat f then c else c + 1)), Some (Some f))"
  using cuc_time_set_exact [of h f c] cuc_time_set_late [of f h c]
  by (simp add: hal_get_cuc_time_in not_le)

text \<open>
  When the 32-bit millisecond count wraps, after 42949672 minor cycles, the reported time
  runs backwards by 4294967 s in one cycle.
\<close>

theorem hal_cuc_time_wraps:
  assumes "s_ticks h = 42949672" and "s_epoch_coarse h = 0" and "s_epoch_fine h = 0"
  shows "fst (cuc_time h) = 4294967 \<and> fst (cuc_time (hal_time_advance h)) = 0"
proof -
  have e: "elapsed_ms h = 4294967200" "elapsed_ms (hal_time_advance h) = 4"
    using elapsed_wraps [OF assms(1)] by simp_all
  moreover have "s_epoch_coarse (hal_time_advance h) = 0" "s_epoch_fine (hal_time_advance h) = 0"
    using assms(2,3) by (simp_all add: hal_time_advance_def)
  ultimately show ?thesis
    using assms(2,3) by (simp add: cuc_time_def Let_def)
qed

lemma hal_cuc_time_wraps_witness:
  "let h = \<lparr> s_ticks = 42949672, s_epoch_coarse = 0, s_epoch_fine = 0, s_temperature_dc = 200,
       s_heater_on = 0 \<rparr>
   in fst (cuc_time h) = 4294967 \<and> fst (cuc_time (hal_time_advance h)) = 0"
  unfolding Let_def by (rule hal_cuc_time_wraps) simp_all

end
