(* ===== verification/Pus_Tm.thy ===== *)
theory Pus_Tm
  imports Pus_Tc Hal_Host
begin

text \<open>
  Telemetry packets, \<open>include/pus/pus_tm.h\<close> and \<open>src/pus_tm.c\<close>: the sequence count, the
  message counters and the construction of a packet. The abstract side is the message
  \<open>tm_msg\<close>, its octets \<open>tm_encode\<close> and the ground decoding \<open>tm_decode\<close>. Queueing
  (\<open>pus_tm_send\<close>) is in \<open>Obsw_State\<close>, where the state of all modules is at hand.
\<close>

section \<open>The code\<close>

abbreviation (input) PUS_TM_SEC_HEADER_LEN :: nat where "PUS_TM_SEC_HEADER_LEN \<equiv> 13"
abbreviation (input) PUS_TM_MIN_LEN :: nat where
  "PUS_TM_MIN_LEN \<equiv> CCSDS_PRIMARY_HEADER_LEN + PUS_TM_SEC_HEADER_LEN + CCSDS_CRC_LEN"
abbreviation (input) PUS_TM_TIME_REF_STATUS :: u8 where "PUS_TM_TIME_REF_STATUS \<equiv> 0"

record tm_state =
  s_seq_count :: u16
  s_msg_counter :: "u16 list"

definition pus_tm_reset :: "tm_state \<Rightarrow> tm_state option" where
  "pus_tm_reset t = do {
     counters \<leftarrow> fill_array (s_msg_counter t) 0 (length (s_msg_counter t)) 0;
     Some (t\<lparr> s_seq_count := 0, s_msg_counter := counters \<rparr>) }"

text \<open>A NULL source is read as an array of no octets: any access to it is undefined.\<close>

definition pus_tm_build ::
    "mem option \<Rightarrow> nat \<Rightarrow> u8 \<Rightarrow> u8 \<Rightarrow> mem option \<Rightarrow> nat \<Rightarrow> nat outp \<Rightarrow> hal_state \<Rightarrow> tm_state
     \<Rightarrow> (pus_status_t \<times> mem option \<times> nat outp \<times> tm_state) option" where
  "pus_tm_build buf cap service subtype src_data src_len out_len hal t =
     (case (buf, out_len) of
        (Some p, Some _) \<Rightarrow>
          if src_data = None \<and> src_len > 0 then Some (PUS_ERR_NULL, buf, out_len, t)
          else do {
            let total = PUS_TM_MIN_LEN + src_len;
            if total > cap \<or> total > PUS_MAX_PACKET_SIZE
            then Some (PUS_ERR_BUFFER_TOO_SMALL, buf, out_len, t)
            else do {
              let hdr = \<lparr> version = 0, packet_type = CCSDS_TYPE_TM, sec_hdr_flag = 1,
                apid = PUS_TM_APID, seq_flags = CCSDS_SEQ_FLAG_UNSEGMENTED,
                seq_count = s_seq_count t AND 0x3FFF,
                data_length = of_nat (total - CCSDS_PRIMARY_HEADER_LEN - 1) \<rparr>;
              (st, buf') \<leftarrow> ccsds_pack_primary (Some hdr) buf cap;
              if st \<noteq> PUS_OK then Some (st, buf', out_len, t)
              else do {
                p \<leftarrow> buf';
                let off = CCSDS_PRIMARY_HEADER_LEN;
                p \<leftarrow> wr8 p off (push_bit 4 PUS_VERSION_C OR PUS_TM_TIME_REF_STATUS);
                p \<leftarrow> wr8 p (off + 1) service;
                p \<leftarrow> wr8 p (off + 2) subtype;
                counter \<leftarrow> arr_get (s_msg_counter t) (unat service);
                p \<leftarrow> pus_put_u16 p (off + 3) counter;
                p \<leftarrow> pus_put_u16 p (off + 5) PUS_TM_DESTINATION_ID;
                let (coarse_p, fine_p) = hal_get_cuc_time (Some None) (Some None) hal;
                coarse_c \<leftarrow> coarse_p;
                coarse \<leftarrow> coarse_c;
                fine_c \<leftarrow> fine_p;
                fine \<leftarrow> fine_c;
                p \<leftarrow> pus_put_u32 p (off + 7) coarse;
                p \<leftarrow> pus_put_u16 p (off + 11) fine;
                let off = off + PUS_TM_SEC_HEADER_LEN;
                p \<leftarrow> copy_octets p off (case src_data of None \<Rightarrow> [] | Some s \<Rightarrow> s) 0 src_len;
                let off = off + src_len;
                crc \<leftarrow> crc16_ccitt (Some p) off;
                p \<leftarrow> pus_put_u16 p off crc;
                counter \<leftarrow> arr_get (s_msg_counter t) (unat service);
                counters \<leftarrow> arr_set (s_msg_counter t) (unat service) (counter + 1);
                Some (PUS_OK, Some p, Some (Some total),
                  t\<lparr> s_seq_count := (s_seq_count t + 1) AND 0x3FFF, s_msg_counter := counters \<rparr>) } } }
      | _ \<Rightarrow> Some (PUS_ERR_NULL, buf, out_len, t))"

section \<open>Messages and their octets\<close>

record tm_msg =
  m_seq :: u16
  m_service :: u8
  m_subtype :: u8
  m_counter :: u16
  m_coarse :: u32
  m_fine :: u16
  m_data :: "u8 list"

definition tm_header :: "u16 \<Rightarrow> nat \<Rightarrow> ccsds_primary_header_t" where
  "tm_header seq n = \<lparr> version = 0, packet_type = 0, sec_hdr_flag = 1, apid = 12,
     seq_flags = 3, seq_count = seq, data_length = of_nat (n + 14) \<rparr>"

definition tm_body :: "tm_msg \<Rightarrow> u8 list" where
  "tm_body m = header_octets (tm_header (m_seq m) (length (m_data m))) @
     [0x20, m_service m, m_subtype m] @ be16 (m_counter m) @ be16 1 @
     be32 (m_coarse m) @ be16 (m_fine m) @ m_data m"

definition tm_encode :: "tm_msg \<Rightarrow> u8 list" where
  "tm_encode m = tm_body m @ be16 (crc16 (tm_body m))"

definition tm_decode :: "u8 list \<Rightarrow> tm_msg" where
  "tm_decode bs = \<lparr>
     m_seq = seq_count (header_of bs), m_service = bs ! 7, m_subtype = bs ! 8,
     m_counter = of_be16 (bs ! 9) (bs ! 10),
     m_coarse = of_be32 (bs ! 13) (bs ! 14) (bs ! 15) (bs ! 16),
     m_fine = of_be16 (bs ! 17) (bs ! 18),
     m_data = take (length bs - 21) (drop 19 bs) \<rparr>"

text \<open>What a packet of the downlink must satisfy: the fields fit and the length is coded.\<close>

definition tm_fits :: "tm_msg \<Rightarrow> bool" where
  "tm_fits m \<longleftrightarrow> m_seq m < 16384 \<and> length (m_data m) \<le> 235"

lemma length_tm_body [simp]: "length (tm_body m) = 19 + length (m_data m)"
  by (simp add: tm_body_def)

lemma length_tm_encode [simp]: "length (tm_encode m) = 21 + length (m_data m)"
  by (simp add: tm_encode_def)

lemma tm_encode_crc: "crc16 (tm_encode m) = 0"
  by (simp add: tm_encode_def crc_residue)

lemma tm_header_fits: "seq < 16384 \<Longrightarrow> header_fits (tm_header seq n)"
  by (simp add: header_fits_def tm_header_def)

lemma header_of_tm_encode:
  "m_seq m < 16384 \<Longrightarrow> header_of (tm_encode m) = tm_header (m_seq m) (length (m_data m))"
  by (simp add: tm_encode_def tm_body_def header_of_octets tm_header_fits)

text \<open>The ground segment reads back every field.\<close>

lemma tm_decode_encode:
  assumes "m_seq m < 16384"
  shows "tm_decode (tm_encode m) = m"
proof -
  define hd where "hd = header_octets (tm_header (m_seq m) (length (m_data m)))"
  have "length hd = 6"
    by (simp add: hd_def)
  then have "tm_encode m ! 7 = m_service m" "tm_encode m ! 8 = m_subtype m"
    "of_be16 (tm_encode m ! 9) (tm_encode m ! 10) = m_counter m"
    "of_be32 (tm_encode m ! 13) (tm_encode m ! 14) (tm_encode m ! 15) (tm_encode m ! 16) = m_coarse m"
    "of_be16 (tm_encode m ! 17) (tm_encode m ! 18) = m_fine m"
    "drop 19 (tm_encode m) = m_data m @ be16 (crc16 (tm_body m))"
    by (simp_all add: tm_encode_def tm_body_def be16_def be32_def nth_append flip: hd_def)
  then show ?thesis
    using header_of_tm_encode [OF assms] by (simp add: tm_decode_def tm_header_def)
qed

lemma tm_encode_inject:
  "m_seq a < 16384 \<Longrightarrow> m_seq b < 16384 \<Longrightarrow> tm_encode a = tm_encode b \<longleftrightarrow> a = b"
  by (metis tm_decode_encode)

section \<open>The builder\<close>

definition tm_inv :: "tm_state \<Rightarrow> bool" where
  "tm_inv t \<longleftrightarrow> s_seq_count t < 16384 \<and> length (s_msg_counter t) = 256"

text \<open>The message the builder makes next, and the counters afterwards.\<close>

definition tm_next :: "u8 \<Rightarrow> u8 \<Rightarrow> u8 list \<Rightarrow> hal_state \<Rightarrow> tm_state \<Rightarrow> tm_msg" where
  "tm_next service subtype data hal t = \<lparr>
     m_seq = s_seq_count t, m_service = service, m_subtype = subtype,
     m_counter = s_msg_counter t ! unat service,
     m_coarse = fst (cuc_time hal), m_fine = snd (cuc_time hal), m_data = data \<rparr>"

definition tm_count :: "u8 \<Rightarrow> tm_state \<Rightarrow> tm_state" where
  "tm_count service t = t\<lparr>
     s_seq_count := (s_seq_count t + 1) AND 0x3FFF,
     s_msg_counter := (s_msg_counter t)[unat service := s_msg_counter t ! unat service + 1] \<rparr>"

text \<open>A source pointer that holds the octets \<open>data\<close>.\<close>

definition holds :: "mem option \<Rightarrow> u8 list \<Rightarrow> bool" where
  "holds src data \<longleftrightarrow> (case src of None \<Rightarrow> data = [] | Some p \<Rightarrow> \<exists>rest. p = octets data @ rest)"

lemma pus_tm_build_errors:
  "pus_tm_build None cap svc sub src n out hal t = Some (PUS_ERR_NULL, None, out, t)"
  "pus_tm_build buf cap svc sub src n None hal t = Some (PUS_ERR_NULL, buf, None, t)"
  "0 < n \<Longrightarrow> pus_tm_build (Some p) cap svc sub None n (Some o') hal t
     = Some (PUS_ERR_NULL, Some p, Some o', t)"
  "cap < 21 + n \<or> 256 < 21 + n \<Longrightarrow> src \<noteq> None \<or> n = 0 \<Longrightarrow>
     pus_tm_build (Some p) cap svc sub src n (Some o') hal t
     = Some (PUS_ERR_BUFFER_TOO_SMALL, Some p, Some o', t)"
  by (auto simp: pus_tm_build_def Let_def split: option.splits)

lemma overwrite_append:
  "off = length xs \<Longrightarrow> length xs + length ys \<le> length p \<Longrightarrow>
   overwrite (overwrite p 0 xs) off ys = overwrite p 0 (xs @ ys)"
  by (simp add: overwrite_overwrite)

lemma overwrite_octets_append:
  "off = length as \<Longrightarrow> length as + length bs \<le> length p \<Longrightarrow>
   overwrite (overwrite p 0 (octets as)) off (octets bs) = overwrite p 0 (octets (as @ bs))"
  by (simp add: overwrite_append octets_append)

lemma copy_holds:
  assumes "holds src data" and "off + length data \<le> length p"
  shows "copy_octets p off (case src of None \<Rightarrow> [] | Some s \<Rightarrow> s) 0 (length data)
       = Some (overwrite p off (octets data))"
  using assms by (cases src) (auto simp: holds_def copy_octets_prefix)

lemma wr8_octets: "i < length p \<Longrightarrow> wr8 p i v = Some (overwrite p i (octets [v]))"
  by (simp add: wr8_in octets_def)

lemma seq_mask: "x < 16384 \<Longrightarrow> x AND 0x3FFF = x" for x :: u16
  using less_mask_eq [of x 14] by (simp add: mask_numeral)

lemma pus_tm_build_octets [run_simps]:
  assumes inv: "tm_inv t" and src: "holds src data" and n: "n = length data"
    and fits: "21 + length data \<le> 256" "21 + length data \<le> cap" and cap: "cap \<le> length p"
  shows "pus_tm_build (Some p) cap svc sub src n (Some o') hal t =
     Some (PUS_OK, Some (overwrite p 0 (octets (tm_encode (tm_next svc sub data hal t)))),
       Some (Some (21 + length data)), tm_count svc t)"
proof -
  have len: "unat svc < length (s_msg_counter t)"
    using inv unat_u8_less [of svc] by (simp add: tm_inv_def)
  have null: "\<not> (src = None \<and> 0 < n)"
    using src n by (cases src) (auto simp: holds_def)
  have seq: "s_seq_count t AND 0x3FFF = s_seq_count t"
    using inv by (simp add: tm_inv_def seq_mask)
  have crc: "crc16_ccitt (Some (overwrite p 0 (octets bs))) k = Some (crc16 bs)"
    if "k = length bs" for k bs
    using that by (simp add: overwrite_0 crc16_ccitt_prefix)
  show ?thesis
    using null fits cap len src n
    by (simp add: pus_tm_build_def Let_def ccsds_pack_primary_in wr8_octets pus_put_u16_in
        pus_put_u32_in overwrite_octets_append arr_get_in arr_set_in hal_get_cuc_time_in copy_holds
        crc seq tm_encode_def tm_body_def tm_next_def tm_count_def tm_header_def add.commute [of 14])
qed

text \<open>The counters stay in range, and every packet built fits.\<close>

lemma seq_step_less: "(x + 1) AND 0x3FFF < (16384 :: u16)"
proof -
  have "(0x3FFF :: u16) = mask 14"
    by (simp add: mask_numeral)
  then show ?thesis
    using and_mask_less_size [of 14 "x + 1"] by (simp add: word_size)
qed

lemma tm_inv_count: "tm_inv t \<Longrightarrow> tm_inv (tm_count svc t)"
  by (simp add: tm_inv_def tm_count_def seq_step_less)

lemma tm_next_fits: "tm_inv t \<Longrightarrow> length data \<le> 235 \<Longrightarrow> tm_fits (tm_next svc sub data hal t)"
  by (simp add: tm_inv_def tm_fits_def tm_next_def)

lemma pus_tm_reset_eq:
  "pus_tm_reset t = Some \<lparr> s_seq_count = 0, s_msg_counter = replicate (length (s_msg_counter t)) 0 \<rparr>"
  by (simp add: pus_tm_reset_def fill_array_all)

section \<open>Properties\<close>

text \<open>
  C22: Building a packet whose source data fits runs in bounds and writes one CRC-terminated
  packet at the start of the buffer: its length field names its length, its checksum is 0 and
  the ground reads back the sequence count, the service, the message counter, the time and the
  source data; the two counters advance by one.
\<close>

theorem pus_tm_build_packet:
  assumes "tm_inv t" and "length data \<le> 235" and "21 + length data \<le> length p"
  shows "\<exists>bs. pus_tm_build (Some p) (length p) svc sub (Some (octets data)) (length data) (Some out) hal t
      = Some (PUS_OK, Some (octets bs @ drop (length bs) p), Some (Some (length bs)), tm_count svc t) \<and>
    length bs = 7 + unat (data_length (header_of bs)) \<and> crc16 bs = 0 \<and>
    tm_decode bs = tm_next svc sub data hal t"
proof -
  let ?m = "tm_next svc sub data hal t"
  have len: "length (m_data ?m) = length data"
    by (simp add: tm_next_def)
  have fits: "tm_fits ?m"
    using assms(1,2) by (rule tm_next_fits)
  then have m: "m_seq ?m < 16384"
    by (simp add: tm_fits_def)
  have "unat (of_nat (length data + 14) :: u16) = length data + 14"
    unfolding unsigned_of_nat using assms(2) by (simp add: take_bit_eq_mod)
  then have dl: "unat (data_length (header_of (tm_encode ?m))) = length data + 14"
    by (simp only: header_of_tm_encode [OF m] tm_header_def len ccsds_primary_header_t.select_convs)
  have "holds (Some (octets data)) data"
    unfolding holds_def by (auto intro: exI [of _ "[]"])
  from pus_tm_build_octets [OF assms(1) this, of "length data" "length p" p svc sub out hal]
  show ?thesis
    using assms dl tm_decode_encode [OF m] tm_encode_crc [of ?m]
    by (intro exI [of _ "tm_encode ?m"]) (simp add: overwrite_0 len)
qed

lemma pus_tm_build_packet_witness:
  "\<exists>bs. pus_tm_build (Some (replicate 256 None)) 256 17 2 (Some (octets [7, 8])) 2 (Some None)
       \<lparr> s_ticks = 0, s_epoch_coarse = 0, s_epoch_fine = 0, s_temperature_dc = 0, s_heater_on = 0 \<rparr>
       \<lparr> s_seq_count = 5, s_msg_counter = replicate 256 0 \<rparr>
     = Some (PUS_OK, Some (octets bs @ drop (length bs) (replicate 256 None)), Some (Some (length bs)),
         tm_count 17 \<lparr> s_seq_count = 5, s_msg_counter = replicate 256 0 \<rparr>) \<and> crc16 bs = 0"
  using pus_tm_build_packet [of "\<lparr> s_seq_count = 5, s_msg_counter = replicate 256 0 \<rparr>" "[7, 8]"
    "replicate 256 None" 17 2 None
    "\<lparr> s_ticks = 0, s_epoch_coarse = 0, s_epoch_fine = 0, s_temperature_dc = 0, s_heater_on = 0 \<rparr>"]
  by (auto simp: tm_inv_def simp flip: numeral_2_eq_2)

text \<open>
  A packet that does not fit the buffer or the maximum packet size is refused before
  anything is written: buffer, length and counters stay as they are.
\<close>

theorem pus_tm_build_too_big:
  assumes "cap < 21 + n \<or> 256 < 21 + n"
  shows "pus_tm_build (Some p) cap svc sub (Some src) n (Some out) hal t
       = Some (PUS_ERR_BUFFER_TOO_SMALL, Some p, Some out, t)"
  using assms by (auto simp: pus_tm_build_def Let_def)

lemma pus_tm_build_too_big_witness:
  "let hal = \<lparr> s_ticks = 0, s_epoch_coarse = 0, s_epoch_fine = 0, s_temperature_dc = 0, s_heater_on = 0 \<rparr>;
       t = \<lparr> s_seq_count = 5, s_msg_counter = replicate 256 0 \<rparr>
   in pus_tm_build (Some (replicate 256 None)) 256 3 25 (Some (replicate 236 (Some 0))) 236 (Some None) hal t
     = Some (PUS_ERR_BUFFER_TOO_SMALL, Some (replicate 256 None), Some None, t)"
  unfolding Let_def
  by (rule pus_tm_build_too_big) simp

end
