(* ===== verification/Tm_Queue.thy ===== *)
theory Tm_Queue
  imports Pus_Types
begin

text \<open>
  The downlink queue, \<open>include/pus/tm_queue.h\<close> and \<open>src/tm_queue.c\<close>: a ring of 16 slots of
  256 octets with the static variables of the file as the fields of \<open>tmq_state\<close>. The
  abstract side is a bounded list of packets with a saturating drop counter; the locale
  \<open>packet_fifo\<close> is the contract the clients of the queue rely on.
\<close>

section \<open>The code\<close>

record tmq_state =
  s_slots :: "mem list"
  s_lengths :: "nat list"
  s_head :: nat
  s_count :: nat
  s_overflows :: u16

definition tm_queue_init :: "tmq_state \<Rightarrow> tmq_state" where
  "tm_queue_init q = q\<lparr> s_head := 0, s_count := 0, s_overflows := 0 \<rparr>"

definition tm_queue_push :: "mem option \<Rightarrow> nat \<Rightarrow> tmq_state \<Rightarrow> (pus_status_t \<times> tmq_state) option" where
  "tm_queue_push packet len q =
     (case packet of
        None \<Rightarrow> Some (PUS_ERR_NULL, q)
      | Some p \<Rightarrow>
          if len = 0 \<or> len > PUS_MAX_PACKET_SIZE then Some (PUS_ERR_BAD_LENGTH, q)
          else if s_count q \<ge> PUS_TM_QUEUE_DEPTH then
            Some (PUS_ERR_QUEUE_FULL,
              if s_overflows q < 0xFFFF then q\<lparr> s_overflows := s_overflows q + 1 \<rparr> else q)
          else do {
            let tail = (s_head q + s_count q) mod PUS_TM_QUEUE_DEPTH;
            slot \<leftarrow> arr_get (s_slots q) tail;
            slot \<leftarrow> copy_octets slot 0 p 0 len;
            slots \<leftarrow> arr_set (s_slots q) tail slot;
            lengths \<leftarrow> arr_set (s_lengths q) tail len;
            Some (PUS_OK, q\<lparr> s_slots := slots, s_lengths := lengths, s_count := s_count q + 1 \<rparr>) })"

text \<open>The status, the destination buffer and \<open>*out_len\<close> afterwards, and the queue.\<close>

definition tm_queue_pop ::
    "mem option \<Rightarrow> nat \<Rightarrow> nat outp \<Rightarrow> tmq_state
     \<Rightarrow> (pus_status_t \<times> mem option \<times> nat outp \<times> tmq_state) option" where
  "tm_queue_pop buf cap out_len q =
     (case (buf, out_len) of
        (Some b, Some _) \<Rightarrow>
          if s_count q = 0 then Some (PUS_ERR_QUEUE_FULL, buf, out_len, q)
          else do {
            len \<leftarrow> arr_get (s_lengths q) (s_head q);
            if cap < len then Some (PUS_ERR_BUFFER_TOO_SMALL, buf, out_len, q)
            else do {
              slot \<leftarrow> arr_get (s_slots q) (s_head q);
              b \<leftarrow> copy_octets b 0 slot 0 len;
              Some (PUS_OK, Some b, Some (Some len),
                q\<lparr> s_head := (s_head q + 1) mod PUS_TM_QUEUE_DEPTH, s_count := s_count q - 1 \<rparr>) } }
      | _ \<Rightarrow> Some (PUS_ERR_NULL, buf, out_len, q))"

definition tm_queue_count :: "tmq_state \<Rightarrow> nat" where
  "tm_queue_count q = s_count q"

definition tm_queue_overflow_count :: "tmq_state \<Rightarrow> u16" where
  "tm_queue_overflow_count q = s_overflows q"

section \<open>Invariant and abstraction\<close>

text \<open>The static variables before the first call: zero, as C initialises them.\<close>

definition tmq_power_on :: tmq_state where
  "tmq_power_on = \<lparr> s_slots = replicate 16 (replicate 256 (Some 0)), s_lengths = replicate 16 0,
     s_head = 0, s_count = 0, s_overflows = 0 \<rparr>"

definition slot_ok :: "mem \<Rightarrow> bool" where
  "slot_ok slot \<longleftrightarrow> length slot = 256 \<and> None \<notin> set slot"

definition live :: "tmq_state \<Rightarrow> nat \<Rightarrow> nat" where
  "live q i = (s_head q + i) mod 16"

definition tmq_inv :: "tmq_state \<Rightarrow> bool" where
  "tmq_inv q \<longleftrightarrow> length (s_slots q) = 16 \<and> list_all slot_ok (s_slots q) \<and>
     length (s_lengths q) = 16 \<and> s_head q < 16 \<and> s_count q \<le> 16 \<and>
     (\<forall>i < s_count q. 0 < s_lengths q ! live q i \<and> s_lengths q ! live q i \<le> 256)"

definition packet_at :: "tmq_state \<Rightarrow> nat \<Rightarrow> u8 list" where
  "packet_at q j = map the (take (s_lengths q ! j) (s_slots q ! j))"

definition tmq_list :: "tmq_state \<Rightarrow> u8 list list" where
  "tmq_list q = map (\<lambda>i. packet_at q (live q i)) [0..<s_count q]"

section \<open>The abstract queue\<close>

text \<open>A list of packets, oldest first, and the number of packets dropped, saturating.\<close>

type_synonym fifo = "u8 list list \<times> u16"

definition sat_inc :: "u16 \<Rightarrow> u16" where
  "sat_inc n = (if n < 0xFFFF then n + 1 else n)"

lemma unat_sat_inc: "unat (sat_inc n) = min 65535 (unat n + 1)"
proof (cases "n < 0xFFFF")
  case True
  then have "unat (n + 1) = unat n + 1"
    by (subst unat_plus_small) (simp_all add: word_less_nat_alt)
  then show ?thesis
    using True by (simp add: sat_inc_def word_less_nat_alt)
next
  case False
  then show ?thesis
    using unat_u16_less [of n] by (simp add: sat_inc_def word_less_nat_alt)
qed

lemma unat_sat_inc_le: "unat n \<le> unat (sat_inc n)"
  using unat_u16_less [of n] by (simp add: unat_sat_inc)

definition fifo_push :: "u8 list \<Rightarrow> fifo \<Rightarrow> pus_status_t \<times> fifo" where
  "fifo_push p x = (case x of (ps, drops) \<Rightarrow>
     if p = [] \<or> 256 < length p then (PUS_ERR_BAD_LENGTH, (ps, drops))
     else if 16 \<le> length ps then (PUS_ERR_QUEUE_FULL, (ps, sat_inc drops))
     else (PUS_OK, (ps @ [p], drops)))"

definition fifo_of :: "tmq_state \<Rightarrow> fifo" where
  "fifo_of q = (tmq_list q, s_overflows q)"

lemma length_tmq_list [simp]: "length (tmq_list q) = s_count q"
  by (simp add: tmq_list_def)

lemma tmq_inv_power_on: "tmq_inv tmq_power_on"
  by (simp add: tmq_inv_def tmq_power_on_def slot_ok_def list_all_length)

lemma tmq_inv_init: "tmq_inv q \<Longrightarrow> tmq_inv (tm_queue_init q) \<and> fifo_of (tm_queue_init q) = ([], 0)"
  by (simp add: tmq_inv_def tm_queue_init_def fifo_of_def tmq_list_def)

lemma live_less: "live q i < 16"
  by (simp add: live_def)

lemma mod_window_inject:
  fixes n :: nat
  assumes "i \<le> j" and "j < n" and "(h + i) mod n = (h + j) mod n"
  shows "i = j"
proof -
  have "n dvd j - i"
    using assms mod_eq_dvd_iff_nat [of "h + i" "h + j" n] by simp
  then show ?thesis
    using assms(1,2) dvd_imp_le [of n "j - i"] by linarith
qed

lemma live_inject: "i < 16 \<Longrightarrow> j < 16 \<Longrightarrow> live q i = live q j \<longleftrightarrow> i = j"
  unfolding live_def by (metis mod_window_inject nat_le_linear)

lemma slot_ok_nth: "tmq_inv q \<Longrightarrow> j < 16 \<Longrightarrow> slot_ok (s_slots q ! j)"
  by (simp add: tmq_inv_def list_all_length)

lemma slot_octets:
  assumes "slot_ok slot"
  obtains bs where "slot = octets bs" and "length bs = 256"
  using assms octets_map_the [of slot] unfolding slot_ok_def by (metis length_octets)

lemma slot_ok_overwrite:
  assumes "slot_ok slot" and "length bs \<le> 256"
  shows "slot_ok (overwrite slot 0 (octets bs))"
  using assms by (auto simp: slot_ok_def overwrite_0 octets_def dest: in_set_dropD)

section \<open>Push\<close>

lemma tm_queue_push_errors:
  "tm_queue_push None len q = Some (PUS_ERR_NULL, q)"
  "len = 0 \<or> 256 < len \<Longrightarrow> tm_queue_push (Some p) len q = Some (PUS_ERR_BAD_LENGTH, q)"
  by (auto simp: tm_queue_push_def)

lemma tm_queue_push_full:
  assumes "0 < len" and "len \<le> 256" and "16 \<le> s_count q"
  shows "tm_queue_push (Some p) len q
       = Some (PUS_ERR_QUEUE_FULL, q\<lparr> s_overflows := sat_inc (s_overflows q) \<rparr>)"
  using assms by (simp add: tm_queue_push_def sat_inc_def)

text \<open>The queue after a packet \<open>bs\<close> was appended.\<close>

definition pushed :: "u8 list \<Rightarrow> tmq_state \<Rightarrow> tmq_state" where
  "pushed bs q = q\<lparr>
     s_slots := (s_slots q)[live q (s_count q) :=
       overwrite (s_slots q ! live q (s_count q)) 0 (octets bs)],
     s_lengths := (s_lengths q)[live q (s_count q) := length bs],
     s_count := s_count q + 1 \<rparr>"

lemma tm_queue_push_room:
  assumes inv: "tmq_inv q" and "0 < len" and "len \<le> 256" and "s_count q < 16"
    and "len \<le> length bs"
  shows "tm_queue_push (Some (octets bs @ rest)) len q = Some (PUS_OK, pushed (take len bs) q)"
proof -
  have "slot_ok (s_slots q ! live q (s_count q))"
    using inv live_less by (rule slot_ok_nth)
  then show ?thesis
    using assms live_less [of q "s_count q"]
    by (simp add: tm_queue_push_def pushed_def arr_get_def arr_set_def copy_octets_prefix
        slot_ok_def tmq_inv_def Let_def flip: live_def)
qed

lemma live_pushed: "live (pushed bs q) i = live q i"
  by (simp add: live_def pushed_def)

lemma packet_at_pushed:
  assumes "tmq_inv q" and "length bs \<le> 256" and "j < 16"
  shows "packet_at (pushed bs q) j = (if j = live q (s_count q) then bs else packet_at q j)"
proof -
  have "length (s_slots q) = 16" and "length (s_lengths q) = 16"
    using assms(1) by (simp_all add: tmq_inv_def)
  then show ?thesis
    using assms live_less [of q "s_count q"]
    by (auto simp: packet_at_def pushed_def overwrite_0)
qed

lemma tmq_inv_pushed:
  assumes inv: "tmq_inv q" and "bs \<noteq> []" and "length bs \<le> 256" and "s_count q < 16"
  shows "tmq_inv (pushed bs q)"
proof -
  let ?t = "live q (s_count q)"
  have t: "?t < 16"
    by (rule live_less)
  have "slot_ok (overwrite (s_slots q ! ?t) 0 (octets bs))"
    using slot_ok_nth [OF inv t] assms(3) by (rule slot_ok_overwrite)
  then have "list_all slot_ok ((s_slots q)[?t := overwrite (s_slots q ! ?t) 0 (octets bs)])"
    using inv set_update_subset_insert [of "s_slots q" ?t]
    by (auto simp: tmq_inv_def list_all_iff)
  moreover have "0 < (s_lengths q)[?t := length bs] ! live q i \<and> (s_lengths q)[?t := length bs] ! live q i \<le> 256"
    if "i < s_count q + 1" for i
    using that inv assms t live_inject [of i "s_count q" q]
    by (cases "i = s_count q") (auto simp: tmq_inv_def nth_list_update live_less)
  ultimately show ?thesis
    using inv assms(4) unfolding tmq_inv_def live_pushed
    by (simp add: pushed_def)
qed

lemma tmq_list_pushed:
  assumes "tmq_inv q" and "length bs \<le> 256" and "s_count q < 16"
  shows "tmq_list (pushed bs q) = tmq_list q @ [bs]"
proof -
  have "packet_at (pushed bs q) (live q i) = packet_at q (live q i)" if "i < s_count q" for i
    using that assms live_inject [of i "s_count q" q] by (simp add: packet_at_pushed live_less)
  moreover have "packet_at (pushed bs q) (live q (s_count q)) = bs"
    using assms by (simp add: packet_at_pushed live_less)
  moreover have "s_count (pushed bs q) = Suc (s_count q)"
    by (simp add: pushed_def)
  ultimately show ?thesis
    by (simp add: tmq_list_def live_pushed)
qed

text \<open>Push refines the abstract queue.\<close>

lemma tm_queue_push_refines:
  assumes inv: "tmq_inv q" and "len \<le> length bs"
  shows "\<exists>q'. tm_queue_push (Some (octets bs @ rest)) len q
           = Some (fst (fifo_push (take len bs) (fifo_of q)), q') \<and>
         tmq_inv q' \<and> fifo_of q' = snd (fifo_push (take len bs) (fifo_of q))"
proof -
  consider "len = 0 \<or> 256 < len" | "0 < len" "len \<le> 256" "16 \<le> s_count q"
    | "0 < len" "len \<le> 256" "s_count q < 16"
    by linarith
  then show ?thesis
  proof cases
    case 1
    then show ?thesis
      using assms by (auto simp: tm_queue_push_errors fifo_push_def fifo_of_def)
  next
    case 2
    then show ?thesis
      using assms
      by (auto simp: tm_queue_push_full fifo_push_def fifo_of_def tmq_inv_def live_def
          tmq_list_def packet_at_def)
  next
    case 3
    then show ?thesis
      using assms tmq_inv_pushed [of q "take len bs"] tmq_list_pushed [of q "take len bs"]
      by (auto simp: tm_queue_push_room fifo_push_def fifo_of_def pushed_def)
  qed
qed

section \<open>Pop\<close>

lemma tm_queue_pop_errors:
  "tm_queue_pop None cap out_len q = Some (PUS_ERR_NULL, None, out_len, q)"
  "tm_queue_pop buf cap None q = Some (PUS_ERR_NULL, buf, None, q)"
  "s_count q = 0 \<Longrightarrow> tm_queue_pop (Some b) cap (Some out) q = Some (PUS_ERR_QUEUE_FULL, Some b, Some out, q)"
  by (simp_all add: tm_queue_pop_def split: option.splits)

text \<open>The queue after its oldest packet was removed.\<close>

definition popped :: "tmq_state \<Rightarrow> tmq_state" where
  "popped q = q\<lparr> s_head := (s_head q + 1) mod 16, s_count := s_count q - 1 \<rparr>"

lemma live_0: "tmq_inv q \<Longrightarrow> live q 0 = s_head q"
  by (simp add: live_def tmq_inv_def)

lemma tmq_list_head:
  assumes "tmq_inv q" and "0 < s_count q"
  shows "tmq_list q = packet_at q (s_head q) # tl (tmq_list q)"
  using assms by (simp add: tmq_list_def upt_conv_Cons live_0)

lemma slot_packet:
  assumes inv: "tmq_inv q" and "j < 16" and "s_lengths q ! j \<le> 256"
  shows "\<exists>rest. s_slots q ! j = octets (packet_at q j) @ rest"
    and "length (packet_at q j) = s_lengths q ! j"
proof -
  have ok: "slot_ok (s_slots q ! j)"
    using inv assms(2) by (rule slot_ok_nth)
  then have "octets (map the (take (s_lengths q ! j) (s_slots q ! j)))
      = take (s_lengths q ! j) (s_slots q ! j)"
    by (intro octets_map_the) (auto simp: slot_ok_def dest: in_set_takeD)
  then show "\<exists>rest. s_slots q ! j = octets (packet_at q j) @ rest"
    unfolding packet_at_def by (metis append_take_drop_id)
  show "length (packet_at q j) = s_lengths q ! j"
    using ok assms(3) by (simp add: packet_at_def slot_ok_def)
qed

lemma tm_queue_pop_nonempty:
  assumes inv: "tmq_inv q" and list: "tmq_list q = p # ps" and "cap \<le> length b"
  shows "tm_queue_pop (Some b) cap (Some out) q =
     (if cap < length p then Some (PUS_ERR_BUFFER_TOO_SMALL, Some b, Some out, q)
      else Some (PUS_OK, Some (overwrite b 0 (octets p)), Some (Some (length p)), popped q))"
proof -
  have pos: "0 < s_count q"
    using list by (metis length_tmq_list length_Cons zero_less_Suc)
  have p: "p = packet_at q (s_head q)"
    using tmq_list_head [OF inv pos] list by simp
  have h: "s_head q < 16" and len: "s_lengths q ! s_head q \<le> 256"
    using inv pos live_0 [OF inv] by (auto simp: tmq_inv_def)
  obtain rest where "s_slots q ! s_head q = octets p @ rest"
    using slot_packet(1) [OF inv h len] p by blast
  moreover have "length p = s_lengths q ! s_head q"
    using slot_packet(2) [OF inv h len] p by simp
  ultimately show ?thesis
    using inv pos assms(3) h
    by (simp add: tm_queue_pop_def arr_get_def tmq_inv_def copy_octets_prefix popped_def)
qed

lemma live_popped: "live (popped q) i = live q (Suc i)"
  by (simp add: live_def popped_def mod_simps)

lemma tmq_inv_popped:
  assumes "tmq_inv q" and "0 < s_count q"
  shows "tmq_inv (popped q)"
  using assms unfolding tmq_inv_def live_popped by (auto simp: popped_def)

lemma tmq_list_popped:
  assumes "0 < s_count q"
  shows "tmq_list (popped q) = tl (tmq_list q)"
proof -
  have "packet_at (popped q) j = packet_at q j" for j
    by (simp add: packet_at_def popped_def)
  moreover have "s_count q = Suc (s_count (popped q))"
    using assms by (simp add: popped_def)
  ultimately show ?thesis
    by (simp add: tmq_list_def live_popped upt_conv_Cons map_Suc_upt [symmetric] comp_def
        del: upt_Suc)
qed

lemma popped_queue:
  assumes inv: "tmq_inv q" and list: "tmq_list q = p # ps"
  shows "tmq_inv (popped q) \<and> fifo_of (popped q) = (ps, s_overflows q)"
proof -
  have pos: "0 < s_count q"
    using list by (metis length_tmq_list length_Cons zero_less_Suc)
  then show ?thesis
    using inv list by (simp add: tmq_inv_popped fifo_of_def tmq_list_popped) (simp add: popped_def)
qed

section \<open>The contract of the queue\<close>

text \<open>
  What a client of a bounded packet queue relies on. \<open>push\<close> and \<open>pop\<close> return \<open>None\<close> only
  on undefined behaviour, so the laws also promise that there is none.
\<close>

text \<open>Pushing a list of packets, and popping up to \<open>n\<close> packets, through any such pair.\<close>

primrec push_seq :: "(u8 list \<Rightarrow> 'q \<Rightarrow> (pus_status_t \<times> 'q) option) \<Rightarrow> u8 list list \<Rightarrow> 'q \<Rightarrow> 'q option" where
  "push_seq push [] q = Some q"
| "push_seq push (p # ps) q = do { (st, q') \<leftarrow> push p q; push_seq push ps q' }"

primrec pop_seq :: "('q \<Rightarrow> (u8 list option \<times> 'q) option) \<Rightarrow> nat \<Rightarrow> 'q \<Rightarrow> (u8 list list \<times> 'q) option" where
  "pop_seq pop 0 q = Some ([], q)"
| "pop_seq pop (Suc n) q = do {
     (r, q') \<leftarrow> pop q;
     case r of None \<Rightarrow> Some ([], q')
     | Some p \<Rightarrow> do { (ps, q'') \<leftarrow> pop_seq pop n q'; Some (p # ps, q'') } }"

locale packet_fifo =
  fixes push :: "u8 list \<Rightarrow> 'q \<Rightarrow> (pus_status_t \<times> 'q) option"
    and pop :: "'q \<Rightarrow> (u8 list option \<times> 'q) option"
    and contents :: "'q \<Rightarrow> u8 list list"
    and drops :: "'q \<Rightarrow> u16"
    and invar :: "'q \<Rightarrow> bool"
    and fits :: "u8 list \<Rightarrow> bool"
    and depth :: nat
  assumes push_room: "invar q \<Longrightarrow> fits p \<Longrightarrow> length (contents q) < depth \<Longrightarrow>
      \<exists>q'. push p q = Some (PUS_OK, q') \<and> invar q' \<and> contents q' = contents q @ [p] \<and> drops q' = drops q"
    and push_full: "invar q \<Longrightarrow> fits p \<Longrightarrow> depth \<le> length (contents q) \<Longrightarrow>
      \<exists>q'. push p q = Some (PUS_ERR_QUEUE_FULL, q') \<and> invar q' \<and> contents q' = contents q \<and>
           drops q' = sat_inc (drops q)"
    and pop_some: "invar q \<Longrightarrow> contents q = p # ps \<Longrightarrow>
      \<exists>q'. pop q = Some (Some p, q') \<and> invar q' \<and> contents q' = ps \<and> drops q' = drops q"
    and pop_empty: "invar q \<Longrightarrow> contents q = [] \<Longrightarrow> pop q = Some (None, q)"
    and depth_bound: "invar q \<Longrightarrow> length (contents q) \<le> depth"
begin

lemma push_seq_contents:
  "invar q \<Longrightarrow> list_all fits ps \<Longrightarrow>
   \<exists>q'. push_seq push ps q = Some q' \<and> invar q' \<and> contents q' = take depth (contents q @ ps) \<and>
     drops q' = (sat_inc ^^ (length (contents q @ ps) - depth)) (drops q)"
proof (induction ps arbitrary: q)
  case Nil
  then show ?case
    using depth_bound [of q] by simp
next
  case (Cons p ps)
  show ?case
  proof (cases "length (contents q) < depth")
    case True
    then obtain q' where "push p q = Some (PUS_OK, q')" "invar q'"
        "contents q' = contents q @ [p]" "drops q' = drops q"
      using Cons.prems push_room [of q p] by auto
    then show ?thesis
      using Cons by fastforce
  next
    case False
    then have len: "length (contents q) = depth"
      using Cons.prems depth_bound [of q] by simp
    then obtain q' where q': "push p q = Some (PUS_ERR_QUEUE_FULL, q')" "invar q'"
        "contents q' = contents q" "drops q' = sat_inc (drops q)"
      using Cons.prems push_full [of q p] by auto
    then obtain q'' where "push_seq push ps q' = Some q''" "invar q''"
        "contents q'' = take depth (contents q' @ ps)"
        "drops q'' = (sat_inc ^^ (length (contents q' @ ps) - depth)) (drops q')"
      using Cons by fastforce
    then show ?thesis
      using q' len by (simp add: funpow_swap1)
  qed
qed

lemma pop_seq_contents:
  "invar q \<Longrightarrow>
   \<exists>q'. pop_seq pop n q = Some (take n (contents q), q') \<and> invar q' \<and>
     contents q' = drop n (contents q) \<and> drops q' = drops q"
proof (induction n arbitrary: q)
  case 0
  then show ?case by simp
next
  case (Suc n)
  show ?case
  proof (cases "contents q")
    case Nil
    then show ?thesis
      using Suc.prems by (simp add: pop_empty)
  next
    case (Cons p ps)
    then obtain q' where "pop q = Some (Some p, q')" "invar q'" "contents q' = ps" "drops q' = drops q"
      using Suc.prems pop_some [of q p ps] by auto
    then show ?thesis
      using Suc.IH [of q'] Cons by auto
  qed
qed

end

text \<open>The code's queue, popped into a buffer of \<open>PUS_MAX_PACKET_SIZE\<close> fresh octets.\<close>

definition queue_push :: "u8 list \<Rightarrow> tmq_state \<Rightarrow> (pus_status_t \<times> tmq_state) option" where
  "queue_push p q = tm_queue_push (Some (octets p)) (length p) q"

definition queue_pop :: "tmq_state \<Rightarrow> (u8 list option \<times> tmq_state) option" where
  "queue_pop q = do {
     (st, buf, out_len, q') \<leftarrow> tm_queue_pop (Some (replicate PUS_MAX_PACKET_SIZE None))
       PUS_MAX_PACKET_SIZE (Some None) q;
     if st = PUS_OK then do {
       b \<leftarrow> buf;
       l \<leftarrow> out_len;
       len \<leftarrow> l;
       Some (Some (map the (take len b)), q') }
     else Some (None, q') }"

lemma tmq_list_lengths: "tmq_inv q \<Longrightarrow> p \<in> set (tmq_list q) \<Longrightarrow> p \<noteq> [] \<and> length p \<le> 256"
  using slot_packet(2) [of q] live_less [of q] by (fastforce simp: tmq_list_def tmq_inv_def)

lemma queue_pop_nonempty:
  assumes inv: "tmq_inv q" and list: "tmq_list q = p # ps"
  shows "queue_pop q = Some (Some p, popped q)"
proof -
  have "length p \<le> 256"
    using tmq_list_lengths [OF inv, of p] list by simp
  then show ?thesis
    using tm_queue_pop_nonempty [OF inv list, of 256 "replicate 256 None" None]
    by (simp add: queue_pop_def overwrite_0)
qed

interpretation tmq: packet_fifo queue_push queue_pop tmq_list s_overflows tmq_inv
  "\<lambda>p. p \<noteq> [] \<and> length p \<le> PUS_MAX_PACKET_SIZE" PUS_TM_QUEUE_DEPTH
proof unfold_locales
  fix q :: tmq_state and p :: "u8 list"
  assume inv: "tmq_inv q" and p: "p \<noteq> [] \<and> length p \<le> 256"
  have "\<exists>q'. queue_push p q = Some (fst (fifo_push p (fifo_of q)), q') \<and> tmq_inv q' \<and>
      fifo_of q' = snd (fifo_push p (fifo_of q))"
    using tm_queue_push_refines [OF inv, of "length p" p "[]"] by (simp add: queue_push_def)
  then show "length (tmq_list q) < 16 \<Longrightarrow> \<exists>q'. queue_push p q = Some (PUS_OK, q') \<and> tmq_inv q' \<and>
      tmq_list q' = tmq_list q @ [p] \<and> s_overflows q' = s_overflows q"
    and "16 \<le> length (tmq_list q) \<Longrightarrow> \<exists>q'. queue_push p q = Some (PUS_ERR_QUEUE_FULL, q') \<and>
      tmq_inv q' \<and> tmq_list q' = tmq_list q \<and> s_overflows q' = sat_inc (s_overflows q)"
    using p by (auto simp: fifo_push_def fifo_of_def)
next
  fix q :: tmq_state and p :: "u8 list" and ps
  assume inv: "tmq_inv q" and list: "tmq_list q = p # ps"
  show "\<exists>q'. queue_pop q = Some (Some p, q') \<and> tmq_inv q' \<and> tmq_list q' = ps \<and>
      s_overflows q' = s_overflows q"
    using queue_pop_nonempty [OF inv list] popped_queue [OF inv list] by (simp add: fifo_of_def)
next
  fix q :: tmq_state
  assume "tmq_inv q" and "tmq_list q = []"
  then have "s_count q = 0"
    by (metis length_tmq_list list.size(3))
  then show "queue_pop q = Some (None, q)"
    by (simp add: queue_pop_def tm_queue_pop_errors)
next
  fix q :: tmq_state
  assume "tmq_inv q"
  then show "length (tmq_list q) \<le> 16"
    by (simp add: tmq_inv_def)
qed

section \<open>Properties\<close>

lemma unat_sat_inc_funpow: "unat ((sat_inc ^^ k) n) = min 65535 (unat n + k)"
proof (induction k)
  case 0
  then show ?case
    using unat_u16_less [of n] by simp
next
  case (Suc k)
  then show ?case
    by (simp add: unat_sat_inc)
qed

text \<open>
  C23: The ring buffer is a bounded queue. From any state of the queue, pushing a sequence of
  packets and then popping sixteen times gives the first sixteen packets, oldest first, octet
  for octet; the packets that did not fit are exactly counted, up to 65535.
\<close>

theorem tm_queue_fifo:
  assumes "tmq_inv q" and "list_all (\<lambda>p. p \<noteq> [] \<and> length p \<le> 256) ps"
  shows "\<exists>q1 q2. push_seq queue_push ps q = Some q1 \<and>
    pop_seq queue_pop 16 q1 = Some (take 16 (tmq_list q @ ps), q2) \<and> tmq_list q2 = [] \<and>
    unat (s_overflows q2) = min 65535 (unat (s_overflows q) + (length (tmq_list q @ ps) - 16))"
proof -
  obtain q1 where q1: "push_seq queue_push ps q = Some q1" "tmq_inv q1"
      "tmq_list q1 = take 16 (tmq_list q @ ps)"
      "s_overflows q1 = (sat_inc ^^ (length (tmq_list q @ ps) - 16)) (s_overflows q)"
    using tmq.push_seq_contents [OF assms] by blast
  obtain q2 where "pop_seq queue_pop 16 q1 = Some (take 16 (tmq_list q1), q2)"
      "tmq_list q2 = drop 16 (tmq_list q1)" "s_overflows q2 = s_overflows q1"
    using tmq.pop_seq_contents [OF q1(2)] by blast
  moreover have "take 16 (tmq_list q1) = take 16 (tmq_list q @ ps)" "drop 16 (tmq_list q1) = []"
    unfolding q1(3) by (simp_all only: take_take min.idem drop_take diff_self_eq_0 take_0)
  moreover have "unat (s_overflows q1) =
      min 65535 (unat (s_overflows q) + (length (tmq_list q @ ps) - 16))"
    unfolding q1(4) by (rule unat_sat_inc_funpow)
  ultimately show ?thesis
    using q1(1) by (intro exI [of _ q1] exI [of _ q2]) (simp only: simp_thms)
qed

lemma tm_queue_fifo_witness:
  "\<exists>q1 q2. push_seq queue_push (replicate 20 [1, 2, 3]) tmq_power_on = Some q1 \<and>
    pop_seq queue_pop 16 q1 = Some (replicate 16 [1, 2, 3], q2) \<and> tmq_list q2 = [] \<and>
    unat (s_overflows q2) = 4"
proof -
  have "tmq_list tmq_power_on = []" and "s_overflows tmq_power_on = 0"
    by (simp_all add: tmq_list_def tmq_power_on_def)
  moreover have "list_all (\<lambda>p :: u8 list. p \<noteq> [] \<and> length p \<le> 256) (replicate 20 [1, 2, 3])"
    by (simp add: list_all_iff)
  ultimately show ?thesis
    using tm_queue_fifo [OF tmq_inv_power_on, of "replicate 20 [1, 2, 3]"] by simp
qed

text \<open>
  Popping into a buffer that is too small fails without losing the packet: queue, buffer and
  length are untouched, and a second attempt with a large enough buffer returns the packet.
\<close>

theorem tm_queue_pop_retry:
  assumes "tmq_inv q" and "tmq_list q = p # ps" and "length b < length p"
  shows "tm_queue_pop (Some b) (length b) (Some out) q
       = Some (PUS_ERR_BUFFER_TOO_SMALL, Some b, Some out, q) \<and>
     (\<exists>q' b'. tm_queue_pop (Some (replicate 256 None)) 256 (Some out) q
       = Some (PUS_OK, Some (octets p @ b'), Some (Some (length p)), q') \<and> tmq_list q' = ps)"
proof
  show "tm_queue_pop (Some b) (length b) (Some out) q
       = Some (PUS_ERR_BUFFER_TOO_SMALL, Some b, Some out, q)"
    using tm_queue_pop_nonempty [OF assms(1,2), of "length b" b out] assms(3) by simp
  have "length p \<le> 256"
    using tmq_list_lengths [OF assms(1), of p] assms(2) by simp
  then show "\<exists>q' b'. tm_queue_pop (Some (replicate 256 None)) 256 (Some out) q
       = Some (PUS_OK, Some (octets p @ b'), Some (Some (length p)), q') \<and> tmq_list q' = ps"
    using tm_queue_pop_nonempty [OF assms(1,2), of 256 "replicate 256 None" out] popped_queue [OF assms(1,2)]
    by (auto simp: overwrite_0 fifo_of_def)
qed

lemma tm_queue_pop_retry_witness:
  "\<exists>q p. tm_queue_pop (Some [None]) 1 (Some None) q
       = Some (PUS_ERR_BUFFER_TOO_SMALL, Some [None], Some None, q) \<and> p = [1, 2, 3] \<and>
     (\<exists>q' b'. tm_queue_pop (Some (replicate 256 None)) 256 (Some None) q
       = Some (PUS_OK, Some (octets p @ b'), Some (Some 3), q') \<and> tmq_list q' = [])"
proof -
  let ?q = "pushed [1, 2, 3] tmq_power_on"
  have c: "s_count tmq_power_on = 0"
    by (simp add: tmq_power_on_def)
  then have "tmq_list tmq_power_on = []"
    by (simp add: tmq_list_def)
  then have inv: "tmq_inv ?q" and list: "tmq_list ?q = [[1, 2, 3]]"
    using c tmq_inv_pushed [OF tmq_inv_power_on, of "[1, 2, 3]"] tmq_list_pushed [OF tmq_inv_power_on, of "[1, 2, 3]"]
    by simp_all
  show ?thesis
    using tm_queue_pop_retry [OF inv list, of "[None]" None]
    by (intro exI [of _ ?q] exI [of _ "[1, 2, 3]"]) (simp flip: numeral_3_eq_3)
qed

end
