(* ===== verification/Obsw_State.thy ===== *)
theory Obsw_State
  imports Pus_Tm Tm_Queue
begin

text \<open>
  The state of the whole application and its abstraction. The static variables of all
  modules form the record \<open>obsw\<close>; a void function returns the unit value and the state. The
  abstract state \<open>spec\<close> has the downlink queue as a list of messages, the configuration
  flags as predicates and the mode as a datatype. \<open>refines\<close> says that a C-level operation
  runs without undefined behaviour, keeps the structural invariant \<open>obsw_inv\<close>, and does to
  the abstract state what its specification says; its two rules are the composition
  principle every later proof uses.

  The theory also models \<open>pus_tm_send\<close> of \<open>src/pus_tm.c\<close>, the one operation through which
  every service emits telemetry, and its specification \<open>emit\<close>.
\<close>

section \<open>The static variables\<close>

text \<open>
  An enumeration whose values are passed around as numbers is a 32-bit word, so that a value
  outside the enumerators is representable, as it is in C.
\<close>

type_synonym obc_mode_t = u32

abbreviation (input) OBC_MODE_SAFE :: obc_mode_t where "OBC_MODE_SAFE \<equiv> 0"
abbreviation (input) OBC_MODE_NOMINAL :: obc_mode_t where "OBC_MODE_NOMINAL \<equiv> 1"

record obc_state_t =
  mode :: obc_mode_t
  uptime_ticks :: u32
  temperature_dc :: i16
  heater_on :: pus_bool_t
  tc_accepted :: u16
  tc_rejected :: u16
  last_failure_code :: u16

record obsw =
  hal :: hal_state
  tmq :: tmq_state
  tmgen :: tm_state
  svc03_enabled :: "pus_bool_t list"
  svc03_phase :: u32
  svc05_enabled :: "pus_bool_t list"
  s_state :: obc_state_t
  s_alarm_latched :: pus_bool_t
  s_last_overflow :: u16

text \<open>The program before \<open>obc_init\<close>: every static variable is zero.\<close>

definition power_on :: obsw where
  "power_on = \<lparr>
     hal = \<lparr> s_ticks = 0, s_epoch_coarse = 0, s_epoch_fine = 0, s_temperature_dc = 0,
       s_heater_on = 0 \<rparr>,
     tmq = tmq_power_on,
     tmgen = \<lparr> s_seq_count = 0, s_msg_counter = replicate 256 0 \<rparr>,
     svc03_enabled = replicate OBC_HK_MAX_STRUCTURES 0, svc03_phase = 0,
     svc05_enabled = replicate OBC_EVENT_MAX_IDS 0,
     s_state = \<lparr> mode = 0, uptime_ticks = 0, temperature_dc = 0, heater_on = 0,
       tc_accepted = 0, tc_rejected = 0, last_failure_code = 0 \<rparr>,
     s_alarm_latched = 0, s_last_overflow = 0 \<rparr>"

section \<open>Sending telemetry\<close>

definition pus_tm_send :: "u8 \<Rightarrow> u8 \<Rightarrow> mem option \<Rightarrow> nat \<Rightarrow> obsw \<Rightarrow> (pus_status_t \<times> obsw) option" where
  "pus_tm_send service subtype src_data src_len s = do {
     let packet = replicate PUS_MAX_PACKET_SIZE None;
     (st, buf, len, t) \<leftarrow> pus_tm_build (Some packet) (length packet) service subtype
       src_data src_len (Some (Some 0)) (hal s) (tmgen s);
     let s = s\<lparr> tmgen := t \<rparr>;
     if st \<noteq> PUS_OK then Some (st, s)
     else do {
       l \<leftarrow> len;
       n \<leftarrow> l;
       (st, q) \<leftarrow> tm_queue_push buf n (tmq s);
       Some (st, s\<lparr> tmq := q \<rparr>) } }"

section \<open>The abstract state\<close>

datatype opmode = Safe | Nominal

record spec =
  sp_queue :: "tm_msg list"
  sp_drops :: u16
  sp_seq :: u16
  sp_ctr :: "u8 \<Rightarrow> u16"
  sp_hal :: hal_state
  sp_hk :: "u8 \<Rightarrow> bool"
  sp_phase :: nat
  sp_ev :: "u16 \<Rightarrow> bool"
  sp_mode :: opmode
  sp_uptime :: u32
  sp_temp :: i16
  sp_heater :: bool
  sp_accepted :: u16
  sp_rejected :: u16
  sp_failure :: u16
  sp_alarm :: bool
  sp_last_drops :: u16

definition hk_flag :: "pus_bool_t list \<Rightarrow> u8 \<Rightarrow> bool" where
  "hk_flag flags sid \<longleftrightarrow> 1 \<le> unat sid \<and> unat sid \<le> 2 \<and> flags ! (unat sid - 1) \<noteq> 0"

definition ev_flag :: "pus_bool_t list \<Rightarrow> u16 \<Rightarrow> bool" where
  "ev_flag flags eid \<longleftrightarrow> 1 \<le> unat eid \<and> unat eid \<le> 8 \<and> flags ! (unat eid - 1) \<noteq> 0"

definition mode_of :: "obc_mode_t \<Rightarrow> opmode" where
  "mode_of m = (if m = OBC_MODE_SAFE then Safe else Nominal)"

definition obsw_abs :: "obsw \<Rightarrow> spec" where
  "obsw_abs s = \<lparr>
     sp_queue = map tm_decode (tmq_list (tmq s)),
     sp_drops = s_overflows (tmq s),
     sp_seq = s_seq_count (tmgen s),
     sp_ctr = (\<lambda>svc. s_msg_counter (tmgen s) ! unat svc),
     sp_hal = hal s,
     sp_hk = hk_flag (svc03_enabled s),
     sp_phase = unat (svc03_phase s),
     sp_ev = ev_flag (svc05_enabled s),
     sp_mode = mode_of (mode (s_state s)),
     sp_uptime = uptime_ticks (s_state s),
     sp_temp = temperature_dc (s_state s),
     sp_heater = (heater_on (s_state s) \<noteq> 0),
     sp_accepted = tc_accepted (s_state s),
     sp_rejected = tc_rejected (s_state s),
     sp_failure = last_failure_code (s_state s),
     sp_alarm = (s_alarm_latched s \<noteq> 0),
     sp_last_drops = s_last_overflow s \<rparr>"

section \<open>The structural invariant\<close>

definition flags_ok :: "nat \<Rightarrow> pus_bool_t list \<Rightarrow> bool" where
  "flags_ok n flags \<longleftrightarrow> length flags = n \<and> set flags \<subseteq> {0, 1}"

text \<open>Every queued packet is the encoding of a message that fits.\<close>

definition queue_wf :: "tmq_state \<Rightarrow> bool" where
  "queue_wf q \<longleftrightarrow> (\<forall>p \<in> set (tmq_list q). \<exists>m. tm_fits m \<and> p = tm_encode m)"

definition obsw_inv :: "obsw \<Rightarrow> bool" where
  "obsw_inv s \<longleftrightarrow> tmq_inv (tmq s) \<and> queue_wf (tmq s) \<and> tm_inv (tmgen s) \<and>
     flags_ok 2 (svc03_enabled s) \<and> unat (svc03_phase s) < 10 \<and> flags_ok 8 (svc05_enabled s) \<and>
     mode (s_state s) \<in> {0, 1} \<and> heater_on (s_state s) \<in> {0, 1} \<and> s_alarm_latched s \<in> {0, 1}"

text \<open>The invariant holds before initialisation.\<close>

lemma obsw_inv_power_on: "obsw_inv power_on"
  by (simp add: obsw_inv_def power_on_def tmq_inv_power_on queue_wf_def tmq_list_def
      tmq_power_on_def tm_inv_def flags_ok_def tmq_inv_power_on [unfolded tmq_power_on_def])

section \<open>Refinement\<close>

definition refines :: "('r \<times> obsw) option \<Rightarrow> 'r \<times> spec \<Rightarrow> bool" where
  "refines m a \<longleftrightarrow> (\<exists>r s'. m = Some (r, s') \<and> obsw_inv s' \<and> a = (r, obsw_abs s'))"

lemma refines_Some [intro]: "obsw_inv s \<Longrightarrow> a = (r, obsw_abs s) \<Longrightarrow> refines (Some (r, s)) a"
  by (simp add: refines_def)

lemma refines_bind:
  assumes "refines m a" and "\<And>s. obsw_inv s \<Longrightarrow> obsw_abs s = snd a \<Longrightarrow> refines (f (fst a, s)) b"
  shows "refines (m \<bind> f) b"
  using assms by (auto simp: refines_def)

lemma refinesE:
  assumes "refines m a"
  obtains s' where "m = Some (fst a, s')" and "obsw_inv s'" and "obsw_abs s' = snd a"
  using assms by (auto simp: refines_def)

text \<open>The specification of sending: the message is stamped, counted and queued or dropped.\<close>

definition stamp :: "u8 \<Rightarrow> u8 \<Rightarrow> u8 list \<Rightarrow> spec \<Rightarrow> tm_msg" where
  "stamp svc sub data a = \<lparr>
     m_seq = sp_seq a, m_service = svc, m_subtype = sub, m_counter = sp_ctr a svc,
     m_coarse = fst (cuc_time (sp_hal a)), m_fine = snd (cuc_time (sp_hal a)), m_data = data \<rparr>"

definition emit :: "u8 \<Rightarrow> u8 \<Rightarrow> u8 list \<Rightarrow> spec \<Rightarrow> pus_status_t \<times> spec" where
  "emit svc sub data a =
     (let b = a\<lparr> sp_seq := (sp_seq a + 1) AND 0x3FFF, sp_ctr := (sp_ctr a)(svc := sp_ctr a svc + 1) \<rparr>
      in if length (sp_queue a) < 16
         then (PUS_OK, b\<lparr> sp_queue := sp_queue a @ [stamp svc sub data a] \<rparr>)
         else (PUS_ERR_QUEUE_FULL, b\<lparr> sp_drops := sat_inc (sp_drops a) \<rparr>))"

lemma queue_wf_append:
  "queue_wf q \<Longrightarrow> tmq_list q' = tmq_list q @ [tm_encode m] \<Longrightarrow> tm_fits m \<Longrightarrow> queue_wf q'"
  by (auto simp: queue_wf_def)

lemma pus_tm_send_refines:
  assumes inv: "obsw_inv s" and src: "holds src data" and n: "n = length data" and len: "length data \<le> 235"
  shows "refines (pus_tm_send svc sub src n s) (emit svc sub data (obsw_abs s))"
proof -
  let ?m = "tm_next svc sub data (hal s) (tmgen s)"
  let ?s = "s\<lparr> tmgen := tm_count svc (tmgen s) \<rparr>"
  have tm: "tm_inv (tmgen s)" and q: "tmq_inv (tmq s)" and wf: "queue_wf (tmq s)"
    using inv by (simp_all add: obsw_inv_def)
  have fits: "tm_fits ?m"
    using tm len by (rule tm_next_fits)
  have stamp: "stamp svc sub data (obsw_abs s) = ?m"
    by (simp add: stamp_def obsw_abs_def tm_next_def)
  have mlen: "length (m_data ?m) = length data"
    by (simp add: tm_next_def)
  have svc: "unat svc < 256"
    by (rule unat_u8_less)
  have ctr: "(\<lambda>x. s_msg_counter (tm_count svc (tmgen s)) ! unat x) =
      (\<lambda>x. s_msg_counter (tmgen s) ! unat x)(svc := s_msg_counter (tmgen s) ! unat svc + 1)"
    using tm svc by (auto simp: tm_count_def tm_inv_def fun_eq_iff word_unat_eq_iff)
  have build: "pus_tm_build (Some (replicate 256 None)) 256 svc sub src n (Some (Some 0)) (hal s) (tmgen s)
      = Some (PUS_OK, Some (octets (tm_encode ?m) @ replicate (235 - length data) None),
          Some (Some (21 + length data)), tm_count svc (tmgen s))"
    using pus_tm_build_octets [OF tm src n, of 256 "replicate 256 None"] len mlen
    by (simp add: overwrite_0 diff_diff_eq [symmetric])
  have list: "length (tm_encode ?m) = 21 + length data"
    by (simp add: mlen)
  obtain q' where push: "tm_queue_push (Some (octets (tm_encode ?m) @ replicate (235 - length data) None))
        (21 + length data) (tmq s) = Some (fst (fifo_push (tm_encode ?m) (fifo_of (tmq s))), q')"
      and q': "tmq_inv q'" "fifo_of q' = snd (fifo_push (tm_encode ?m) (fifo_of (tmq s)))"
    using tm_queue_push_refines [OF q, of "21 + length data" "tm_encode ?m"] list by auto
  have ne: "tm_encode ?m \<noteq> [] \<and> length (tm_encode ?m) \<le> 256"
    using list len unfolding length_0_conv [symmetric] by linarith
  have send: "pus_tm_send svc sub src n s
      = Some (fst (fifo_push (tm_encode ?m) (fifo_of (tmq s))), ?s\<lparr> tmq := q' \<rparr>)"
    by (simp add: pus_tm_send_def Let_def build push)
  show ?thesis
  proof (cases "length (tmq_list (tmq s)) < 16")
    case True
    then have "tmq_list q' = tmq_list (tmq s) @ [tm_encode ?m]" "s_overflows q' = s_overflows (tmq s)"
      "fst (fifo_push (tm_encode ?m) (fifo_of (tmq s))) = PUS_OK"
      using q'(2) ne by (auto simp: fifo_push_def fifo_of_def)
    moreover from this have "queue_wf q'"
      using queue_wf_append [OF wf _ fits] by simp
    moreover have "tm_decode (tm_encode ?m) = ?m"
      using fits by (intro tm_decode_encode) (simp add: tm_fits_def)
    ultimately show ?thesis
      unfolding send emit_def stamp Let_def using inv True q'(1) tm ctr
      by (intro refines_Some) (simp_all add: obsw_inv_def tm_inv_def seq_step_less obsw_abs_def tm_count_def)
  next
    case False
    then have "tmq_list q' = tmq_list (tmq s)" "s_overflows q' = sat_inc (s_overflows (tmq s))"
      "fst (fifo_push (tm_encode ?m) (fifo_of (tmq s))) = PUS_ERR_QUEUE_FULL"
      using q'(2) ne by (auto simp: fifo_push_def fifo_of_def)
    moreover from this have "queue_wf q'"
      using wf by (simp add: queue_wf_def)
    ultimately show ?thesis
      unfolding send emit_def Let_def using inv False q'(1) tm ctr
      by (intro refines_Some) (simp_all add: obsw_inv_def tm_inv_def seq_step_less obsw_abs_def tm_count_def)
  qed
qed


section \<open>States with a given number of queued packets\<close>

lemma obsw_fill: "n \<le> 16 \<Longrightarrow> \<exists>s. obsw_inv s \<and> length (sp_queue (obsw_abs s)) = n"
proof (induction n)
  case 0
  have "sp_queue (obsw_abs power_on) = []"
    by (simp add: obsw_abs_def power_on_def tmq_power_on_def tmq_list_def)
  then show ?case
    using obsw_inv_power_on by (intro exI [of _ power_on]) simp
next
  case (Suc n)
  then obtain s where s: "obsw_inv s" "length (sp_queue (obsw_abs s)) = n"
    by auto
  obtain s' where "obsw_inv s'" "obsw_abs s' = snd (emit 17 2 [] (obsw_abs s))"
    using refinesE [OF pus_tm_send_refines [OF s(1), of None "[]" 0 17 2]] by (auto simp: holds_def)
  then show ?case
    using s(2) Suc.prems by (intro exI [of _ s']) (simp add: emit_def Let_def)
qed

section \<open>Properties\<close>

text \<open>
  C24: Sending a message of at most 235 octets of source data never runs into undefined
  behaviour. If the downlink queue has room the stamped message is appended to it, otherwise the
  queue is unchanged and the loss is counted; the sequence count and the message counter of the
  service advance either way.
\<close>

theorem pus_tm_send_effect:
  assumes "obsw_inv s" and "length data \<le> 235"
  shows "\<exists>st s'. pus_tm_send svc sub (Some (octets data)) (length data) s = Some (st, s') \<and>
    obsw_inv s' \<and>
    (let a = obsw_abs s; b = obsw_abs s';
         m = \<lparr> m_seq = sp_seq a, m_service = svc, m_subtype = sub, m_counter = sp_ctr a svc,
               m_coarse = fst (cuc_time (hal s)), m_fine = snd (cuc_time (hal s)), m_data = data \<rparr>
     in (if s_count (tmq s) < 16
         then st = PUS_OK \<and> sp_queue b = sp_queue a @ [m] \<and> sp_drops b = sp_drops a
         else st = PUS_ERR_QUEUE_FULL \<and> sp_queue b = sp_queue a \<and>
           unat (sp_drops b) = min 65535 (unat (sp_drops a) + 1)) \<and>
        sp_seq b = (sp_seq a + 1) AND 0x3FFF \<and> sp_ctr b = (sp_ctr a)(svc := sp_ctr a svc + 1))"
proof -
  have "holds (Some (octets data)) data"
    unfolding holds_def by (auto intro: exI [of _ "[]"])
  from pus_tm_send_refines [OF assms(1) this HOL.refl assms(2), of svc sub]
  obtain s' where "pus_tm_send svc sub (Some (octets data)) (length data) s
      = Some (fst (emit svc sub data (obsw_abs s)), s')" "obsw_inv s'"
      "obsw_abs s' = snd (emit svc sub data (obsw_abs s))"
    by (rule refinesE)
  moreover have "length (sp_queue (obsw_abs s)) = s_count (tmq s)" "sp_hal (obsw_abs s) = hal s"
    by (simp_all add: obsw_abs_def)
  ultimately show ?thesis
    by (simp add: emit_def stamp_def unat_sat_inc Let_def)
qed

lemma pus_tm_send_effect_witness:
  "\<exists>st s'. pus_tm_send 17 2 (Some (octets [1, 2])) (length [1, 2 :: u8]) power_on = Some (st, s') \<and>
     st = PUS_OK \<and> length (sp_queue (obsw_abs s')) = 1"
proof -
  have "s_count (tmq power_on) = 0" and "sp_queue (obsw_abs power_on) = []"
    by (simp_all add: obsw_abs_def power_on_def tmq_power_on_def tmq_list_def)
  then show ?thesis
    using pus_tm_send_effect [OF obsw_inv_power_on, of "[1, 2]" 17 2] by (auto simp: Let_def)
qed

end
