(* ===== verification/Svc01.thy ===== *)
theory Svc01
  imports Obsw_State
begin

text \<open>
  Service 1, request verification: \<open>include/pus/svc01_verification.h\<close> and
  \<open>src/svc01_verification.c\<close>. The specifications say which report leaves, with which
  source data, for which acknowledgement flags.
\<close>

section \<open>The code\<close>

abbreviation (input) PUS_SERVICE_VERIFICATION :: u8 where "PUS_SERVICE_VERIFICATION \<equiv> 1"
abbreviation (input) PUS_ST01_ACCEPTANCE_SUCCESS :: u8 where "PUS_ST01_ACCEPTANCE_SUCCESS \<equiv> 1"
abbreviation (input) PUS_ST01_ACCEPTANCE_FAILURE :: u8 where "PUS_ST01_ACCEPTANCE_FAILURE \<equiv> 2"
abbreviation (input) PUS_ST01_COMPLETION_SUCCESS :: u8 where "PUS_ST01_COMPLETION_SUCCESS \<equiv> 7"
abbreviation (input) PUS_ST01_COMPLETION_FAILURE :: u8 where "PUS_ST01_COMPLETION_FAILURE \<equiv> 8"
abbreviation (input) SVC01_SUCCESS_DATA_LEN :: nat where "SVC01_SUCCESS_DATA_LEN \<equiv> 4"
abbreviation (input) SVC01_FAILURE_DATA_LEN :: nat where "SVC01_FAILURE_DATA_LEN \<equiv> 6"

definition svc01_send_success :: "u8 \<Rightarrow> u32 \<Rightarrow> obsw \<Rightarrow> (pus_status_t \<times> obsw) option" where
  "svc01_send_success subtype req s = do {
     let data = replicate SVC01_SUCCESS_DATA_LEN None;
     data \<leftarrow> pus_put_u32 data 0 req;
     pus_tm_send PUS_SERVICE_VERIFICATION subtype (Some data) (length data) s }"

definition svc01_send_failure ::
    "u8 \<Rightarrow> u32 \<Rightarrow> pus_status_t \<Rightarrow> obsw \<Rightarrow> (pus_status_t \<times> obsw) option" where
  "svc01_send_failure subtype req code s = do {
     let data = replicate SVC01_FAILURE_DATA_LEN None;
     data \<leftarrow> pus_put_u32 data 0 req;
     data \<leftarrow> pus_put_u16 data 4 (status_code code);
     pus_tm_send PUS_SERVICE_VERIFICATION subtype (Some data) (length data) s }"

definition svc01_acceptance_success :: "pus_tc_t option \<Rightarrow> obsw \<Rightarrow> (pus_status_t \<times> obsw) option" where
  "svc01_acceptance_success tc s =
     (case tc of None \<Rightarrow> Some (PUS_ERR_NULL, s)
      | Some t \<Rightarrow>
          if pus_tc_ack_requested tc PUS_ACK_ACCEPTANCE = PUS_FALSE then Some (PUS_OK, s)
          else svc01_send_success PUS_ST01_ACCEPTANCE_SUCCESS (request_id t) s)"

definition svc01_completion_success :: "pus_tc_t option \<Rightarrow> obsw \<Rightarrow> (pus_status_t \<times> obsw) option" where
  "svc01_completion_success tc s =
     (case tc of None \<Rightarrow> Some (PUS_ERR_NULL, s)
      | Some t \<Rightarrow>
          if pus_tc_ack_requested tc PUS_ACK_COMPLETION = PUS_FALSE then Some (PUS_OK, s)
          else svc01_send_success PUS_ST01_COMPLETION_SUCCESS (request_id t) s)"

definition svc01_completion_failure ::
    "pus_tc_t option \<Rightarrow> pus_status_t \<Rightarrow> obsw \<Rightarrow> (pus_status_t \<times> obsw) option" where
  "svc01_completion_failure tc code s =
     (case tc of None \<Rightarrow> Some (PUS_ERR_NULL, s)
      | Some t \<Rightarrow>
          if pus_tc_ack_requested tc PUS_ACK_COMPLETION = PUS_FALSE then Some (PUS_OK, s)
          else svc01_send_failure PUS_ST01_COMPLETION_FAILURE (request_id t) code s)"

definition svc01_reject_raw ::
    "mem option \<Rightarrow> nat \<Rightarrow> pus_status_t \<Rightarrow> obsw \<Rightarrow> (pus_status_t \<times> obsw) option" where
  "svc01_reject_raw raw len code s = do {
     req \<leftarrow> (case raw of
         None \<Rightarrow> Some 0
       | Some p \<Rightarrow> if len \<ge> 4 then pus_get_u32 p 0 else Some 0);
     svc01_send_failure PUS_ST01_ACCEPTANCE_FAILURE req code s }"

section \<open>Specifications\<close>

definition sp_success :: "u8 \<Rightarrow> u32 \<Rightarrow> spec \<Rightarrow> pus_status_t \<times> spec" where
  "sp_success sub req a = emit 1 sub (be32 req) a"

definition sp_failure_report :: "u8 \<Rightarrow> u32 \<Rightarrow> pus_status_t \<Rightarrow> spec \<Rightarrow> pus_status_t \<times> spec" where
  "sp_failure_report sub req code a = emit 1 sub (be32 req @ be16 (status_code code)) a"

definition sp_acceptance :: "telecommand \<Rightarrow> spec \<Rightarrow> pus_status_t \<times> spec" where
  "sp_acceptance c a =
     (if ack_requested c PUS_ACK_ACCEPTANCE then sp_success 1 (tc_request c) a else (PUS_OK, a))"

definition sp_completion :: "telecommand \<Rightarrow> pus_status_t \<Rightarrow> spec \<Rightarrow> pus_status_t \<times> spec" where
  "sp_completion c st a =
     (if \<not> ack_requested c PUS_ACK_COMPLETION then (PUS_OK, a)
      else if st = PUS_OK then sp_success 7 (tc_request c) a
      else sp_failure_report 8 (tc_request c) st a)"

definition raw_request :: "u8 list \<Rightarrow> u32" where
  "raw_request bs = (if 4 \<le> length bs then of_be32 (bs ! 0) (bs ! 1) (bs ! 2) (bs ! 3) else 0)"

definition sp_reject :: "u8 list \<Rightarrow> pus_status_t \<Rightarrow> spec \<Rightarrow> pus_status_t \<times> spec" where
  "sp_reject bs code a = sp_failure_report 2 (raw_request bs) code a"

section \<open>Refinement\<close>

lemma holds_octets [simp]: "holds (Some (octets data)) data"
  unfolding holds_def by (auto intro: exI [of _ "[]"])

lemma overwrite_fresh: "length bs = n \<Longrightarrow> overwrite (replicate n c) 0 (octets bs) = octets bs"
  by (simp add: overwrite_0)

lemma svc01_send_success_refines:
  assumes "obsw_inv s"
  shows "refines (svc01_send_success sub req s) (sp_success sub req (obsw_abs s))"
  using pus_tm_send_refines [OF assms holds_octets, of 4 "be32 req" 1 sub]
  by (simp add: svc01_send_success_def sp_success_def pus_put_u32_in overwrite_fresh Let_def)

lemma svc01_send_failure_refines:
  assumes "obsw_inv s"
  shows "refines (svc01_send_failure sub req code s) (sp_failure_report sub req code (obsw_abs s))"
  using pus_tm_send_refines [OF assms holds_octets, of 6 "be32 req @ be16 (status_code code)" 1 sub]
  by (simp add: svc01_send_failure_def sp_failure_report_def pus_put_u32_in pus_put_u16_in
      overwrite_octets_append overwrite_fresh Let_def)

lemma request_id_abs: "request_id tc = tc_request (tc_abs tc)"
  by (simp add: tc_abs_def)

lemma svc01_acceptance_success_refines:
  "obsw_inv s \<Longrightarrow> refines (svc01_acceptance_success (Some tc) s) (sp_acceptance (tc_abs tc) (obsw_abs s))"
  using svc01_send_success_refines [of s 1 "request_id tc"]
  by (auto simp: svc01_acceptance_success_def sp_acceptance_def pus_tc_ack_requested_abs request_id_abs)

lemma svc01_completion_success_refines:
  "obsw_inv s \<Longrightarrow>
   refines (svc01_completion_success (Some tc) s) (sp_completion (tc_abs tc) PUS_OK (obsw_abs s))"
  using svc01_send_success_refines [of s 7 "request_id tc"]
  by (auto simp: svc01_completion_success_def sp_completion_def pus_tc_ack_requested_abs request_id_abs)

lemma svc01_completion_failure_refines:
  "obsw_inv s \<Longrightarrow> st \<noteq> PUS_OK \<Longrightarrow>
   refines (svc01_completion_failure (Some tc) st s) (sp_completion (tc_abs tc) st (obsw_abs s))"
  using svc01_send_failure_refines [of s 8 "request_id tc" st]
  by (auto simp: svc01_completion_failure_def sp_completion_def pus_tc_ack_requested_abs request_id_abs)

lemma svc01_reject_raw_refines:
  assumes "obsw_inv s"
  shows "refines (svc01_reject_raw (Some (octets bs @ rest)) (length bs) code s)
     (sp_reject bs code (obsw_abs s))"
  using svc01_send_failure_refines [OF assms, of 2 "raw_request bs" code]
  by (auto simp: svc01_reject_raw_def sp_reject_def raw_request_def pus_get_u32_prefix
      split: if_splits simp flip: numeral_2_eq_2)

lemma svc01_reject_raw_NULL_refines:
  assumes "obsw_inv s"
  shows "refines (svc01_reject_raw None len code s) (sp_reject [] code (obsw_abs s))"
  using svc01_send_failure_refines [OF assms, of 2 0 code]
  by (simp add: svc01_reject_raw_def sp_reject_def raw_request_def)

end
