(* ===== verification/Svc05.thy ===== *)
theory Svc05
  imports Obsw_State Svc01
begin

text \<open>
  Service 5, event reporting: \<open>include/pus/svc05_event.h\<close> and \<open>src/svc05_event.c\<close>. The
  array \<open>s_enabled\<close> of the file is the field \<open>svc05_enabled\<close>, one flag per identifier.
\<close>

section \<open>The code\<close>

abbreviation (input) PUS_SERVICE_EVENT :: u8 where "PUS_SERVICE_EVENT \<equiv> 5"
abbreviation (input) PUS_ST05_INFORMATIVE :: u8 where "PUS_ST05_INFORMATIVE \<equiv> 1"
abbreviation (input) PUS_ST05_LOW_SEVERITY :: u8 where "PUS_ST05_LOW_SEVERITY \<equiv> 2"
abbreviation (input) PUS_ST05_MED_SEVERITY :: u8 where "PUS_ST05_MED_SEVERITY \<equiv> 3"
abbreviation (input) PUS_ST05_HIGH_SEVERITY :: u8 where "PUS_ST05_HIGH_SEVERITY \<equiv> 4"
abbreviation (input) PUS_ST05_DISABLE :: u8 where "PUS_ST05_DISABLE \<equiv> 5"
abbreviation (input) PUS_ST05_ENABLE :: u8 where "PUS_ST05_ENABLE \<equiv> 6"

type_synonym obc_event_id_t = u32

abbreviation (input) OBC_EVT_BOOT_COMPLETED :: obc_event_id_t where "OBC_EVT_BOOT_COMPLETED \<equiv> 1"
abbreviation (input) OBC_EVT_MODE_CHANGED :: obc_event_id_t where "OBC_EVT_MODE_CHANGED \<equiv> 2"
abbreviation (input) OBC_EVT_TC_REJECTED :: obc_event_id_t where "OBC_EVT_TC_REJECTED \<equiv> 3"
abbreviation (input) OBC_EVT_TM_QUEUE_OVERFLOW :: obc_event_id_t where "OBC_EVT_TM_QUEUE_OVERFLOW \<equiv> 4"
abbreviation (input) OBC_EVT_HEATER_SWITCHED :: obc_event_id_t where "OBC_EVT_HEATER_SWITCHED \<equiv> 5"
abbreviation (input) OBC_EVT_TEMP_ALARM :: obc_event_id_t where "OBC_EVT_TEMP_ALARM \<equiv> 6"
abbreviation (input) SVC05_REPORT_DATA_LEN :: nat where "SVC05_REPORT_DATA_LEN \<equiv> 4"

definition svc05_id_valid :: "u16 \<Rightarrow> pus_bool_t" where
  "svc05_id_valid eid = (if eid \<ge> 1 \<and> eid \<le> of_nat OBC_EVENT_MAX_IDS then PUS_TRUE else PUS_FALSE)"

text \<open>The index expression \<open>id - 1u\<close>: unsigned, so 0 does not stay at 0.\<close>

definition event_index :: "u16 \<Rightarrow> nat" where
  "event_index eid = unat (ucast eid - 1 :: u32)"

definition svc05_init :: "obsw \<Rightarrow> (unit \<times> obsw) option" where
  "svc05_init s = do {
     flags \<leftarrow> fill_array (svc05_enabled s) 0 (length (svc05_enabled s)) PUS_TRUE;
     Some ((), s\<lparr> svc05_enabled := flags \<rparr>) }"

definition svc05_report :: "obc_event_id_t \<Rightarrow> u8 \<Rightarrow> u16 \<Rightarrow> obsw \<Rightarrow> (pus_status_t \<times> obsw) option" where
  "svc05_report eid severity aux s =
     (if svc05_id_valid (ucast eid) = PUS_FALSE then Some (PUS_ERR_UNKNOWN_EVENT, s)
      else if severity < PUS_ST05_INFORMATIVE \<or> severity > PUS_ST05_HIGH_SEVERITY
      then Some (PUS_ERR_BAD_PARAMETER, s)
      else do {
        flag \<leftarrow> arr_get (svc05_enabled s) (event_index (ucast eid));
        if flag = PUS_FALSE then Some (PUS_OK, s)
        else do {
          let data = replicate SVC05_REPORT_DATA_LEN None;
          data \<leftarrow> pus_put_u16 data 0 (ucast eid);
          data \<leftarrow> pus_put_u16 data 2 aux;
          pus_tm_send PUS_SERVICE_EVENT severity (Some data) (length data) s } })"

definition svc05_is_enabled :: "obc_event_id_t \<Rightarrow> obsw \<Rightarrow> pus_bool_t option" where
  "svc05_is_enabled eid s =
     (if svc05_id_valid (ucast eid) = PUS_FALSE then Some PUS_FALSE
      else arr_get (svc05_enabled s) (event_index (ucast eid)))"

text \<open>The validation loop from index \<open>i\<close> with \<open>n\<close> identifiers left: do all of them exist?\<close>

primrec svc05_check_loop :: "mem \<Rightarrow> nat \<Rightarrow> nat \<Rightarrow> bool option" where
  "svc05_check_loop p i 0 = Some True"
| "svc05_check_loop p i (Suc n) = do {
     eid \<leftarrow> pus_get_u16 p (1 + i * 2);
     if svc05_id_valid eid = PUS_FALSE then Some False
     else svc05_check_loop p (Suc i) n }"

text \<open>The writing loop.\<close>

primrec svc05_write_loop :: "mem \<Rightarrow> nat \<Rightarrow> nat \<Rightarrow> pus_bool_t \<Rightarrow> pus_bool_t list \<Rightarrow> pus_bool_t list option" where
  "svc05_write_loop p i 0 v flags = Some flags"
| "svc05_write_loop p i (Suc n) v flags = do {
     eid \<leftarrow> pus_get_u16 p (1 + i * 2);
     flags \<leftarrow> arr_set flags (event_index eid) v;
     svc05_write_loop p (Suc i) n v flags }"

definition svc05_set_enabled :: "pus_tc_t \<Rightarrow> pus_bool_t \<Rightarrow> obsw \<Rightarrow> (pus_status_t \<times> obsw) option" where
  "svc05_set_enabled tc v s =
     (if app_data_len tc < 1 then Some (PUS_ERR_BAD_LENGTH, s)
      else do {
        p \<leftarrow> app_data tc;
        count \<leftarrow> pus_get_u8 p 0;
        if app_data_len tc \<noteq> 1 + unat count * 2 then Some (PUS_ERR_BAD_LENGTH, s)
        else if count = 0 then Some (PUS_ERR_BAD_PARAMETER, s)
        else do {
          good \<leftarrow> svc05_check_loop p 0 (unat count);
          if \<not> good then Some (PUS_ERR_UNKNOWN_EVENT, s)
          else do {
            flags \<leftarrow> svc05_write_loop p 0 (unat count) v (svc05_enabled s);
            Some (PUS_OK, s\<lparr> svc05_enabled := flags \<rparr>) } } })"

definition svc05_handle :: "pus_tc_t option \<Rightarrow> obsw \<Rightarrow> (pus_status_t \<times> obsw) option" where
  "svc05_handle tc s =
     (case tc of None \<Rightarrow> Some (PUS_ERR_NULL, s)
      | Some t \<Rightarrow>
          if service_subtype t = PUS_ST05_DISABLE then svc05_set_enabled t PUS_FALSE s
          else if service_subtype t = PUS_ST05_ENABLE then svc05_set_enabled t PUS_TRUE s
          else Some (PUS_ERR_UNKNOWN_SUBTYPE, s))"

section \<open>Specifications\<close>

definition event_id_ok :: "u16 \<Rightarrow> bool" where
  "event_id_ok eid \<longleftrightarrow> 1 \<le> unat eid \<and> unat eid \<le> 8"

definition event_data :: "u16 \<Rightarrow> u16 \<Rightarrow> u8 list" where
  "event_data eid aux = be16 eid @ be16 aux"

text \<open>Reporting an identifier that exists, with a severity that exists.\<close>

definition sp_event :: "u16 \<Rightarrow> u8 \<Rightarrow> u16 \<Rightarrow> spec \<Rightarrow> pus_status_t \<times> spec" where
  "sp_event eid sev aux a =
     (if sp_ev a eid then emit 5 sev (event_data eid aux) a else (PUS_OK, a))"

text \<open>The identifiers a list of octets carries, two octets each.\<close>

fun words16 :: "u8 list \<Rightarrow> u16 list" where
  "words16 (a # b # bs) = of_be16 a b # words16 bs"
| "words16 _ = []"

definition event_list_verdict :: "u8 list \<Rightarrow> pus_status_t" where
  "event_list_verdict app =
     (case app of [] \<Rightarrow> PUS_ERR_BAD_LENGTH
      | count # ids \<Rightarrow>
          if length ids \<noteq> 2 * unat count then PUS_ERR_BAD_LENGTH
          else if count = 0 then PUS_ERR_BAD_PARAMETER
          else if list_all event_id_ok (words16 ids) then PUS_OK
          else PUS_ERR_UNKNOWN_EVENT)"

definition set_flags :: "'a list \<Rightarrow> bool \<Rightarrow> ('a \<Rightarrow> bool) \<Rightarrow> 'a \<Rightarrow> bool" where
  "set_flags xs v f x = (if x \<in> set xs then v else f x)"

definition sp_set_events :: "u8 list \<Rightarrow> bool \<Rightarrow> spec \<Rightarrow> pus_status_t \<times> spec" where
  "sp_set_events app v a =
     (if event_list_verdict app = PUS_OK
      then (PUS_OK, a\<lparr> sp_ev := set_flags (words16 (tl app)) v (sp_ev a) \<rparr>)
      else (event_list_verdict app, a))"

definition sp_svc05 :: "telecommand \<Rightarrow> spec \<Rightarrow> pus_status_t \<times> spec" where
  "sp_svc05 c a =
     (if tc_subtype c = 5 then sp_set_events (tc_app c) False a
      else if tc_subtype c = 6 then sp_set_events (tc_app c) True a
      else (PUS_ERR_UNKNOWN_SUBTYPE, a))"

section \<open>Refinement\<close>

lemma svc05_id_valid_iff: "svc05_id_valid eid = PUS_FALSE \<longleftrightarrow> \<not> event_id_ok eid"
  by (auto simp: svc05_id_valid_def event_id_ok_def word_le_nat_alt)

lemma event_index_ok:
  assumes "event_id_ok eid"
  shows "event_index eid = unat eid - 1"
proof -
  have "unat (ucast eid :: u32) = unat eid"
    using unat_u16_less [of eid] by (simp add: unat_ucast_mod)
  moreover from this have "(1 :: u32) \<le> ucast eid"
    using assms by (simp add: event_id_ok_def word_le_nat_alt)
  ultimately show ?thesis
    by (simp add: event_index_def unat_sub)
qed

lemma event_index_less: "event_id_ok eid \<Longrightarrow> event_index eid < 8"
  unfolding event_index_ok by (auto simp: event_id_ok_def)

lemma ev_flag_index: "event_id_ok eid \<Longrightarrow> ev_flag flags eid \<longleftrightarrow> flags ! event_index eid \<noteq> 0"
  by (simp add: ev_flag_def event_index_ok) (auto simp: event_id_ok_def)

lemma ev_flag_not_ok: "\<not> event_id_ok eid \<Longrightarrow> \<not> ev_flag flags eid"
  by (auto simp: ev_flag_def event_id_ok_def)

lemma inv_ev_length: "obsw_inv s \<Longrightarrow> length (svc05_enabled s) = 8"
  by (simp add: obsw_inv_def flags_ok_def)

text \<open>Every error branch of a report.\<close>

lemma svc05_report_errors:
  "\<not> event_id_ok (ucast eid) \<Longrightarrow> svc05_report eid sev aux s = Some (PUS_ERR_UNKNOWN_EVENT, s)"
  "event_id_ok (ucast eid) \<Longrightarrow> sev < 1 \<or> 4 < sev \<Longrightarrow>
     svc05_report eid sev aux s = Some (PUS_ERR_BAD_PARAMETER, s)"
  by (auto simp: svc05_report_def svc05_id_valid_iff)

lemma svc05_report_refines:
  assumes inv: "obsw_inv s" and eid: "event_id_ok (ucast eid)" and sev: "1 \<le> sev" "sev \<le> 4"
  shows "refines (svc05_report eid sev aux s) (sp_event (ucast eid) sev aux (obsw_abs s))"
proof -
  have get: "arr_get (svc05_enabled s) (event_index (ucast eid))
      = Some (svc05_enabled s ! event_index (ucast eid))"
    using event_index_less [OF eid] inv_ev_length [OF inv] by (simp add: arr_get_in)
  have flag: "sp_ev (obsw_abs s) (ucast eid) \<longleftrightarrow> svc05_enabled s ! event_index (ucast eid) \<noteq> 0"
    using ev_flag_index [OF eid] by (simp add: obsw_abs_def)
  show ?thesis
    using pus_tm_send_refines [OF inv holds_octets, of 4 "event_data (ucast eid) aux" 5 sev] inv sev eid
    by (auto simp: svc05_report_def svc05_id_valid_iff get sp_event_def flag event_data_def
        pus_put_u16_in overwrite_octets_append overwrite_fresh Let_def not_less)
qed

text \<open>The two loops over the list.\<close>

lemma words16_nth:
  "length bs = 2 * n \<Longrightarrow> words16 bs = map (\<lambda>i. of_be16 (bs ! (2 * i)) (bs ! (2 * i + 1))) [0..<n]"
proof (induction bs arbitrary: n rule: words16.induct)
  case (1 a b bs)
  then obtain m where n: "n = Suc m" and m: "length bs = 2 * m"
    by (cases n) auto
  have "map (\<lambda>i. of_be16 ((a # b # bs) ! (2 * i)) ((a # b # bs) ! (2 * i + 1))) [0..<Suc m]
      = of_be16 a b # map (\<lambda>i. of_be16 (bs ! (2 * i)) (bs ! (2 * i + 1))) [0..<m]"
    by (simp add: upt_conv_Cons map_Suc_upt [symmetric] comp_def del: upt_Suc)
  then show ?case
    using "1.IH" [OF m] n by simp
qed auto

lemma event_octets:
  assumes "length app = 1 + 2 * n" and "i < n"
  shows "pus_get_u16 (octets app @ rest) (1 + i * 2) = Some (words16 (tl app) ! i)"
proof -
  obtain c ids where app: "app = c # ids" and ids: "length ids = 2 * n"
    using assms(1) by (cases app) auto
  have "pus_get_u16 (octets app @ rest) (1 + i * 2)
      = Some (of_be16 (app ! (1 + i * 2)) (app ! (1 + i * 2 + 1)))"
    using assms by (intro pus_get_u16_prefix) simp
  then show ?thesis
    using assms(2) by (simp add: app words16_nth [OF ids] mult.commute)
qed

lemma length_words16: "length bs = 2 * n \<Longrightarrow> length (words16 bs) = n"
  by (simp add: words16_nth)

lemma svc05_check_loop_in:
  assumes "length app = 1 + 2 * m" and "i + n \<le> m"
  shows "svc05_check_loop (octets app @ rest) i n
       = Some (list_all event_id_ok (take n (drop i (words16 (tl app)))))"
  using assms(2)
proof (induction n arbitrary: i)
  case 0
  then show ?case by simp
next
  case (Suc n)
  have "length (words16 (tl app)) = m"
    using assms(1) by (intro length_words16) simp
  then have "drop i (words16 (tl app)) = words16 (tl app) ! i # drop (Suc i) (words16 (tl app))"
    using Suc.prems by (simp add: Cons_nth_drop_Suc)
  moreover have "svc05_check_loop (octets app @ rest) (Suc i) n
      = Some (list_all event_id_ok (take n (drop (Suc i) (words16 (tl app)))))"
    using Suc by simp
  ultimately show ?case
    using event_octets [OF assms(1), of i rest] Suc.prems by (simp add: svc05_id_valid_iff)
qed

definition write_flags :: "u16 list \<Rightarrow> pus_bool_t \<Rightarrow> pus_bool_t list \<Rightarrow> pus_bool_t list" where
  "write_flags ids v flags = foldl (\<lambda>fl eid. fl[event_index eid := v]) flags ids"

lemma svc05_write_loop_in:
  assumes "length app = 1 + 2 * m" and "i + n \<le> m" and "length flags = 8"
    and "list_all event_id_ok (words16 (tl app))"
  shows "svc05_write_loop (octets app @ rest) i n v flags
       = Some (write_flags (take n (drop i (words16 (tl app)))) v flags)"
  using assms(2,3)
proof (induction n arbitrary: i flags)
  case 0
  then show ?case by (simp add: write_flags_def)
next
  case (Suc n)
  let ?ids = "words16 (tl app)"
  have len: "length ?ids = m"
    using assms(1) by (intro length_words16) simp
  then have d: "drop i ?ids = ?ids ! i # drop (Suc i) ?ids"
    using Suc.prems by (simp add: Cons_nth_drop_Suc)
  have "event_index (?ids ! i) < 8"
    using assms(4) len Suc.prems by (intro event_index_less) (simp add: list_all_length)
  then show ?case
    using event_octets [OF assms(1), of i rest] Suc
    by (simp add: d arr_set_in write_flags_def)
qed

lemma write_flags_ok: "flags_ok 8 flags \<Longrightarrow> v \<in> {0, 1} \<Longrightarrow> flags_ok 8 (write_flags ids v flags)"
proof (induction ids arbitrary: flags)
  case Nil
  then show ?case by (simp add: write_flags_def)
next
  case (Cons eid ids)
  have "flags_ok 8 (flags[event_index eid := v])"
    using Cons.prems set_update_subset_insert [of flags "event_index eid" v]
    by (auto simp: flags_ok_def)
  then show ?case
    using Cons by (simp add: write_flags_def)
qed

lemma write_flags_flag:
  "length flags = 8 \<Longrightarrow> list_all event_id_ok ids \<Longrightarrow>
   ev_flag (write_flags ids v flags) = set_flags ids (v \<noteq> 0) (ev_flag flags)"
proof (induction ids arbitrary: flags)
  case Nil
  then show ?case by (simp add: write_flags_def set_flags_def fun_eq_iff)
next
  case (Cons eid ids)
  have "ev_flag (flags[event_index eid := v]) x = (if x = eid then v \<noteq> 0 else ev_flag flags x)" for x
  proof (cases "event_id_ok x")
    case True
    have "event_index x = event_index eid \<longleftrightarrow> x = eid"
      using True Cons.prems(2) by (auto simp: event_index_ok event_id_ok_def word_unat_eq_iff)
    then show ?thesis
      using True Cons.prems event_index_less [of eid]
      by (auto simp: ev_flag_index nth_list_update)
  next
    case False
    then show ?thesis
      using Cons.prems by (auto simp: ev_flag_not_ok)
  qed
  then show ?case
    using Cons by (auto simp: write_flags_def set_flags_def fun_eq_iff)
qed

lemma svc05_set_enabled_refines:
  assumes inv: "obsw_inv s" and tc: "tc_ok tc" and v: "v \<in> {0, 1}"
  shows "refines (svc05_set_enabled tc v s) (sp_set_events (tc_app (tc_abs tc)) (v \<noteq> 0) (obsw_abs s))"
proof (cases "tc_app (tc_abs tc)")
  case Nil
  then show ?thesis
    using inv tc_ok_app(1) [OF tc]
    by (auto simp: svc05_set_enabled_def sp_set_events_def event_list_verdict_def)
next
  case (Cons count ids)
  let ?app = "count # ids"
  have len: "app_data_len tc = length ?app"
    using tc_ok_app(1) [OF tc] Cons by simp
  then obtain rest where p: "app_data tc = Some (octets ?app @ rest)"
    using tc_ok_app(2) [OF tc] Cons by auto
  have get: "pus_get_u8 (octets ?app @ rest) 0 = Some count"
    by (simp add: pus_get_u8_prefix)
  show ?thesis
  proof (cases "length ids = 2 * unat count \<and> count \<noteq> 0 \<and> list_all event_id_ok (words16 ids)")
    case True
    then have l: "length ?app = 1 + 2 * unat count"
      by simp
    have check: "svc05_check_loop (octets ?app @ rest) 0 (unat count) = Some True"
      using svc05_check_loop_in [OF l, of 0 "unat count" rest] True length_words16 [of ids] by simp
    have ev: "length (svc05_enabled s) = 8"
      using inv by (rule inv_ev_length)
    have wr: "svc05_write_loop (octets ?app @ rest) 0 (unat count) v (svc05_enabled s)
        = Some (write_flags (words16 ids) v (svc05_enabled s))"
      using svc05_write_loop_in [OF l _ ev, of 0 "unat count" rest v] True length_words16 [of ids]
      by simp
    have run: "svc05_set_enabled tc v s
        = Some (PUS_OK, s\<lparr> svc05_enabled := write_flags (words16 ids) v (svc05_enabled s) \<rparr>)"
      using True len by (simp add: svc05_set_enabled_def p get check wr mult.commute)
    show ?thesis
      unfolding run using inv True v ev
      by (intro refines_Some)
        (simp_all add: obsw_inv_def write_flags_ok sp_set_events_def event_list_verdict_def Cons
          obsw_abs_def write_flags_flag)
  next
    case False
    then have "svc05_set_enabled tc v s = Some (event_list_verdict ?app, s)"
      using len svc05_check_loop_in [of ?app "unat count" 0 "unat count" rest] length_words16 [of ids]
      by (auto simp: svc05_set_enabled_def p get event_list_verdict_def mult.commute)
    moreover have "event_list_verdict ?app \<noteq> PUS_OK"
      using False by (auto simp: event_list_verdict_def)
    ultimately show ?thesis
      using inv by (auto simp: sp_set_events_def Cons)
  qed
qed

lemma svc05_handle_NULL: "svc05_handle None s = Some (PUS_ERR_NULL, s)"
  by (simp add: svc05_handle_def)

lemma svc05_handle_refines:
  assumes "obsw_inv s" and "tc_ok tc"
  shows "refines (svc05_handle (Some tc) s) (sp_svc05 (tc_abs tc) (obsw_abs s))"
proof -
  have "service_subtype tc = tc_subtype (tc_abs tc)"
    by (simp add: tc_abs_def)
  then show ?thesis
    using svc05_set_enabled_refines [OF assms, of 0] svc05_set_enabled_refines [OF assms, of 1] assms
    by (auto simp: svc05_handle_def sp_svc05_def)
qed

lemma svc05_init_refines:
  assumes "obsw_inv s"
  shows "refines (svc05_init s) ((), (obsw_abs s)\<lparr> sp_ev := event_id_ok \<rparr>)"
proof -
  have "ev_flag (replicate 8 1) = event_id_ok"
    by (auto simp: ev_flag_def event_id_ok_def fun_eq_iff)
  then show ?thesis
    using assms inv_ev_length [OF assms]
    by (auto simp: svc05_init_def fill_array_in obsw_inv_def flags_ok_def obsw_abs_def)
qed


section \<open>Properties\<close>

lemma svc05_is_enabled_abs:
  assumes "obsw_inv s"
  shows "svc05_is_enabled eid s = Some (of_bool (sp_ev (obsw_abs s) (ucast eid)))"
proof (cases "event_id_ok (ucast eid)")
  case True
  let ?i = "event_index (ucast eid)"
  have i: "?i < length (svc05_enabled s)"
    using event_index_less [OF True] inv_ev_length [OF assms] by simp
  have "set (svc05_enabled s) \<subseteq> {0, 1}"
    using assms by (simp add: obsw_inv_def flags_ok_def)
  then have "svc05_enabled s ! ?i \<in> {0, 1}"
    using nth_mem [OF i] by blast
  then show ?thesis
    using True i ev_flag_index [OF True, of "svc05_enabled s"]
    by (auto simp: svc05_is_enabled_def svc05_id_valid_iff arr_get_in obsw_abs_def)
next
  case False
  then show ?thesis
    by (simp add: svc05_is_enabled_def svc05_id_valid_iff obsw_abs_def ev_flag_not_ok)
qed

text \<open>The identifiers the handler lets pass: the six events, and two that name none.\<close>

lemma event_id_ok_cases: "event_id_ok eid \<longleftrightarrow> eid \<in> {1, 2, 3, 4, 5, 6} \<or> eid \<in> {7, 8}"
  by (auto simp: event_id_ok_def word_unat_eq_iff)

lemma event_list_verdict_defined:
  assumes "set (words16 (tl app)) \<inter> {7, 8} = {}"
  shows "event_list_verdict app =
    (if app = [] \<or> length app \<noteq> 1 + 2 * unat (hd app) then PUS_ERR_BAD_LENGTH
     else if hd app = 0 then PUS_ERR_BAD_PARAMETER
     else if set (words16 (tl app)) \<subseteq> {1, 2, 3, 4, 5, 6} then PUS_OK
     else PUS_ERR_UNKNOWN_EVENT)"
proof (cases app)
  case Nil
  then show ?thesis
    by (simp add: event_list_verdict_def)
next
  case (Cons count ids)
  then have "list_all event_id_ok (words16 ids) \<longleftrightarrow> set (words16 ids) \<subseteq> {1, 2, 3, 4, 5, 6}"
    using assms unfolding list_all_iff event_id_ok_cases by auto
  then show ?thesis
    using Cons by (simp add: event_list_verdict_def)
qed

text \<open>
  C30: An enable or disable command of service 5 is all or nothing, whatever its octets are: either
  it succeeds, and the flags of the events it names, and nothing else, take the commanded value,
  or the state is as before. The verdict is the one the interface asks for, for every list without
  the identifiers 7 and 8: the list must have the length it announces, not be empty and name only
  the events 1 to 6. Lists with 7 or 8 are left out because the handler takes these two for
  events, although there are none (svc05_accepts_undefined_events).
\<close>

theorem svc05_configure:
  assumes inv: "obsw_inv s" and tc: "tc_ok tc" and sub: "service_subtype tc = 5 \<or> service_subtype tc = 6"
  shows "\<exists>st s'. svc05_handle (Some tc) s = Some (st, s') \<and>
    (let app = tc_app (tc_abs tc); ids = words16 (tl app)
     in (if st = PUS_OK
         then obsw_abs s' = (obsw_abs s)\<lparr> sp_ev := sp_ev (obsw_abs s') \<rparr> \<and>
           (\<forall>eid. svc05_is_enabled eid s' =
             (if ucast eid \<in> set ids then Some (of_bool (service_subtype tc = 6)) else svc05_is_enabled eid s))
         else obsw_abs s' = obsw_abs s) \<and>
        (set ids \<inter> {7, 8} = {} \<longrightarrow>
          st = (if app = [] \<or> length app \<noteq> 1 + 2 * unat (hd app) then PUS_ERR_BAD_LENGTH
                else if hd app = 0 then PUS_ERR_BAD_PARAMETER
                else if set ids \<subseteq> {1, 2, 3, 4, 5, 6} then PUS_OK
                else PUS_ERR_UNKNOWN_EVENT)))"
proof -
  let ?app = "tc_app (tc_abs tc)" and ?v = "service_subtype tc = 6"
  have "tc_subtype (tc_abs tc) = service_subtype tc"
    by (simp add: tc_abs_def)
  then have spec: "sp_svc05 (tc_abs tc) (obsw_abs s) = sp_set_events ?app ?v (obsw_abs s)"
    using sub by (auto simp: sp_svc05_def)
  have verdict: "fst (sp_set_events ?app ?v (obsw_abs s)) = event_list_verdict ?app"
    by (simp add: sp_set_events_def)
  obtain s' where s': "svc05_handle (Some tc) s = Some (event_list_verdict ?app, s')"
      "obsw_inv s'" "obsw_abs s' = snd (sp_set_events ?app ?v (obsw_abs s))"
    using refinesE [OF svc05_handle_refines [OF inv tc]] unfolding spec verdict by blast
  have "if event_list_verdict ?app = PUS_OK
    then obsw_abs s' = (obsw_abs s)\<lparr> sp_ev := sp_ev (obsw_abs s') \<rparr> \<and>
      (\<forall>eid. svc05_is_enabled eid s' =
        (if ucast eid \<in> set (words16 (tl ?app)) then Some (of_bool ?v) else svc05_is_enabled eid s))
    else obsw_abs s' = obsw_abs s"
  proof (cases "event_list_verdict ?app = PUS_OK")
    case True
    then have abs: "obsw_abs s' = (obsw_abs s)\<lparr> sp_ev := set_flags (words16 (tl ?app)) ?v (sp_ev (obsw_abs s)) \<rparr>"
      using s'(3) by (simp add: sp_set_events_def)
    then have "svc05_is_enabled eid s' =
        (if ucast eid \<in> set (words16 (tl ?app)) then Some (of_bool ?v) else svc05_is_enabled eid s)" for eid
      unfolding svc05_is_enabled_abs [OF s'(2)] svc05_is_enabled_abs [OF inv] by (simp add: set_flags_def)
    then show ?thesis
      unfolding abs using True by simp
  next
    case False
    then show ?thesis
      using s'(3) by (simp add: sp_set_events_def)
  qed
  then show ?thesis
    using s'(1) event_list_verdict_defined [of ?app] unfolding Let_def by blast
qed

text \<open>A decoded telecommand with given application data, for concrete instances.\<close>

definition example_tc :: "u8 \<Rightarrow> u8 \<Rightarrow> u8 list \<Rightarrow> pus_tc_t" where
  "example_tc svc sub app = \<lparr> prim = header_of [], pus_version = 2, ack_flags = 9, service_type = svc,
     service_subtype = sub, source_id = 1, app_data = Some (octets app),
     app_data_len = length app, request_id = 0 \<rparr>"

lemma example_tc [simp]:
  "tc_ok (example_tc svc sub app)" "tc_app (tc_abs (example_tc svc sub app)) = app"
  "service_subtype (example_tc svc sub app) = sub" "tc_subtype (tc_abs (example_tc svc sub app)) = sub"
  by (auto simp: example_tc_def tc_ok_def tc_abs_def octets_def)

lemma svc05_configure_witness:
  "\<exists>s'. svc05_handle (Some (example_tc 5 6 [2, 0, 1, 0, 6])) power_on = Some (PUS_OK, s') \<and>
     svc05_is_enabled 6 s' = Some 1 \<and> svc05_is_enabled 2 s' = svc05_is_enabled 2 power_on"
proof -
  have "words16 [0, 1, 0, 6] = [1, 6]"
    by code_simp
  then show ?thesis
    using svc05_configure [OF obsw_inv_power_on, of "example_tc 5 6 [2, 0, 1, 0, 6]"] by (auto simp: Let_def)
qed

text \<open>
  A report of an event that is switched off changes nothing and is not an error; an event
  that is switched on leaves exactly one message of service 5 with the severity as its subtype
  and the identifier and the parameter as its data, or is counted as lost.
\<close>

theorem svc05_report_gate:
  assumes inv: "obsw_inv s" and eid: "event_id_ok (ucast eid)" and sev: "1 \<le> sev" "sev \<le> 4"
  shows "\<exists>st s'. svc05_report eid sev aux s = Some (st, s') \<and>
    (if svc05_is_enabled eid s = Some 0 then st = PUS_OK \<and> s' = s
     else if length (sp_queue (obsw_abs s)) < 16
     then st = PUS_OK \<and> (\<exists>m. sp_queue (obsw_abs s') = sp_queue (obsw_abs s) @ [m] \<and>
       m_service m = 5 \<and> m_subtype m = sev \<and> m_data m = be16 (ucast eid) @ be16 aux)
     else st = PUS_ERR_QUEUE_FULL \<and> sp_drops (obsw_abs s') = sat_inc (sp_drops (obsw_abs s)))"
proof (cases "sp_ev (obsw_abs s) (ucast eid)")
  case False
  have i: "event_index (ucast eid) < length (svc05_enabled s)"
    using event_index_less [OF eid] inv_ev_length [OF inv] by simp
  moreover have "sev \<noteq> 0"
    using sev(1) by auto
  ultimately have "svc05_report eid sev aux s = Some (PUS_OK, s)"
    using False eid sev ev_flag_index [OF eid, of "svc05_enabled s"]
    by (simp add: svc05_report_def svc05_id_valid_iff arr_get_in obsw_abs_def not_less)
  then show ?thesis
    using False inv by (simp add: svc05_is_enabled_abs)
next
  case True
  obtain s' where "svc05_report eid sev aux s
        = Some (fst (emit 5 sev (event_data (ucast eid) aux) (obsw_abs s)), s')"
      "obsw_abs s' = snd (emit 5 sev (event_data (ucast eid) aux) (obsw_abs s))"
    using refinesE [OF svc05_report_refines [OF inv eid sev, of aux]] True by (auto simp: sp_event_def)
  then show ?thesis
    using True inv by (simp add: svc05_is_enabled_abs emit_def stamp_def event_data_def Let_def)
qed

lemma svc05_report_gate_witness:
  "svc05_report OBC_EVT_TEMP_ALARM 4 400 power_on = Some (PUS_OK, power_on)"
proof -
  have "svc05_is_enabled 6 power_on = Some 0"
    by code_simp
  then show ?thesis
    using svc05_report_gate [OF obsw_inv_power_on, of 6 4 400] by (simp add: event_id_ok_def)
qed

text \<open>
  The identifiers 7 and 8, which name no event, are accepted by the enable and disable
  commands.
\<close>

theorem svc05_accepts_undefined_events:
  fixes eid :: u8
  assumes "obsw_inv s" and "eid = 7 \<or> eid = 8"
  shows "\<exists>s'. svc05_handle (Some (example_tc 5 6 [1, 0, eid])) s = Some (PUS_OK, s') \<and>
    svc05_is_enabled (ucast eid) s' = Some 1"
proof -
  let ?tc = "example_tc 5 6 [1, 0, eid]" and ?a = "obsw_abs s"
  have "event_list_verdict [1, 0, 7] = PUS_OK" "event_list_verdict [1, 0, 8] = PUS_OK"
      "words16 [0, 7] = [7]" "words16 [0, 8] = [8]"
    by code_simp+
  then have "event_list_verdict [1, 0, eid] = PUS_OK" "words16 [0, eid] = [ucast eid]"
    using assms(2) by auto
  then have spec: "sp_svc05 (tc_abs ?tc) ?a = (PUS_OK, ?a\<lparr> sp_ev := set_flags [ucast eid] True (sp_ev ?a) \<rparr>)"
    by (simp add: sp_svc05_def sp_set_events_def)
  have "tc_ok ?tc"
    by simp
  from svc05_handle_refines [OF assms(1) this] obtain s' where "svc05_handle (Some ?tc) s = Some (PUS_OK, s')"
      "obsw_inv s'" "obsw_abs s' = ?a\<lparr> sp_ev := set_flags [ucast eid] True (sp_ev ?a) \<rparr>"
    unfolding spec by (auto elim: refinesE)
  moreover have "(ucast (ucast eid :: u32) :: u16) = ucast eid"
    using assms(2) by auto
  ultimately show ?thesis
    by (simp add: svc05_is_enabled_abs set_flags_def)
qed

lemma svc05_accepts_undefined_events_witness:
  "\<exists>s'. svc05_handle (Some (example_tc 5 6 [1, 0, 7])) power_on = Some (PUS_OK, s') \<and>
    svc05_is_enabled 7 s' = Some 1"
  using svc05_accepts_undefined_events [OF obsw_inv_power_on, of 7] by simp

end
