(* ===== verification/Obc_Mode.thy ===== *)
theory Obc_Mode
  imports Svc05
begin

text \<open>
  The operating mode, the survival heater and the thermal control law of \<open>src/obc_app.c\<close>:
  the part of the application layer the services call back into, below the dispatcher.
\<close>

section \<open>The code\<close>

definition obc_get_state :: "obsw \<Rightarrow> obc_state_t" where
  "obc_get_state s = s_state s"

definition obc_reset_counters :: "obsw \<Rightarrow> (unit \<times> obsw) option" where
  "obc_reset_counters s = Some ((), s\<lparr> s_state := (s_state s)\<lparr>
     tc_accepted := 0, tc_rejected := 0, last_failure_code := 0 \<rparr> \<rparr>)"

definition obc_apply_heater :: "pus_bool_t \<Rightarrow> obsw \<Rightarrow> (unit \<times> obsw) option" where
  "obc_apply_heater on s =
     (if on = heater_on (s_state s) then Some ((), s)
      else do {
        let s = s\<lparr> hal := hal_set_heater on (hal s) \<rparr>;
        let s = s\<lparr> s_state := (s_state s)\<lparr> heater_on := on \<rparr> \<rparr>;
        (_, s) \<leftarrow> svc05_report OBC_EVT_HEATER_SWITCHED PUS_ST05_INFORMATIVE (ucast on) s;
        Some ((), s) })"

definition obc_set_heater :: "pus_bool_t \<Rightarrow> obsw \<Rightarrow> (pus_status_t \<times> obsw) option" where
  "obc_set_heater on s =
     (if mode (s_state s) = OBC_MODE_SAFE then Some (PUS_ERR_NOT_PERMITTED, s)
      else do {
        (_, s) \<leftarrow> obc_apply_heater (if on \<noteq> PUS_FALSE then PUS_TRUE else PUS_FALSE) s;
        Some (PUS_OK, s) })"

definition obc_set_mode :: "obc_mode_t \<Rightarrow> obsw \<Rightarrow> (pus_status_t \<times> obsw) option" where
  "obc_set_mode m s =
     (if m \<noteq> OBC_MODE_SAFE \<and> m \<noteq> OBC_MODE_NOMINAL then Some (PUS_ERR_BAD_PARAMETER, s)
      else if m = mode (s_state s) then Some (PUS_OK, s)
      else do {
        let s = s\<lparr> s_state := (s_state s)\<lparr> mode := m \<rparr> \<rparr>;
        (_, s) \<leftarrow> (if m = OBC_MODE_SAFE then obc_apply_heater PUS_FALSE s else Some ((), s));
        (_, s) \<leftarrow> svc05_report OBC_EVT_MODE_CHANGED PUS_ST05_INFORMATIVE (ucast m) s;
        Some (PUS_OK, s) })"

definition obc_thermal_control :: "obsw \<Rightarrow> (unit \<times> obsw) option" where
  "obc_thermal_control s = do {
     let t = temperature_dc (s_state s);
     (_, s) \<leftarrow>
       (if mode (s_state s) = OBC_MODE_NOMINAL then
          if sint t \<ge> OBC_TEMP_ALARM_DC then do {
            (_, s) \<leftarrow>
              (if s_alarm_latched s = PUS_FALSE then do {
                 let s = s\<lparr> s_alarm_latched := PUS_TRUE \<rparr>;
                 (_, s) \<leftarrow> svc05_report OBC_EVT_TEMP_ALARM PUS_ST05_HIGH_SEVERITY t s;
                 Some ((), s) }
               else Some ((), s));
            (_, s) \<leftarrow> obc_set_mode OBC_MODE_SAFE s;
            Some ((), s) }
          else if sint t \<ge> OBC_TEMP_HEATER_OFF_DC then obc_apply_heater PUS_FALSE s
          else if sint t \<le> OBC_TEMP_HEATER_ON_DC then obc_apply_heater PUS_TRUE s
          else Some ((), s)
        else obc_apply_heater PUS_FALSE s);
     Some ((), if sint t < OBC_TEMP_HEATER_OFF_DC then s\<lparr> s_alarm_latched := PUS_FALSE \<rparr> else s) }"

section \<open>Specifications\<close>

definition sp_reset_counters :: "spec \<Rightarrow> spec" where
  "sp_reset_counters a = a\<lparr> sp_accepted := 0, sp_rejected := 0, sp_failure := 0 \<rparr>"

definition sp_switch_heater :: "bool \<Rightarrow> spec \<Rightarrow> spec" where
  "sp_switch_heater on a =
     (if on = sp_heater a then a
      else snd (sp_event 5 1 (of_bool on)
        (a\<lparr> sp_hal := hal_set_heater (of_bool on) (sp_hal a), sp_heater := on \<rparr>)))"

definition sp_set_heater :: "bool \<Rightarrow> spec \<Rightarrow> pus_status_t \<times> spec" where
  "sp_set_heater on a =
     (if sp_mode a = Safe then (PUS_ERR_NOT_PERMITTED, a) else (PUS_OK, sp_switch_heater on a))"

definition mode_code :: "opmode \<Rightarrow> u16" where
  "mode_code m = (case m of Safe \<Rightarrow> 0 | Nominal \<Rightarrow> 1)"

definition sp_set_mode :: "opmode \<Rightarrow> spec \<Rightarrow> spec" where
  "sp_set_mode m a =
     (if m = sp_mode a then a
      else let b = a\<lparr> sp_mode := m \<rparr>;
               c = (if m = Safe then sp_switch_heater False b else b)
           in snd (sp_event 2 1 (mode_code m) c))"

definition sp_thermal :: "spec \<Rightarrow> spec" where
  "sp_thermal a =
     (let t = sint (sp_temp a);
          b = (if sp_mode a = Nominal then
                 if t \<ge> 400 then
                   sp_set_mode Safe
                     (if sp_alarm a then a
                      else snd (sp_event 6 4 (sp_temp a) (a\<lparr> sp_alarm := True \<rparr>)))
                 else if t \<ge> 250 then sp_switch_heater False a
                 else if t \<le> 50 then sp_switch_heater True a
                 else a
               else sp_switch_heater False a)
      in if t < 250 then b\<lparr> sp_alarm := False \<rparr> else b)"

section \<open>Refinement\<close>

lemma refines_event:
  assumes "obsw_inv s" and "eid \<in> {1, 2, 3, 4, 5, 6}" and "sev \<in> {1, 2, 4}"
  shows "refines (svc05_report eid sev aux s) (sp_event (ucast eid) sev aux (obsw_abs s))"
  using assms by (intro svc05_report_refines) (auto simp: event_id_ok_def)

lemma refines_void:
  assumes "refines m (r, a)"
  shows "refines (do { (_, s) \<leftarrow> m; Some (x, s) }) (x, a)"
  using assms by (auto simp: refines_def)

lemma refines_discard:
  assumes "refines m a"
  shows "refines (do { (_, s) \<leftarrow> m; Some (x, s) }) (x, snd a)"
  using assms by (auto simp: refines_def)

text \<open>Reporting an event and ignoring the status, as every caller in the application does.\<close>

lemma refines_report:
  assumes "obsw_inv s" and "eid \<in> {1, 2, 3, 4, 5, 6}" and "sev \<in> {1, 2, 4}"
    and "a = (x, snd (sp_event (ucast eid) sev aux (obsw_abs s)))"
  shows "refines (do { (_, s) \<leftarrow> svc05_report eid sev aux s; Some (x, s) }) a"
  unfolding assms(4) by (intro refines_discard refines_event assms)

lemma obc_reset_counters_refines:
  "obsw_inv s \<Longrightarrow> refines (obc_reset_counters s) ((), sp_reset_counters (obsw_abs s))"
  by (auto simp: obc_reset_counters_def sp_reset_counters_def obsw_inv_def obsw_abs_def)

lemma obc_apply_heater_refines:
  assumes inv: "obsw_inv s" and on: "v = of_bool on"
  shows "refines (obc_apply_heater v s) ((), sp_switch_heater on (obsw_abs s))"
proof (cases "v = heater_on (s_state s)")
  case True
  then show ?thesis
    using inv on by (auto simp: obc_apply_heater_def sp_switch_heater_def obsw_abs_def)
next
  case False
  let ?s = "s\<lparr> hal := hal_set_heater v (hal s), s_state := (s_state s)\<lparr> heater_on := v \<rparr> \<rparr>"
  have "heater_on (s_state s) \<in> {0, 1}"
    using inv by (simp add: obsw_inv_def)
  then have ne: "on \<noteq> sp_heater (obsw_abs s)"
    using False on by (auto simp: obsw_abs_def)
  have "obsw_inv ?s"
    using inv on by (simp add: obsw_inv_def)
  then have "refines (svc05_report 5 1 (ucast v) ?s) (sp_event (ucast (5 :: u32)) 1 (ucast v) (obsw_abs ?s))"
    by (rule refines_event) simp_all
  moreover have "obsw_abs ?s
      = (obsw_abs s)\<lparr> sp_hal := hal_set_heater (of_bool on) (sp_hal (obsw_abs s)), sp_heater := on \<rparr>"
    using on by (simp add: obsw_abs_def)
  moreover have "(ucast v :: u16) = of_bool on"
    using on by simp
  ultimately have "refines (svc05_report 5 1 (ucast v) ?s)
      (fst (sp_event 5 1 (of_bool on) (obsw_abs ?s)), sp_switch_heater on (obsw_abs s))"
    using ne by (simp add: sp_switch_heater_def)
  then show ?thesis
    using False by (simp add: obc_apply_heater_def Let_def refines_void)
qed

lemma obc_set_heater_refines:
  assumes "obsw_inv s"
  shows "refines (obc_set_heater v s) (sp_set_heater (v \<noteq> 0) (obsw_abs s))"
proof -
  have m: "sp_mode (obsw_abs s) = Safe \<longleftrightarrow> mode (s_state s) = 0"
    by (simp add: obsw_abs_def mode_of_def)
  have "refines (obc_apply_heater (if v \<noteq> 0 then 1 else 0) s) ((), sp_switch_heater (v \<noteq> 0) (obsw_abs s))"
    using assms by (intro obc_apply_heater_refines) simp_all
  then show ?thesis
    using assms by (auto simp: obc_set_heater_def sp_set_heater_def m intro: refines_void)
qed

lemma obc_set_mode_bad:
  "m \<noteq> 0 \<Longrightarrow> m \<noteq> 1 \<Longrightarrow> obc_set_mode m s = Some (PUS_ERR_BAD_PARAMETER, s)"
  by (simp add: obc_set_mode_def)

lemma obc_set_mode_refines:
  assumes inv: "obsw_inv s" and m: "m = 0 \<or> m = 1"
  shows "refines (obc_set_mode m s) (PUS_OK, sp_set_mode (mode_of m) (obsw_abs s))"
proof (cases "m = mode (s_state s)")
  case True
  then show ?thesis
    using inv m by (auto simp: obc_set_mode_def sp_set_mode_def obsw_abs_def)
next
  case False
  let ?s = "s\<lparr> s_state := (s_state s)\<lparr> mode := m \<rparr> \<rparr>"
  let ?c = "if m = 0 then sp_switch_heater False (obsw_abs ?s) else obsw_abs ?s"
  have inv': "obsw_inv ?s"
    using inv m by (auto simp: obsw_inv_def)
  have heat: "refines (if m = 0 then obc_apply_heater 0 ?s else Some ((), ?s)) ((), ?c)"
    using inv' by (auto intro: obc_apply_heater_refines)
  have "refines (obc_set_mode m s) (PUS_OK, snd (sp_event 2 1 (ucast m) ?c))"
  proof -
    have "refines (do {
        (_, s) \<leftarrow> (if m = 0 then obc_apply_heater 0 ?s else Some ((), ?s));
        (_, s) \<leftarrow> svc05_report 2 1 (ucast m) s;
        Some (PUS_OK, s) }) (PUS_OK, snd (sp_event 2 1 (ucast m) ?c))"
      by (rule refines_bind [OF heat]) (auto intro!: refines_report)
    then show ?thesis
      using m False by (auto simp: obc_set_mode_def Let_def)
  qed
  moreover have "sp_set_mode (mode_of m) (obsw_abs s) = snd (sp_event 2 1 (ucast m) ?c)"
  proof -
    have code: "mode_code (mode_of m) = ucast m" and safe: "mode_of m = Safe \<longleftrightarrow> m = 0"
      using m by (auto simp: mode_code_def mode_of_def)
    have abs: "(obsw_abs s)\<lparr> sp_mode := mode_of m \<rparr> = obsw_abs ?s"
      by (simp add: obsw_abs_def)
    have ne: "mode_of m \<noteq> sp_mode (obsw_abs s)"
      using False m inv by (auto simp: obsw_abs_def mode_of_def obsw_inv_def)
    show ?thesis
      unfolding sp_set_mode_def Let_def code abs safe using ne by (simp only: if_False)
  qed
  ultimately show ?thesis
    by (simp only:)
qed

text \<open>The branch above the alarm threshold: one report while the latch is open, then SAFE mode.\<close>

lemma alarm_branch_refines:
  assumes inv: "obsw_inv s"
  shows "refines (do {
      (_, s) \<leftarrow> (if s_alarm_latched s = 0 then do {
          let s = s\<lparr> s_alarm_latched := 1 \<rparr>;
          (_, s) \<leftarrow> svc05_report 6 4 t s;
          Some ((), s) } else Some ((), s));
      (_, s) \<leftarrow> obc_set_mode 0 s;
      Some ((), s) })
    ((), sp_set_mode Safe
      (if sp_alarm (obsw_abs s) then obsw_abs s else snd (sp_event 6 4 t ((obsw_abs s)\<lparr> sp_alarm := True \<rparr>))))"
proof -
  let ?a = "obsw_abs s" and ?s = "s\<lparr> s_alarm_latched := 1 \<rparr>"
  have alarm: "sp_alarm ?a \<longleftrightarrow> s_alarm_latched s \<noteq> 0"
    by (simp add: obsw_abs_def)
  have raise_alarm: "refines (if s_alarm_latched s = 0 then do {
        let s = s\<lparr> s_alarm_latched := 1 \<rparr>;
        (_, s) \<leftarrow> svc05_report 6 4 t s;
        Some ((), s) } else Some ((), s))
      ((), if sp_alarm ?a then ?a else snd (sp_event 6 4 t (?a\<lparr> sp_alarm := True \<rparr>)))"
  proof (cases "s_alarm_latched s = 0")
    case True
    have "obsw_inv ?s" and "obsw_abs ?s = ?a\<lparr> sp_alarm := True \<rparr>"
      using inv by (simp_all add: obsw_inv_def obsw_abs_def)
    then show ?thesis
      using True by (auto simp: alarm Let_def intro!: refines_report)
  next
    case False
    then show ?thesis
      using inv by (auto simp: alarm)
  qed
  have safe: "refines (obc_set_mode 0 s) (PUS_OK, sp_set_mode Safe (obsw_abs s))" if "obsw_inv s" for s
    using obc_set_mode_refines [OF that, of 0] by (simp add: mode_of_def)
  show ?thesis
    by (rule refines_bind [OF raise_alarm]) (auto intro!: refines_void dest: safe)
qed

lemma obc_thermal_control_refines:
  assumes inv: "obsw_inv s"
  shows "refines (obc_thermal_control s) ((), sp_thermal (obsw_abs s))"
proof -
  let ?t = "temperature_dc (s_state s)" and ?a = "obsw_abs s"
  have modes: "mode (s_state s) = 1 \<longleftrightarrow> sp_mode ?a = Nominal"
    using inv by (auto simp: obsw_abs_def mode_of_def obsw_inv_def)
  have temp: "sp_temp ?a = ?t"
    by (simp add: obsw_abs_def)
  let ?alarmed = "if sp_alarm ?a then ?a else snd (sp_event 6 4 ?t (?a\<lparr> sp_alarm := True \<rparr>))"
  let ?b = "if sp_mode ?a = Nominal then
      if sint ?t \<ge> 400 then sp_set_mode Safe ?alarmed
      else if sint ?t \<ge> 250 then sp_switch_heater False ?a
      else if sint ?t \<le> 50 then sp_switch_heater True ?a else ?a
    else sp_switch_heater False ?a"
  have body: "refines
      (if mode (s_state s) = 1 then
         if sint ?t \<ge> 400 then do {
           (_, s) \<leftarrow> (if s_alarm_latched s = 0 then do {
              let s = s\<lparr> s_alarm_latched := 1 \<rparr>;
              (_, s) \<leftarrow> svc05_report 6 4 ?t s;
              Some ((), s) } else Some ((), s));
           (_, s) \<leftarrow> obc_set_mode 0 s;
           Some ((), s) }
         else if sint ?t \<ge> 250 then obc_apply_heater 0 s
         else if sint ?t \<le> 50 then obc_apply_heater 1 s
         else Some ((), s)
       else obc_apply_heater 0 s) ((), ?b)"
    using alarm_branch_refines [OF inv, of ?t] inv unfolding modes
    by (simp add: obc_apply_heater_refines refines_Some del: split_paired_All)
  have latch: "refines (Some ((), if sint ?t < 250 then s'\<lparr> s_alarm_latched := 0 \<rparr> else s'))
      ((), sp_thermal ?a)" if "obsw_inv s'" and b: "obsw_abs s' = ?b" for s'
  proof -
    have "sp_thermal ?a = (if sint ?t < 250 then ?b\<lparr> sp_alarm := False \<rparr> else ?b)"
      unfolding sp_thermal_def Let_def temp by (rule refl)
    also have "\<dots> = obsw_abs (if sint ?t < 250 then s'\<lparr> s_alarm_latched := 0 \<rparr> else s')"
      unfolding b [symmetric] by (simp add: obsw_abs_def)
    finally show ?thesis
      using that(1) by (intro refines_Some) (simp_all add: obsw_inv_def)
  qed
  show ?thesis
    unfolding obc_thermal_control_def Let_def
    by (rule refines_bind [OF body [unfolded Let_def]])
       (simp only: fst_conv snd_conv prod.case latch)
qed


section \<open>Properties\<close>

lemma mode_abs: "obsw_inv s \<Longrightarrow> mode (s_state s) = ucast (mode_code (sp_mode (obsw_abs s)))"
  by (auto simp: obsw_inv_def obsw_abs_def mode_of_def mode_code_def)

lemma heater_abs: "obsw_inv s \<Longrightarrow> heater_on (s_state s) = of_bool (sp_heater (obsw_abs s))"
  by (auto simp: obsw_inv_def obsw_abs_def)

lemma sp_mode_Safe: "sp_mode (obsw_abs s) = Safe \<longleftrightarrow> mode (s_state s) = OBC_MODE_SAFE"
  by (simp add: obsw_abs_def mode_of_def)

lemma alarm_abs: "sp_alarm (obsw_abs s) \<longleftrightarrow> s_alarm_latched s \<noteq> 0"
  by (simp add: obsw_abs_def)

lemma sp_hal_abs: "sp_hal (obsw_abs s) = hal s"
  by (simp add: obsw_abs_def)

lemma sp_event_fields [simp]:
  "sp_hal (snd (sp_event eid sev aux a)) = sp_hal a" "sp_mode (snd (sp_event eid sev aux a)) = sp_mode a"
  "sp_heater (snd (sp_event eid sev aux a)) = sp_heater a" "sp_ev (snd (sp_event eid sev aux a)) = sp_ev a"
  "sp_alarm (snd (sp_event eid sev aux a)) = sp_alarm a" "sp_temp (snd (sp_event eid sev aux a)) = sp_temp a"
  by (simp_all add: sp_event_def emit_def Let_def)

lemma sp_switch_heater_fields [simp]:
  "sp_heater (sp_switch_heater on a) = on" "sp_mode (sp_switch_heater on a) = sp_mode a"
  "sp_ev (sp_switch_heater on a) = sp_ev a" "sp_alarm (sp_switch_heater on a) = sp_alarm a"
  "sp_temp (sp_switch_heater on a) = sp_temp a"
  by (simp_all add: sp_switch_heater_def)

lemma sp_switch_heater_hal:
  "sp_hal (sp_switch_heater on a) =
     (if on = sp_heater a then sp_hal a else hal_set_heater (of_bool on) (sp_hal a))"
  by (simp add: sp_switch_heater_def)

lemma sp_set_mode_fields [simp]:
  "sp_mode (sp_set_mode m a) = m" "sp_alarm (sp_set_mode m a) = sp_alarm a"
  "sp_temp (sp_set_mode m a) = sp_temp a"
  "sp_heater (sp_set_mode m a) = (if m = Safe \<and> sp_mode a \<noteq> Safe then False else sp_heater a)"
  by (simp_all add: sp_set_mode_def Let_def)

text \<open>What a report leaves alone: everything but the queue and the numbering of the messages.\<close>

lemma emit_frame:
  "snd (emit svc sub data a) = a\<lparr>
     sp_queue := sp_queue (snd (emit svc sub data a)), sp_drops := sp_drops (snd (emit svc sub data a)),
     sp_seq := sp_seq (snd (emit svc sub data a)), sp_ctr := sp_ctr (snd (emit svc sub data a)) \<rparr>"
  by (simp add: emit_def Let_def)

definition telemetry_only :: "spec \<Rightarrow> spec \<Rightarrow> bool" where
  "telemetry_only a b \<longleftrightarrow>
     b = a\<lparr> sp_queue := sp_queue b, sp_drops := sp_drops b, sp_seq := sp_seq b, sp_ctr := sp_ctr b \<rparr>"

lemma telemetry_only_emit: "telemetry_only a (snd (emit svc sub data a))"
  unfolding telemetry_only_def by (rule emit_frame)

lemma telemetry_only_refl: "telemetry_only a a"
  by (simp add: telemetry_only_def)

lemma telemetry_only_trans: "telemetry_only a b \<Longrightarrow> telemetry_only b c \<Longrightarrow> telemetry_only a c"
  unfolding telemetry_only_def by (cases a; cases b; cases c) simp

lemma telemetry_only_event: "telemetry_only a (snd (sp_event eid sev aux a))"
  by (simp add: sp_event_def telemetry_only_emit telemetry_only_refl)

text \<open>
  Where the line agrees with the published heater state, as it does in every reachable state,
  switching the heater and changing the mode have these effects, and reports besides.
\<close>

lemma telemetry_only_switch:
  assumes "s_heater_on (sp_hal a) = of_bool (sp_heater a)"
  shows "telemetry_only (a\<lparr> sp_hal := (sp_hal a)\<lparr> s_heater_on := of_bool on \<rparr>, sp_heater := on \<rparr>)
    (sp_switch_heater on a)"
proof (cases "on = sp_heater a")
  case True
  then have "a\<lparr> sp_hal := (sp_hal a)\<lparr> s_heater_on := of_bool on \<rparr>, sp_heater := on \<rparr> = a"
    using assms by (cases a; cases "sp_hal a") simp
  then show ?thesis
    using True telemetry_only_refl [of a] by (simp add: sp_switch_heater_def)
next
  case False
  then show ?thesis
    using telemetry_only_event by (cases on) (simp_all add: sp_switch_heater_def hal_set_heater_def)
qed

lemma telemetry_only_mode:
  assumes line: "s_heater_on (sp_hal a) = of_bool (sp_heater a)" and safe: "sp_mode a = Safe \<longrightarrow> \<not> sp_heater a"
    and h: "h \<longleftrightarrow> m = Nominal \<and> sp_heater a"
  shows "telemetry_only (a\<lparr> sp_mode := m, sp_hal := (sp_hal a)\<lparr> s_heater_on := of_bool h \<rparr>, sp_heater := h \<rparr>)
    (sp_set_mode m a)"
proof (cases "m = sp_mode a")
  case True
  then have "h \<longleftrightarrow> sp_heater a"
    using h safe by (cases m) auto
  then have "a\<lparr> sp_mode := m, sp_hal := (sp_hal a)\<lparr> s_heater_on := of_bool h \<rparr>, sp_heater := h \<rparr> = a"
    using True line by (cases a; cases "sp_hal a") simp
  then show ?thesis
    using True telemetry_only_refl [of a] by (simp add: sp_set_mode_def)
next
  case False
  let ?b = "a\<lparr> sp_mode := m \<rparr>"
  let ?c = "if m = Safe then sp_switch_heater False ?b else ?b"
  have b: "s_heater_on (sp_hal ?b) = of_bool (sp_heater ?b)"
    using line by simp
  have "telemetry_only (?b\<lparr> sp_hal := (sp_hal ?b)\<lparr> s_heater_on := of_bool h \<rparr>, sp_heater := h \<rparr>) ?c"
  proof (cases m)
    case Safe
    then show ?thesis
      using telemetry_only_switch [OF b, of False] h by simp
  next
    case Nominal
    then have "h \<longleftrightarrow> sp_heater a"
      using h by simp
    then have "?b\<lparr> sp_hal := (sp_hal ?b)\<lparr> s_heater_on := of_bool h \<rparr>, sp_heater := h \<rparr> = ?b"
      using line by (cases a; cases "sp_hal a") simp
    then show ?thesis
      using Nominal telemetry_only_refl by simp
  qed
  then show ?thesis
    using False telemetry_only_trans [OF _ telemetry_only_event] by (simp add: sp_set_mode_def Let_def)
qed

text \<open>
  The heater can be commanded only in NOMINAL mode. In SAFE mode the command is refused and
  changes nothing; in NOMINAL mode it succeeds and the mirrored state takes the commanded value,
  and the hardware line with it whenever the value changes.
\<close>

theorem obc_set_heater_interlock:
  assumes inv: "obsw_inv s"
  shows "\<exists>st s'. obc_set_heater v s = Some (st, s') \<and>
    (if mode (s_state s) = OBC_MODE_SAFE then st = PUS_ERR_NOT_PERMITTED \<and> s' = s
     else st = PUS_OK \<and> mode (s_state s') = mode (s_state s) \<and> heater_on (s_state s') = of_bool (v \<noteq> 0) \<and>
       (heater_on (s_state s) = of_bool (v \<noteq> 0) \<or> hal_get_heater (hal s') = of_bool (v \<noteq> 0)))"
proof (cases "mode (s_state s) = 0")
  case True
  then show ?thesis
    by (simp add: obc_set_heater_def)
next
  case False
  let ?a = "obsw_abs s"
  have m: "sp_mode ?a \<noteq> Safe"
    using False by (simp add: obsw_abs_def mode_of_def)
  obtain s' where s': "obc_set_heater v s = Some (PUS_OK, s')" "obsw_inv s'"
      "obsw_abs s' = sp_switch_heater (v \<noteq> 0) ?a"
    using refinesE [OF obc_set_heater_refines [OF inv, of v]] m by (auto simp: sp_set_heater_def)
  have "hal s' = (if (v \<noteq> 0) = sp_heater ?a then hal s else hal_set_heater (of_bool (v \<noteq> 0)) (hal s))"
    using sp_switch_heater_hal [of "v \<noteq> 0" ?a] unfolding s'(3) [symmetric] sp_hal_abs .
  then have "sp_heater ?a = (v \<noteq> 0) \<or> s_heater_on (hal s') = of_bool (v \<noteq> 0)"
    by (auto simp: hal_set_heater_def)
  moreover have "mode (s_state s') = mode (s_state s)" "heater_on (s_state s') = of_bool (v \<noteq> 0)"
    using s'(2,3) inv by (simp_all add: mode_abs heater_abs)
  ultimately show ?thesis
    using False s'(1) heater_abs [OF inv] by (auto simp: hal_get_heater_def)
qed

lemma obc_set_heater_interlock_witness:
  "obc_set_heater 1 power_on = Some (PUS_ERR_NOT_PERMITTED, power_on)"
  using obc_set_heater_interlock [OF obsw_inv_power_on, of 1] by (simp add: power_on_def)

text \<open>
  A mode command with a defined mode succeeds and puts the application in that mode. Asking
  for the current mode changes nothing; entering SAFE mode switches the heater off; an actual
  change is reported by one event with the new mode, when that event is enabled and there is
  room for it behind a heater event.
\<close>

theorem obc_set_mode_effect:
  assumes inv: "obsw_inv s" and m: "m = OBC_MODE_SAFE \<or> m = OBC_MODE_NOMINAL"
  shows "\<exists>s'. obc_set_mode m s = Some (PUS_OK, s') \<and> mode (s_state s') = m \<and>
    (m = mode (s_state s) \<longrightarrow> s' = s) \<and>
    (m = OBC_MODE_SAFE \<and> m \<noteq> mode (s_state s) \<longrightarrow> heater_on (s_state s') = PUS_FALSE) \<and>
    (m \<noteq> mode (s_state s) \<and> sp_ev (obsw_abs s) 2 \<and> s_count (tmq s) < 15 \<longrightarrow>
      m_service (last (sp_queue (obsw_abs s'))) = 5 \<and>
      m_data (last (sp_queue (obsw_abs s'))) = be16 2 @ be16 (ucast m))"
proof (cases "m = mode (s_state s)")
  case True
  then show ?thesis
    using m by (auto simp: obc_set_mode_def)
next
  case False
  let ?a = "obsw_abs s"
  let ?c = "if mode_of m = Safe then sp_switch_heater False (?a\<lparr> sp_mode := Safe \<rparr>)
    else ?a\<lparr> sp_mode := mode_of m \<rparr>"
  obtain s' where s': "obc_set_mode m s = Some (PUS_OK, s')" "obsw_inv s'"
      "obsw_abs s' = sp_set_mode (mode_of m) ?a"
    using refinesE [OF obc_set_mode_refines [OF inv m]] by auto
  have ne: "mode_of m \<noteq> sp_mode ?a"
    using False m inv by (auto simp: obsw_abs_def mode_of_def obsw_inv_def)
  then have c: "sp_set_mode (mode_of m) ?a = snd (sp_event 2 1 (ucast m) ?c)"
    using m by (auto simp: sp_set_mode_def mode_code_def mode_of_def)
  have "length (sp_queue ?c) \<le> length (sp_queue ?a) + 1" and "sp_ev ?c = sp_ev ?a"
    by (simp_all add: sp_switch_heater_def sp_event_def emit_def Let_def)
  moreover have "length (sp_queue ?a) = s_count (tmq s)"
    by (simp add: obsw_abs_def)
  ultimately have "sp_queue (obsw_abs s') = sp_queue ?c @ [stamp 5 1 (event_data 2 (ucast m)) ?c]"
    if "sp_ev ?a 2" "s_count (tmq s) < 15"
    using that unfolding s'(3) c by (simp add: sp_event_def emit_def Let_def)
  moreover have "mode (s_state s') = m" and "m = 0 \<longrightarrow> heater_on (s_state s') = 0"
    using s'(2,3) m ne by (auto simp: mode_abs heater_abs mode_code_def mode_of_def)
  ultimately show ?thesis
    using s'(1) False by (auto simp: stamp_def event_data_def)
qed

lemma obc_set_mode_effect_witness:
  "\<exists>s'. obc_set_mode OBC_MODE_NOMINAL power_on = Some (PUS_OK, s') \<and> mode (s_state s') = OBC_MODE_NOMINAL"
  using obc_set_mode_effect [OF obsw_inv_power_on, of 1] by auto

end
