(* ===== verification/Svc03.thy ===== *)
theory Svc03
  imports Obc_Mode
begin

text \<open>
  Service 3, housekeeping: \<open>include/pus/svc03_housekeeping.h\<close> and
  \<open>src/svc03_housekeeping.c\<close>. The array \<open>s_enabled\<close> of the file is the field
  \<open>svc03_enabled\<close>, the counter \<open>s_phase\<close> is \<open>svc03_phase\<close>. The specifications give the octets
  of the two reports, the verdict on a list of structure identifiers, and what a periodic
  cycle emits.
\<close>

section \<open>The code\<close>

abbreviation (input) PUS_SERVICE_HOUSEKEEPING :: u8 where "PUS_SERVICE_HOUSEKEEPING \<equiv> 3"
abbreviation (input) PUS_ST03_ENABLE :: u8 where "PUS_ST03_ENABLE \<equiv> 5"
abbreviation (input) PUS_ST03_DISABLE :: u8 where "PUS_ST03_DISABLE \<equiv> 6"
abbreviation (input) PUS_ST03_REPORT :: u8 where "PUS_ST03_REPORT \<equiv> 25"
abbreviation (input) PUS_ST03_ONE_SHOT :: u8 where "PUS_ST03_ONE_SHOT \<equiv> 27"
abbreviation (input) OBC_HK_SID_ESSENTIAL :: u8 where "OBC_HK_SID_ESSENTIAL \<equiv> 1"
abbreviation (input) SVC03_SID1_DATA_LEN :: nat where "SVC03_SID1_DATA_LEN \<equiv> 9"
abbreviation (input) SVC03_SID2_DATA_LEN :: nat where "SVC03_SID2_DATA_LEN \<equiv> 10"

definition svc03_sid_valid :: "u8 \<Rightarrow> pus_bool_t" where
  "svc03_sid_valid sid = (if sid \<ge> 1 \<and> sid \<le> of_nat OBC_HK_MAX_STRUCTURES then PUS_TRUE else PUS_FALSE)"

text \<open>The index expression \<open>sid - 1u\<close>, unsigned.\<close>

definition sid_index :: "u8 \<Rightarrow> nat" where
  "sid_index sid = unat (ucast sid - 1 :: u32)"

definition svc03_init :: "obsw \<Rightarrow> (unit \<times> obsw) option" where
  "svc03_init s = do {
     flags \<leftarrow> fill_array (svc03_enabled s) 0 (length (svc03_enabled s)) PUS_FALSE;
     flags \<leftarrow> arr_set flags (sid_index OBC_HK_SID_ESSENTIAL) PUS_TRUE;
     Some ((), s\<lparr> svc03_enabled := flags, svc03_phase := 0 \<rparr>) }"

definition svc03_is_enabled :: "u8 \<Rightarrow> obsw \<Rightarrow> pus_bool_t option" where
  "svc03_is_enabled sid s =
     (if svc03_sid_valid sid = PUS_FALSE then Some PUS_FALSE
      else arr_get (svc03_enabled s) (sid_index sid))"

definition svc03_generate :: "u8 \<Rightarrow> obsw \<Rightarrow> (pus_status_t \<times> obsw) option" where
  "svc03_generate sid s = do {
     let st = obc_get_state s;
     let data = replicate SVC03_SID2_DATA_LEN None;
     if svc03_sid_valid sid = PUS_FALSE then Some (PUS_ERR_UNKNOWN_SID, s)
     else if sid = OBC_HK_SID_ESSENTIAL then do {
       data \<leftarrow> pus_put_u8 data 0 sid;
       data \<leftarrow> pus_put_u8 data 1 (ucast (mode st));
       data \<leftarrow> pus_put_u32 data 2 (uptime_ticks st);
       data \<leftarrow> pus_put_i16 data 6 (temperature_dc st);
       data \<leftarrow> pus_put_u8 data 8 (heater_on st);
       pus_tm_send PUS_SERVICE_HOUSEKEEPING PUS_ST03_REPORT (Some data) SVC03_SID1_DATA_LEN s }
     else do {
       data \<leftarrow> pus_put_u8 data 0 sid;
       data \<leftarrow> pus_put_u16 data 1 (tc_accepted st);
       data \<leftarrow> pus_put_u16 data 3 (tc_rejected st);
       data \<leftarrow> pus_put_u16 data 5 (last_failure_code st);
       data \<leftarrow> pus_put_u8 data 7 (of_nat (tm_queue_count (tmq s)));
       data \<leftarrow> pus_put_u16 data 8 (tm_queue_overflow_count (tmq s));
       pus_tm_send PUS_SERVICE_HOUSEKEEPING PUS_ST03_REPORT (Some data) SVC03_SID2_DATA_LEN s } }"

text \<open>The validation loop from index \<open>i\<close> with \<open>n\<close> identifiers left.\<close>

primrec svc03_check_loop :: "mem \<Rightarrow> nat \<Rightarrow> nat \<Rightarrow> bool option" where
  "svc03_check_loop p i 0 = Some True"
| "svc03_check_loop p i (Suc n) = do {
     sid \<leftarrow> pus_get_u8 p (1 + i);
     if svc03_sid_valid sid = PUS_FALSE then Some False
     else svc03_check_loop p (Suc i) n }"

text \<open>The loop that applies the list; \<open>st\<close> is the local status, a failed report breaks.\<close>

primrec svc03_apply_loop ::
    "mem \<Rightarrow> nat \<Rightarrow> nat \<Rightarrow> pus_bool_t \<Rightarrow> pus_bool_t \<Rightarrow> pus_status_t \<Rightarrow> obsw
     \<Rightarrow> (pus_status_t \<times> obsw) option" where
  "svc03_apply_loop p i 0 enable one_shot st s = Some (st, s)"
| "svc03_apply_loop p i (Suc n) enable one_shot st s = do {
     sid \<leftarrow> pus_get_u8 p (1 + i);
     if one_shot \<noteq> PUS_FALSE then do {
       (st, s) \<leftarrow> svc03_generate sid s;
       if st \<noteq> PUS_OK then Some (st, s)
       else svc03_apply_loop p (Suc i) n enable one_shot st s }
     else do {
       flags \<leftarrow> arr_set (svc03_enabled s) (sid_index sid) enable;
       svc03_apply_loop p (Suc i) n enable one_shot st (s\<lparr> svc03_enabled := flags \<rparr>) } }"

definition svc03_apply_list ::
    "pus_tc_t \<Rightarrow> pus_bool_t \<Rightarrow> pus_bool_t \<Rightarrow> obsw \<Rightarrow> (pus_status_t \<times> obsw) option" where
  "svc03_apply_list tc enable one_shot s =
     (if app_data_len tc < 1 then Some (PUS_ERR_BAD_LENGTH, s)
      else do {
        p \<leftarrow> app_data tc;
        count \<leftarrow> pus_get_u8 p 0;
        if app_data_len tc \<noteq> 1 + unat count then Some (PUS_ERR_BAD_LENGTH, s)
        else if count = 0 then Some (PUS_ERR_BAD_PARAMETER, s)
        else do {
          good \<leftarrow> svc03_check_loop p 0 (unat count);
          if \<not> good then Some (PUS_ERR_UNKNOWN_SID, s)
          else svc03_apply_loop p 0 (unat count) enable one_shot PUS_OK s } })"

definition svc03_handle :: "pus_tc_t option \<Rightarrow> obsw \<Rightarrow> (pus_status_t \<times> obsw) option" where
  "svc03_handle tc s =
     (case tc of None \<Rightarrow> Some (PUS_ERR_NULL, s)
      | Some t \<Rightarrow>
          if service_subtype t = PUS_ST03_ENABLE then svc03_apply_list t PUS_TRUE PUS_FALSE s
          else if service_subtype t = PUS_ST03_DISABLE then svc03_apply_list t PUS_FALSE PUS_FALSE s
          else if service_subtype t = PUS_ST03_ONE_SHOT then svc03_apply_list t PUS_FALSE PUS_TRUE s
          else Some (PUS_ERR_UNKNOWN_SUBTYPE, s))"

text \<open>The loop of the periodic cycle from structure \<open>sid\<close> with \<open>n\<close> structures left.\<close>

primrec svc03_tick_loop :: "u8 \<Rightarrow> nat \<Rightarrow> obsw \<Rightarrow> (unit \<times> obsw) option" where
  "svc03_tick_loop sid 0 s = Some ((), s)"
| "svc03_tick_loop sid (Suc n) s = do {
     flag \<leftarrow> arr_get (svc03_enabled s) (sid_index sid);
     (_, s) \<leftarrow> (if flag \<noteq> PUS_FALSE then do { (_, s) \<leftarrow> svc03_generate sid s; Some ((), s) }
               else Some ((), s));
     svc03_tick_loop (sid + 1) n s }"

definition svc03_tick :: "obsw \<Rightarrow> (unit \<times> obsw) option" where
  "svc03_tick s = do {
     let s = s\<lparr> svc03_phase := svc03_phase s + 1 \<rparr>;
     if svc03_phase s < OBC_HK_PERIOD_TICKS then Some ((), s)
     else svc03_tick_loop 1 OBC_HK_MAX_STRUCTURES (s\<lparr> svc03_phase := 0 \<rparr>) }"

section \<open>Specifications\<close>

definition hk_sid_ok :: "u8 \<Rightarrow> bool" where
  "hk_sid_ok sid \<longleftrightarrow> sid = 1 \<or> sid = 2"

text \<open>The octets of the reports: the essential structure, and the diagnostic one.\<close>

definition hk_data :: "u8 \<Rightarrow> spec \<Rightarrow> u8 list" where
  "hk_data sid a =
     (if sid = 1
      then [1, ucast (mode_code (sp_mode a))] @ be32 (sp_uptime a) @ be16 (sp_temp a) @ [of_bool (sp_heater a)]
      else [sid] @ be16 (sp_accepted a) @ be16 (sp_rejected a) @ be16 (sp_failure a) @
           [of_nat (length (sp_queue a))] @ be16 (sp_drops a))"

definition sp_hk_report :: "u8 \<Rightarrow> spec \<Rightarrow> pus_status_t \<times> spec" where
  "sp_hk_report sid a = emit 3 25 (hk_data sid a) a"

definition hk_list_verdict :: "u8 list \<Rightarrow> pus_status_t" where
  "hk_list_verdict app =
     (case app of [] \<Rightarrow> PUS_ERR_BAD_LENGTH
      | count # sids \<Rightarrow>
          if length sids \<noteq> unat count then PUS_ERR_BAD_LENGTH
          else if count = 0 then PUS_ERR_BAD_PARAMETER
          else if list_all hk_sid_ok sids then PUS_OK
          else PUS_ERR_UNKNOWN_SID)"

text \<open>One-shot reports are sent one after the other until one of them finds the queue full.\<close>

primrec sp_one_shot :: "u8 list \<Rightarrow> spec \<Rightarrow> pus_status_t \<times> spec" where
  "sp_one_shot [] a = (PUS_OK, a)"
| "sp_one_shot (sid # sids) a =
     (case sp_hk_report sid a of (st, b) \<Rightarrow> if st = PUS_OK then sp_one_shot sids b else (st, b))"

definition sp_hk_list :: "u8 list \<Rightarrow> (u8 list \<Rightarrow> spec \<Rightarrow> pus_status_t \<times> spec) \<Rightarrow> spec \<Rightarrow> pus_status_t \<times> spec" where
  "sp_hk_list app f a =
     (if hk_list_verdict app = PUS_OK then f (tl app) a else (hk_list_verdict app, a))"

definition sp_hk_enable :: "bool \<Rightarrow> u8 list \<Rightarrow> spec \<Rightarrow> pus_status_t \<times> spec" where
  "sp_hk_enable v sids a = (PUS_OK, a\<lparr> sp_hk := set_flags sids v (sp_hk a) \<rparr>)"

definition sp_svc03 :: "telecommand \<Rightarrow> spec \<Rightarrow> pus_status_t \<times> spec" where
  "sp_svc03 c a =
     (if tc_subtype c = 5 then sp_hk_list (tc_app c) (sp_hk_enable True) a
      else if tc_subtype c = 6 then sp_hk_list (tc_app c) (sp_hk_enable False) a
      else if tc_subtype c = 27 then sp_hk_list (tc_app c) sp_one_shot a
      else (PUS_ERR_UNKNOWN_SUBTYPE, a))"

primrec sp_periodic :: "u8 list \<Rightarrow> spec \<Rightarrow> spec" where
  "sp_periodic [] a = a"
| "sp_periodic (sid # sids) a =
     sp_periodic sids (if sp_hk a sid then snd (sp_hk_report sid a) else a)"

definition sp_hk_tick :: "spec \<Rightarrow> spec" where
  "sp_hk_tick a =
     (if sp_phase a + 1 < 10 then a\<lparr> sp_phase := sp_phase a + 1 \<rparr>
      else sp_periodic [1, 2] (a\<lparr> sp_phase := 0 \<rparr>))"

section \<open>Refinement\<close>

lemma svc03_sid_valid_iff: "svc03_sid_valid sid = PUS_FALSE \<longleftrightarrow> \<not> hk_sid_ok sid"
  by (auto simp: svc03_sid_valid_def hk_sid_ok_def word_le_nat_alt word_unat_eq_iff)

lemma sid_index_ok: "sid_index 1 = 0" "sid_index 2 = 1"
  by (simp_all add: sid_index_def)

lemma sid_index_less: "hk_sid_ok sid \<Longrightarrow> sid_index sid < 2"
  by (auto simp: hk_sid_ok_def sid_index_ok)

lemma hk_flag_index: "hk_sid_ok sid \<Longrightarrow> hk_flag flags sid \<longleftrightarrow> flags ! sid_index sid \<noteq> 0"
  by (auto simp: hk_flag_def hk_sid_ok_def sid_index_ok)

lemma hk_flag_not_ok: "\<not> hk_sid_ok sid \<Longrightarrow> \<not> hk_flag flags sid"
  by (auto simp: hk_flag_def hk_sid_ok_def word_unat_eq_iff)

lemma inv_hk_length: "obsw_inv s \<Longrightarrow> length (svc03_enabled s) = 2"
  by (simp add: obsw_inv_def flags_ok_def)

text \<open>Every error branch, and the two layouts.\<close>

lemma svc03_generate_unknown:
  "\<not> hk_sid_ok sid \<Longrightarrow> svc03_generate sid s = Some (PUS_ERR_UNKNOWN_SID, s)"
  by (simp add: svc03_generate_def svc03_sid_valid_iff)

lemma holds_prefix: "holds (Some (octets bs @ rest)) bs"
  by (simp add: holds_def)

text \<open>The layouts, on the static variables.\<close>

lemma hk_data_essential:
  assumes "obsw_inv s"
  shows "hk_data 1 (obsw_abs s) = [1, ucast (mode (s_state s))] @ be32 (uptime_ticks (s_state s)) @
    be16 (temperature_dc (s_state s)) @ [heater_on (s_state s)]"
proof -
  have "mode (s_state s) \<in> {0, 1}" and "heater_on (s_state s) \<in> {0, 1}"
    using assms by (simp_all add: obsw_inv_def)
  then show ?thesis
    by (auto simp: hk_data_def obsw_abs_def mode_of_def mode_code_def)
qed

lemma hk_data_diagnostic:
  "hk_data 2 (obsw_abs s) = [2] @ be16 (tc_accepted (s_state s)) @ be16 (tc_rejected (s_state s)) @
    be16 (last_failure_code (s_state s)) @ [of_nat (s_count (tmq s))] @ be16 (s_overflows (tmq s))"
  by (simp add: hk_data_def obsw_abs_def)

lemma svc03_generate_refines:
  assumes inv: "obsw_inv s" and sid: "hk_sid_ok sid"
  shows "refines (svc03_generate sid s) (sp_hk_report sid (obsw_abs s))"
proof (cases "sid = 1")
  case True
  let ?a = "obsw_abs s" and ?st = "s_state s"
  note data = hk_data_essential [OF inv]
  have "refines (pus_tm_send 3 25 (Some (octets (hk_data 1 ?a) @ [None])) 9 s)
      (emit 3 25 (hk_data 1 ?a) ?a)"
    by (rule pus_tm_send_refines [OF inv holds_prefix]) (simp_all add: data)
  then show ?thesis
    using True sid
    by (simp add: svc03_generate_def svc03_sid_valid_iff sp_hk_report_def obc_get_state_def Let_def
        pus_put_u8_in pus_put_u32_in pus_put_i16_in overwrite_octets_append)
      (simp add: data overwrite_0 octets_append octets_Cons)
next
  case False
  let ?a = "obsw_abs s" and ?st = "s_state s"
  have sid2: "sid = 2"
    using sid False by (simp add: hk_sid_ok_def)
  note data = hk_data_diagnostic [of s]
  have "refines (pus_tm_send 3 25 (Some (octets (hk_data 2 ?a))) 10 s) (emit 3 25 (hk_data 2 ?a) ?a)"
    by (rule pus_tm_send_refines [OF inv holds_octets]) (simp_all add: data)
  then show ?thesis
    using sid2 sid
    by (simp add: svc03_generate_def svc03_sid_valid_iff sp_hk_report_def obc_get_state_def Let_def
        pus_put_u8_in pus_put_u16_in overwrite_octets_append tm_queue_count_def tm_queue_overflow_count_def)
      (simp add: data overwrite_0 octets_append octets_Cons)
qed

text \<open>The loops read the identifiers one by one.\<close>

lemma sid_octet: "i < length sids \<Longrightarrow> pus_get_u8 (octets (c # sids) @ rest) (1 + i) = Some (sids ! i)"
  by (simp add: pus_get_u8_prefix)

lemma take_drop_Suc: "i < length xs \<Longrightarrow> take (Suc n) (drop i xs) = xs ! i # take n (drop (Suc i) xs)"
  by (simp flip: Cons_nth_drop_Suc)

lemma svc03_check_loop_in:
  "i + n \<le> length sids \<Longrightarrow>
   svc03_check_loop (octets (c # sids) @ rest) i n = Some (list_all hk_sid_ok (take n (drop i sids)))"
proof (induction n arbitrary: i)
  case 0
  then show ?case by simp
next
  case (Suc n)
  then show ?case
    using sid_octet [of i sids c rest] by (simp add: take_drop_Suc svc03_sid_valid_iff)
qed

lemma svc03_one_shot_loop_refines:
  assumes "i + n \<le> length sids" and "list_all hk_sid_ok (take n (drop i sids))" and "obsw_inv s"
    and "o' \<noteq> 0"
  shows "refines (svc03_apply_loop (octets (c # sids) @ rest) i n e o' PUS_OK s)
     (sp_one_shot (take n (drop i sids)) (obsw_abs s))"
  using assms(1-3)
proof (induction n arbitrary: i s)
  case 0
  then show ?case by (auto intro: refines_Some)
next
  case (Suc n)
  let ?r = "sp_hk_report (sids ! i) (obsw_abs s)"
  have i: "i < length sids" and ok: "hk_sid_ok (sids ! i)" "list_all hk_sid_ok (take n (drop (Suc i) sids))"
    using Suc.prems by (simp_all add: take_drop_Suc)
  have gen: "refines (svc03_generate (sids ! i) s) ?r"
    using Suc.prems(3) ok(1) by (rule svc03_generate_refines)
  have rest: "refines (if fst ?r \<noteq> PUS_OK then Some (fst ?r, s')
      else svc03_apply_loop (octets (c # sids) @ rest) (Suc i) n e o' (fst ?r) s')
      (sp_one_shot (take (Suc n) (drop i sids)) (obsw_abs s))"
    if "obsw_inv s'" and "obsw_abs s' = snd ?r" for s'
    using that Suc.IH [of "Suc i" s'] Suc.prems(1) ok(2) i
    by (auto simp: take_drop_Suc split_beta intro: refines_Some)
  show ?case
    using refines_bind [OF gen, of "\<lambda>(st, s). if st \<noteq> PUS_OK then Some (st, s)
      else svc03_apply_loop (octets (c # sids) @ rest) (Suc i) n e o' st s"] rest
      sid_octet [OF i, of c rest] assms(4) by simp
qed

lemma hk_flags_update:
  assumes "flags_ok 2 flags" and "hk_sid_ok sid" and "v \<in> {0, 1}"
  shows "flags_ok 2 (flags[sid_index sid := v])"
    and "hk_flag (flags[sid_index sid := v]) = (hk_flag flags)(sid := v \<noteq> 0)"
proof -
  show "flags_ok 2 (flags[sid_index sid := v])"
    using assms(1,3) set_update_subset_insert [of flags "sid_index sid" v] by (auto simp: flags_ok_def)
  have "hk_flag (flags[sid_index sid := v]) x \<longleftrightarrow> (if x = sid then v \<noteq> 0 else hk_flag flags x)" for x
    using assms by (cases "hk_sid_ok x")
      (auto simp: hk_flag_index hk_flag_not_ok flags_ok_def hk_sid_ok_def sid_index_ok nth_list_update)
  then show "hk_flag (flags[sid_index sid := v]) = (hk_flag flags)(sid := v \<noteq> 0)"
    by (auto simp: fun_eq_iff)
qed

lemma svc03_enable_loop_refines:
  assumes "i + n \<le> length sids" and "list_all hk_sid_ok (take n (drop i sids))" and "obsw_inv s"
    and "v \<in> {0, 1}"
  shows "refines (svc03_apply_loop (octets (c # sids) @ rest) i n v 0 PUS_OK s)
     (sp_hk_enable (v \<noteq> 0) (take n (drop i sids)) (obsw_abs s))"
  using assms(1-3)
proof (induction n arbitrary: i s)
  case 0
  have "set_flags [] (v \<noteq> 0) (sp_hk (obsw_abs s)) = sp_hk (obsw_abs s)"
    by (simp add: set_flags_def fun_eq_iff)
  then show ?case
    using 0 by (auto simp: sp_hk_enable_def intro: refines_Some)
next
  case (Suc n)
  let ?flags = "(svc03_enabled s)[sid_index (sids ! i) := v]"
  let ?s = "s\<lparr> svc03_enabled := ?flags \<rparr>"
  have i: "i < length sids" and ok: "hk_sid_ok (sids ! i)" "list_all hk_sid_ok (take n (drop (Suc i) sids))"
    using Suc.prems by (simp_all add: take_drop_Suc)
  have flags: "flags_ok 2 (svc03_enabled s)"
    using Suc.prems(3) by (simp add: obsw_inv_def)
  note upd = hk_flags_update [OF flags ok(1) assms(4)]
  have inv: "obsw_inv ?s"
    using Suc.prems(3) upd(1) by (simp add: obsw_inv_def)
  have abs: "obsw_abs ?s = (obsw_abs s)\<lparr> sp_hk := (sp_hk (obsw_abs s))(sids ! i := v \<noteq> 0) \<rparr>"
    using upd(2) by (simp add: obsw_abs_def)
  have set: "arr_set (svc03_enabled s) (sid_index (sids ! i)) v = Some ?flags"
    using sid_index_less [OF ok(1)] inv_hk_length [OF Suc.prems(3)] by (simp add: arr_set_in)
  have "set_flags (take n (drop (Suc i) sids)) (v \<noteq> 0) ((sp_hk (obsw_abs s))(sids ! i := v \<noteq> 0))
      = set_flags (sids ! i # take n (drop (Suc i) sids)) (v \<noteq> 0) (sp_hk (obsw_abs s))"
    by (auto simp: set_flags_def fun_eq_iff)
  then have "sp_hk_enable (v \<noteq> 0) (take n (drop (Suc i) sids)) (obsw_abs ?s)
      = sp_hk_enable (v \<noteq> 0) (take (Suc n) (drop i sids)) (obsw_abs s)"
    using i by (simp add: sp_hk_enable_def abs take_drop_Suc)
  then show ?case
    using Suc.IH [of "Suc i" ?s] Suc.prems(1) inv ok(2) sid_octet [OF i, of c rest] set by simp
qed

text \<open>A list that passes the checks runs the second loop, any other changes nothing.\<close>

lemma svc03_apply_list_refines:
  assumes inv: "obsw_inv s" and tc: "tc_ok tc"
    and loop: "\<And>c sids rest. list_all hk_sid_ok sids \<Longrightarrow>
      refines (svc03_apply_loop (octets (c # sids) @ rest) 0 (length sids) e one_shot PUS_OK s)
        (f sids (obsw_abs s))"
  shows "refines (svc03_apply_list tc e one_shot s) (sp_hk_list (tc_app (tc_abs tc)) f (obsw_abs s))"
proof (cases "tc_app (tc_abs tc)")
  case Nil
  then show ?thesis
    using inv tc_ok_app(1) [OF tc]
    by (auto simp: svc03_apply_list_def sp_hk_list_def hk_list_verdict_def)
next
  case (Cons count sids)
  let ?app = "count # sids"
  have len: "app_data_len tc = length ?app"
    using tc_ok_app(1) [OF tc] Cons by simp
  then obtain rest where p: "app_data tc = Some (octets ?app @ rest)"
    using tc_ok_app(2) [OF tc] Cons by auto
  have get: "pus_get_u8 (octets ?app @ rest) 0 = Some count"
    by (simp add: pus_get_u8_prefix)
  show ?thesis
  proof (cases "length sids = unat count \<and> count \<noteq> 0 \<and> list_all hk_sid_ok sids")
    case True
    then have "svc03_check_loop (octets ?app @ rest) 0 (unat count) = Some True"
      using svc03_check_loop_in [of 0 "unat count" sids count rest] by simp
    then show ?thesis
      using True loop [of sids count rest] len
      by (simp add: svc03_apply_list_def p get sp_hk_list_def hk_list_verdict_def Cons)
  next
    case False
    then have "svc03_apply_list tc e one_shot s = Some (hk_list_verdict ?app, s)"
      using len svc03_check_loop_in [of 0 "unat count" sids count rest]
      by (auto simp: svc03_apply_list_def p get hk_list_verdict_def)
    moreover have "hk_list_verdict ?app \<noteq> PUS_OK"
      using False by (auto simp: hk_list_verdict_def)
    ultimately show ?thesis
      using inv by (auto simp: sp_hk_list_def Cons)
  qed
qed

lemma svc03_handle_NULL: "svc03_handle None s = Some (PUS_ERR_NULL, s)"
  by (simp add: svc03_handle_def)

lemma svc03_handle_refines:
  assumes inv: "obsw_inv s" and tc: "tc_ok tc"
  shows "refines (svc03_handle (Some tc) s) (sp_svc03 (tc_abs tc) (obsw_abs s))"
proof -
  have sub: "service_subtype tc = tc_subtype (tc_abs tc)"
    by (simp add: tc_abs_def)
  have enable: "refines (svc03_apply_list tc v 0 s)
      (sp_hk_list (tc_app (tc_abs tc)) (sp_hk_enable (v \<noteq> 0)) (obsw_abs s))" if "v \<in> {0, 1}" for v
    using inv tc that by (intro svc03_apply_list_refines)
      (use svc03_enable_loop_refines [of 0 "length sids" sids s v c rest for sids c rest] in auto)
  have one_shot: "refines (svc03_apply_list tc 0 1 s)
      (sp_hk_list (tc_app (tc_abs tc)) sp_one_shot (obsw_abs s))"
    using inv tc by (intro svc03_apply_list_refines)
      (use svc03_one_shot_loop_refines [of 0 "length sids" sids s 1 c rest for sids c rest] in auto)
  show ?thesis
    using enable [of 0] enable [of 1] one_shot inv
    by (auto simp: svc03_handle_def sp_svc03_def sub)
qed

lemma svc03_init_refines:
  assumes inv: "obsw_inv s"
  shows "refines (svc03_init s) ((), (obsw_abs s)\<lparr> sp_hk := (\<lambda>sid. sid = 1), sp_phase := 0 \<rparr>)"
proof -
  have "hk_flag [1, 0] sid \<longleftrightarrow> sid = 1" for sid
    by (cases "hk_sid_ok sid") (auto simp: hk_flag_index hk_flag_not_ok hk_sid_ok_def sid_index_ok)
  then have flag: "hk_flag [1, 0] = (\<lambda>sid. sid = 1)"
    by (simp add: fun_eq_iff)
  obtain a b where "svc03_enabled s = [a, b]"
    using inv_hk_length [OF inv] by (auto simp: numeral_2_eq_2 length_Suc_conv)
  then have "svc03_init s = Some ((), s\<lparr> svc03_enabled := [1, 0], svc03_phase := 0 \<rparr>)"
    by (simp add: svc03_init_def fill_array_in arr_set_in sid_index_ok)
  then show ?thesis
    using inv flag by (auto simp: obsw_inv_def flags_ok_def obsw_abs_def)
qed

lemma svc03_tick_loop_refines:
  assumes "obsw_inv s" and "list_all hk_sid_ok sids"
    and "sids = map (\<lambda>i. sid + of_nat i) [0..<length sids]"
  shows "refines (svc03_tick_loop sid (length sids) s) ((), sp_periodic sids (obsw_abs s))"
  using assms
proof (induction sids arbitrary: sid s)
  case Nil
  then show ?case by auto
next
  case (Cons x sids)
  have x: "x = sid"
    using Cons.prems(3) by (simp add: upt_conv_Cons del: upt_Suc)
  have tail: "sids = map (\<lambda>i. sid + 1 + of_nat i) [0..<length sids]"
    using Cons.prems(3)
    by (simp add: upt_conv_Cons map_Suc_upt [symmetric] comp_def add_ac del: upt_Suc)
  have ok: "hk_sid_ok sid" "list_all hk_sid_ok sids"
    using Cons.prems(2) x by simp_all
  have get: "arr_get (svc03_enabled s) (sid_index sid) = Some (svc03_enabled s ! sid_index sid)"
    using sid_index_less [OF ok(1)] inv_hk_length [OF Cons.prems(1)] by (simp add: arr_get_in)
  have flag: "sp_hk (obsw_abs s) sid \<longleftrightarrow> svc03_enabled s ! sid_index sid \<noteq> 0"
    using hk_flag_index [OF ok(1)] by (simp add: obsw_abs_def)
  have report: "refines (do { (_, s) \<leftarrow> svc03_generate sid s; Some ((), s) })
      ((), snd (sp_hk_report sid (obsw_abs s)))"
    using svc03_generate_refines [OF Cons.prems(1) ok(1)] by (rule refines_discard)
  have body: "refines (if svc03_enabled s ! sid_index sid \<noteq> 0
      then do { (_, s) \<leftarrow> svc03_generate sid s; Some ((), s) } else Some ((), s))
      ((), if sp_hk (obsw_abs s) sid then snd (sp_hk_report sid (obsw_abs s)) else obsw_abs s)"
    using report Cons.prems(1) by (auto simp: flag)
  have next_loop: "refines (svc03_tick_loop (sid + 1) (length sids) s') ((), sp_periodic sids a)"
    if "obsw_inv s'" and "obsw_abs s' = a" for s' a
    using Cons.IH [OF that(1) ok(2) tail] that(2) by simp
  show ?case
    unfolding list.size svc03_tick_loop.simps add_Suc_right add_0_right get bind.bind_lunit sp_periodic.simps x
    by (rule refines_bind [OF body]) (use next_loop in \<open>simp only: snd_conv fst_conv prod.case\<close>)
qed

lemma svc03_tick_refines:
  assumes inv: "obsw_inv s"
  shows "refines (svc03_tick s) ((), sp_hk_tick (obsw_abs s))"
proof -
  have phase: "unat (svc03_phase s) < 10"
    using inv by (simp add: obsw_inv_def)
  then have inc: "unat (svc03_phase s + 1) = unat (svc03_phase s) + 1"
    by (subst unat_plus_small) simp_all
  then have less: "svc03_phase s + 1 < 10 \<longleftrightarrow> unat (svc03_phase s) + 1 < 10"
    by (simp add: word_less_nat_alt)
  let ?s = "s\<lparr> svc03_phase := 0 \<rparr>"
  have s: "obsw_inv ?s" "obsw_abs ?s = (obsw_abs s)\<lparr> sp_phase := 0 \<rparr>"
    using inv by (simp_all add: obsw_inv_def obsw_abs_def)
  have "refines (svc03_tick_loop 1 2 ?s) ((), sp_periodic [1, 2] (obsw_abs ?s))"
    using svc03_tick_loop_refines [OF s(1), of "[1, 2]" 1]
    by (simp add: hk_sid_ok_def upt_rec del: svc03_tick_loop.simps flip: numeral_2_eq_2)
  moreover have "refines (Some ((), s\<lparr> svc03_phase := svc03_phase s + 1 \<rparr>))
      ((), (obsw_abs s)\<lparr> sp_phase := sp_phase (obsw_abs s) + 1 \<rparr>)" if "svc03_phase s + 1 < 10"
    using inv that inc less by (intro refines_Some) (simp_all add: obsw_inv_def obsw_abs_def)
  moreover have "sp_phase (obsw_abs s) = unat (svc03_phase s)"
    by (simp add: obsw_abs_def)
  ultimately show ?thesis
    using less s(2) by (auto simp: svc03_tick_def sp_hk_tick_def Let_def simp del: svc03_tick_loop.simps
        sp_periodic.simps)
qed


section \<open>Properties\<close>

lemma svc03_is_enabled_abs:
  assumes "obsw_inv s"
  shows "svc03_is_enabled sid s = Some (of_bool (sp_hk (obsw_abs s) sid))"
proof (cases "hk_sid_ok sid")
  case True
  let ?i = "sid_index sid"
  have i: "?i < length (svc03_enabled s)"
    using sid_index_less [OF True] inv_hk_length [OF assms] by simp
  have "set (svc03_enabled s) \<subseteq> {0, 1}"
    using assms by (simp add: obsw_inv_def flags_ok_def)
  then have "svc03_enabled s ! ?i \<in> {0, 1}"
    using nth_mem [OF i] by blast
  then show ?thesis
    using True i hk_flag_index [OF True, of "svc03_enabled s"]
    by (auto simp: svc03_is_enabled_def svc03_sid_valid_iff arr_get_in obsw_abs_def)
next
  case False
  then show ?thesis
    by (simp add: svc03_is_enabled_def svc03_sid_valid_iff obsw_abs_def hk_flag_not_ok)
qed

text \<open>
  C31: An enable or disable command of service 3 is all or nothing: it succeeds exactly when its
  list has the announced length, is not empty and names only existing structures; then the
  periodic flags of these structures, and only these, take the commanded value. Otherwise the
  handler returns the reason and the state is as before.
\<close>

theorem svc03_configure:
  assumes inv: "obsw_inv s" and tc: "tc_ok tc" and sub: "service_subtype tc = 5 \<or> service_subtype tc = 6"
  shows "\<exists>s'. svc03_handle (Some tc) s = Some (hk_list_verdict (tc_app (tc_abs tc)), s') \<and>
    (if hk_list_verdict (tc_app (tc_abs tc)) = PUS_OK
     then \<forall>sid. svc03_is_enabled sid s' =
       (if sid \<in> set (tl (tc_app (tc_abs tc))) then Some (of_bool (service_subtype tc = 5))
        else svc03_is_enabled sid s)
     else obsw_abs s' = obsw_abs s)"
proof -
  let ?app = "tc_app (tc_abs tc)" and ?v = "service_subtype tc = 5"
  let ?r = "sp_hk_list ?app (sp_hk_enable ?v) (obsw_abs s)"
  have "tc_subtype (tc_abs tc) = service_subtype tc"
    by (simp add: tc_abs_def)
  then have spec: "sp_svc03 (tc_abs tc) (obsw_abs s) = ?r"
    using sub by (auto simp: sp_svc03_def)
  obtain s' where "svc03_handle (Some tc) s = Some (fst ?r, s')" "obsw_inv s'" "obsw_abs s' = snd ?r"
    using refinesE [OF svc03_handle_refines [OF inv tc]] unfolding spec by blast
  then show ?thesis
    using inv by (auto simp: sp_hk_list_def sp_hk_enable_def svc03_is_enabled_abs set_flags_def)
qed

lemma svc03_configure_witness:
  "\<exists>s'. svc03_handle (Some (example_tc 3 5 [1, 2])) power_on = Some (PUS_OK, s') \<and>
     svc03_is_enabled 2 s' = Some 1 \<and> svc03_is_enabled 1 s' = svc03_is_enabled 1 power_on"
proof -
  have "hk_list_verdict [1, 2] = PUS_OK"
    by code_simp
  then show ?thesis
    using svc03_configure [OF obsw_inv_power_on, of "example_tc 3 5 [1, 2]"] by auto
qed

text \<open>A list of reports that fits into the queue.\<close>

lemma sp_hk_report_room:
  assumes "length (sp_queue a) < 16"
  obtains sq ct where "sp_hk_report sid a = (PUS_OK,
      a\<lparr> sp_queue := sp_queue a @ [stamp 3 25 (hk_data sid a) a], sp_seq := sq, sp_ctr := ct \<rparr>)"
proof (rule that)
  show "sp_hk_report sid a = (PUS_OK, a\<lparr> sp_queue := sp_queue a @ [stamp 3 25 (hk_data sid a) a],
      sp_seq := (sp_seq a + 1) AND 0x3FFF, sp_ctr := (sp_ctr a)(3 := sp_ctr a 3 + 1) \<rparr>)"
    using assms by (cases a) (simp add: sp_hk_report_def emit_def Let_def)
qed

lemma sp_one_shot_room:
  assumes "length (sp_queue a) + length sids \<le> 16"
  shows "\<exists>ms sq ct. sp_one_shot sids a = (PUS_OK, a\<lparr> sp_queue := sp_queue a @ ms, sp_seq := sq, sp_ctr := ct \<rparr>) \<and>
    length ms = length sids \<and>
    (\<forall>i < length sids. m_service (ms ! i) = 3 \<and> m_subtype (ms ! i) = 25 \<and>
      m_data (ms ! i) = hk_data (sids ! i) (a\<lparr> sp_queue := sp_queue a @ take i ms \<rparr>))"
  using assms
proof (induction sids arbitrary: a)
  case Nil
  then show ?case
    by (intro exI [of _ "[]"] exI [of _ "sp_seq a"] exI [of _ "sp_ctr a"]) simp
next
  case (Cons sid sids)
  let ?m = "stamp 3 25 (hk_data sid a) a"
  have "length (sp_queue a) < 16"
    using Cons.prems by simp
  then obtain sq ct where first: "sp_hk_report sid a =
      (PUS_OK, a\<lparr> sp_queue := sp_queue a @ [?m], sp_seq := sq, sp_ctr := ct \<rparr>)"
    by (rule sp_hk_report_room)
  let ?b = "a\<lparr> sp_queue := sp_queue a @ [?m], sp_seq := sq, sp_ctr := ct \<rparr>"
  obtain ms sq' ct' where ms:
      "sp_one_shot sids ?b = (PUS_OK, ?b\<lparr> sp_queue := sp_queue ?b @ ms, sp_seq := sq', sp_ctr := ct' \<rparr>)"
      "length ms = length sids"
    and each: "\<forall>i < length sids. m_service (ms ! i) = 3 \<and> m_subtype (ms ! i) = 25 \<and>
      m_data (ms ! i) = hk_data (sids ! i) (?b\<lparr> sp_queue := sp_queue ?b @ take i ms \<rparr>)"
    using Cons.IH [of ?b] Cons.prems by auto
  have all: "sp_one_shot (sid # sids) a =
      (PUS_OK, a\<lparr> sp_queue := sp_queue a @ ?m # ms, sp_seq := sq', sp_ctr := ct' \<rparr>)"
    using ms(1) by (simp add: first)
  have "m_service ((?m # ms) ! i) = 3 \<and> m_subtype ((?m # ms) ! i) = 25 \<and>
      m_data ((?m # ms) ! i) = hk_data ((sid # sids) ! i) (a\<lparr> sp_queue := sp_queue a @ take i (?m # ms) \<rparr>)"
    if "i < length (sid # sids)" for i
  proof (cases i)
    case 0
    then show ?thesis
      by (simp add: stamp_def)
  next
    case (Suc k)
    then have "m_service (ms ! k) = 3 \<and> m_subtype (ms ! k) = 25 \<and>
        m_data (ms ! k) = hk_data (sids ! k) (?b\<lparr> sp_queue := sp_queue ?b @ take k ms \<rparr>)"
      using each that by simp
    then show ?thesis
      using Suc by (simp add: hk_data_def)
  qed
  then show ?case
    using ms(2) by (intro exI [of _ "?m # ms"] exI [of _ sq'] exI [of _ ct'] conjI allI impI all) simp_all
qed

text \<open>The layout of a report of a valid list, further reports waiting before it.\<close>

lemma hk_data_listed:
  assumes inv: "obsw_inv s" and ok: "hk_list_verdict app = PUS_OK" and i: "i < length (tl app)"
    and q: "length q = n"
  shows "hk_data (tl app ! i) ((obsw_abs s)\<lparr> sp_queue := q \<rparr>) =
    (let st = s_state s in
     if tl app ! i = 1 then [1, ucast (mode st)] @ be32 (uptime_ticks st) @ be16 (temperature_dc st) @ [heater_on st]
     else [2] @ be16 (tc_accepted st) @ be16 (tc_rejected st) @ be16 (last_failure_code st) @
       [of_nat n] @ be16 (s_overflows (tmq s)))"
proof -
  have "list_all hk_sid_ok (tl app)"
    using ok by (auto simp: hk_list_verdict_def split: list.splits if_splits)
  then have "tl app ! i = 1 \<or> tl app ! i = 2"
    using i by (auto simp: list_all_length hk_sid_ok_def)
  moreover have "hk_data 1 ((obsw_abs s)\<lparr> sp_queue := q \<rparr>) = hk_data 1 (obsw_abs s)"
    by (simp add: hk_data_def)
  ultimately show ?thesis
    using q by (elim disjE) (simp_all add: hk_data_essential [OF inv] Let_def, simp add: hk_data_def obsw_abs_def)
qed

text \<open>
  C32: A valid one-shot request (3,27) that finds room is answered by one report (3,25) per requested
  identifier, in the order of the request and repeated where it repeats. The source data are the
  fields of the structure in the frozen order and width: identifier, mode, uptime, temperature and
  heater for structure 1; identifier, the telecommand counters, the last failure code, the queue
  occupancy, which counts the reports before it, and the overflow count for structure 2. It does
  not matter whether the structures are enabled, and nothing but the queue and the sequence
  and message counters changes: the periodic generation stays as configured.
\<close>

theorem svc03_one_shot_reports:
  assumes inv: "obsw_inv s" and tc: "tc_ok tc" and sub: "service_subtype tc = 27"
    and ok: "hk_list_verdict (tc_app (tc_abs tc)) = PUS_OK"
    and room: "s_count (tmq s) + length (tl (tc_app (tc_abs tc))) \<le> 16"
  shows "\<exists>s' ms. svc03_handle (Some tc) s = Some (PUS_OK, s') \<and> obsw_inv s' \<and>
    obsw_abs s' = (obsw_abs s)\<lparr> sp_queue := sp_queue (obsw_abs s) @ ms,
      sp_seq := sp_seq (obsw_abs s'), sp_ctr := sp_ctr (obsw_abs s') \<rparr> \<and>
    length ms = length (tl (tc_app (tc_abs tc))) \<and>
    (\<forall>i < length ms. m_service (ms ! i) = 3 \<and> m_subtype (ms ! i) = 25 \<and>
      m_data (ms ! i) =
        (let st = s_state s in
         if tl (tc_app (tc_abs tc)) ! i = 1
         then [1, ucast (mode st)] @ be32 (uptime_ticks st) @ be16 (temperature_dc st) @ [heater_on st]
         else [2] @ be16 (tc_accepted st) @ be16 (tc_rejected st) @ be16 (last_failure_code st) @
           [of_nat (s_count (tmq s) + i)] @ be16 (s_overflows (tmq s))))"
proof -
  let ?a = "obsw_abs s" and ?sids = "tl (tc_app (tc_abs tc))"
  have len: "length (sp_queue ?a) = s_count (tmq s)"
    by (simp add: obsw_abs_def)
  have "tc_subtype (tc_abs tc) = 27"
    using sub by (simp add: tc_abs_def)
  then have spec: "sp_svc03 (tc_abs tc) ?a = sp_one_shot ?sids ?a"
    using ok by (simp add: sp_svc03_def sp_hk_list_def)
  obtain s' where s': "svc03_handle (Some tc) s = Some (fst (sp_one_shot ?sids ?a), s')" "obsw_inv s'"
      "obsw_abs s' = snd (sp_one_shot ?sids ?a)"
    using refinesE [OF svc03_handle_refines [OF inv tc]] unfolding spec by blast
  have "length (sp_queue ?a) + length ?sids \<le> 16"
    using room len by simp
  from sp_one_shot_room [OF this] obtain ms sq ct where
    ms: "sp_one_shot ?sids ?a = (PUS_OK, ?a\<lparr> sp_queue := sp_queue ?a @ ms, sp_seq := sq, sp_ctr := ct \<rparr>)"
      "length ms = length ?sids"
    and each: "\<forall>i < length ?sids. m_service (ms ! i) = 3 \<and> m_subtype (ms ! i) = 25 \<and>
      m_data (ms ! i) = hk_data (?sids ! i) (?a\<lparr> sp_queue := sp_queue ?a @ take i ms \<rparr>)"
    by blast
  have data: "hk_data (?sids ! i) (?a\<lparr> sp_queue := sp_queue ?a @ take i ms \<rparr>) =
      (let st = s_state s in
       if ?sids ! i = 1 then [1, ucast (mode st)] @ be32 (uptime_ticks st) @ be16 (temperature_dc st) @ [heater_on st]
       else [2] @ be16 (tc_accepted st) @ be16 (tc_rejected st) @ be16 (last_failure_code st) @
         [of_nat (s_count (tmq s) + i)] @ be16 (s_overflows (tmq s)))" if "i < length ms" for i
    by (rule hk_data_listed [OF inv ok]) (use that ms(2) len in simp_all)
  show ?thesis
    using s' each data ms by (intro exI [of _ s'] exI [of _ ms]) simp
qed

text \<open>Both structures, the diagnostic one first, while neither is enabled.\<close>

lemma svc03_one_shot_reports_witness:
  "\<exists>s' m n. svc03_handle (Some (example_tc 3 27 [2, 2, 1])) power_on = Some (PUS_OK, s') \<and>
     sp_queue (obsw_abs s') = sp_queue (obsw_abs power_on) @ [m, n] \<and>
     m_data m = [2, 0, 0, 0, 0, 0, 0, 0, 0, 0] \<and> m_data n = [1, 0, 0, 0, 0, 0, 0, 0, 0]"
proof -
  have app: "tc_app (tc_abs (example_tc 3 27 [2, 2, 1])) = [2, 2, 1]" and verdict: "hk_list_verdict [2, 2, 1] = PUS_OK"
    by simp code_simp
  have state: "mode (s_state power_on) = 0" "uptime_ticks (s_state power_on) = 0"
    "temperature_dc (s_state power_on) = 0" "heater_on (s_state power_on) = 0"
    "tc_accepted (s_state power_on) = 0" "tc_rejected (s_state power_on) = 0"
    "last_failure_code (s_state power_on) = 0" "s_count (tmq power_on) = 0" "s_overflows (tmq power_on) = 0"
    by (simp_all add: power_on_def tmq_power_on_def)
  obtain s' ms where "svc03_handle (Some (example_tc 3 27 [2, 2, 1])) power_on = Some (PUS_OK, s')"
    and spec: "obsw_abs s' = (obsw_abs power_on)\<lparr> sp_queue := sp_queue (obsw_abs power_on) @ ms,
      sp_seq := sp_seq (obsw_abs s'), sp_ctr := sp_ctr (obsw_abs s') \<rparr>"
    and ms: "length ms = length (tl [2, 2, 1 :: u8])" and data: "\<forall>i < length ms.
      m_data (ms ! i) =
        (let st = s_state power_on in
         if tl [2, 2, 1 :: u8] ! i = 1
         then [1, ucast (mode st)] @ be32 (uptime_ticks st) @ be16 (temperature_dc st) @ [heater_on st]
         else [2] @ be16 (tc_accepted st) @ be16 (tc_rejected st) @ be16 (last_failure_code st) @
           [of_nat (s_count (tmq power_on) + i)] @ be16 (s_overflows (tmq power_on)))"
    using svc03_one_shot_reports [OF obsw_inv_power_on, of "example_tc 3 27 [2, 2, 1]"] verdict state(8)
    unfolding app by auto
  have "m_data (ms ! 0) = [2, 0, 0, 0, 0, 0, 0, 0, 0, 0]" "m_data (ms ! 1) = [1, 0, 0, 0, 0, 0, 0, 0, 0]"
    using data [rule_format, of 0] data [rule_format, of 1] ms by (simp_all add: state be32_def be16_def Let_def)
  moreover have "sp_queue (obsw_abs s') = sp_queue (obsw_abs power_on) @ ms"
    using arg_cong [OF spec, of sp_queue] by simp
  moreover from ms obtain m n where "ms = [m, n]"
    by (auto simp: length_Suc_conv numeral_2_eq_2)
  ultimately show ?thesis
    using \<open>svc03_handle _ _ = _\<close> by auto
qed

text \<open>
  A one-shot request for both structures that finds room for one report only sends that
  report and is then answered with a failure: the request is not all or nothing.
\<close>

theorem svc03_one_shot_partial:
  assumes inv: "obsw_inv s" and full: "s_count (tmq s) = 15"
  shows "\<exists>s' m. svc03_handle (Some (example_tc 3 27 [2, 1, 2])) s = Some (PUS_ERR_QUEUE_FULL, s') \<and>
    sp_queue (obsw_abs s') = sp_queue (obsw_abs s) @ [m] \<and> m_service m = 3 \<and> m_data m ! 0 = 1"
proof -
  let ?tc = "example_tc 3 27 [2, 1, 2]" and ?a = "obsw_abs s"
  have "hk_list_verdict [2, 1, 2] = PUS_OK"
    by code_simp
  then have spec: "sp_svc03 (tc_abs ?tc) ?a = sp_one_shot [1, 2] ?a"
    by (simp add: sp_svc03_def sp_hk_list_def)
  have len: "length (sp_queue ?a) = 15"
    using full by (simp add: obsw_abs_def)
  have "tc_ok ?tc"
    by simp
  from svc03_handle_refines [OF inv this] obtain s' where
    "svc03_handle (Some ?tc) s = Some (fst (sp_one_shot [1, 2] ?a), s')" "obsw_abs s' = snd (sp_one_shot [1, 2] ?a)"
    unfolding spec by (rule refinesE)
  then show ?thesis
    using len by (simp add: sp_hk_report_def emit_def stamp_def hk_data_def Let_def)
qed

lemma svc03_one_shot_partial_witness:
  "\<exists>s s' m. svc03_handle (Some (example_tc 3 27 [2, 1, 2])) s = Some (PUS_ERR_QUEUE_FULL, s') \<and>
    sp_queue (obsw_abs s') = sp_queue (obsw_abs s) @ [m]"
proof -
  obtain s where s: "obsw_inv s" "length (sp_queue (obsw_abs s)) = 15"
    using obsw_fill [of 15] by auto
  have "s_count (tmq s) = 15"
    using s(2) by (simp add: obsw_abs_def)
  from svc03_one_shot_partial [OF s(1) this] show ?thesis
    by blast
qed

end
