(* ===== verification/Svc08.thy ===== *)
theory Svc08
  imports Obc_Mode
begin

text \<open>
  Service 8, function management: \<open>include/pus/svc08_function.h\<close> and
  \<open>src/svc08_function.c\<close>. The specification splits a request in two: \<open>function_request\<close>
  decodes the identifier and its arguments into a function or an error, and
  \<open>perform_function\<close> says what each function does to the application.
\<close>

section \<open>The code\<close>

abbreviation (input) PUS_SERVICE_FUNCTION :: u8 where "PUS_SERVICE_FUNCTION \<equiv> 8"
abbreviation (input) PUS_ST08_PERFORM :: u8 where "PUS_ST08_PERFORM \<equiv> 1"
abbreviation (input) OBC_FID_SET_MODE :: u8 where "OBC_FID_SET_MODE \<equiv> 1"
abbreviation (input) OBC_FID_SET_HEATER :: u8 where "OBC_FID_SET_HEATER \<equiv> 2"
abbreviation (input) OBC_FID_INJECT_TEMP :: u8 where "OBC_FID_INJECT_TEMP \<equiv> 3"
abbreviation (input) OBC_FID_RESET_COUNTERS :: u8 where "OBC_FID_RESET_COUNTERS \<equiv> 4"
abbreviation (input) OBC_FID_SET_TIME :: u8 where "OBC_FID_SET_TIME \<equiv> 5"

definition svc08_handle :: "pus_tc_t option \<Rightarrow> obsw \<Rightarrow> (pus_status_t \<times> obsw) option" where
  "svc08_handle tc s =
     (case tc of None \<Rightarrow> Some (PUS_ERR_NULL, s)
      | Some t \<Rightarrow>
          if service_subtype t \<noteq> PUS_ST08_PERFORM then Some (PUS_ERR_UNKNOWN_SUBTYPE, s)
          else if app_data_len t < 1 then Some (PUS_ERR_BAD_LENGTH, s)
          else do {
            p \<leftarrow> app_data t;
            fid \<leftarrow> pus_get_u8 p 0;
            let arg_len = app_data_len t - 1;
            if fid = OBC_FID_SET_MODE then
              if arg_len \<noteq> 1 then Some (PUS_ERR_BAD_LENGTH, s)
              else do {
                arg8 \<leftarrow> pus_get_u8 p 1;
                if arg8 \<noteq> ucast OBC_MODE_SAFE \<and> arg8 \<noteq> ucast OBC_MODE_NOMINAL
                then Some (PUS_ERR_BAD_PARAMETER, s)
                else obc_set_mode (ucast arg8) s }
            else if fid = OBC_FID_SET_HEATER then
              if arg_len \<noteq> 1 then Some (PUS_ERR_BAD_LENGTH, s)
              else do {
                arg8 \<leftarrow> pus_get_u8 p 1;
                if arg8 > 1 then Some (PUS_ERR_BAD_PARAMETER, s)
                else obc_set_heater (if arg8 \<noteq> 0 then PUS_TRUE else PUS_FALSE) s }
            else if fid = OBC_FID_INJECT_TEMP then
              if arg_len \<noteq> 2 then Some (PUS_ERR_BAD_LENGTH, s)
              else do {
                v \<leftarrow> pus_get_i16 p 1;
                Some (PUS_OK, s\<lparr> hal := hal_inject_temperature v (hal s) \<rparr>) }
            else if fid = OBC_FID_SET_TIME then
              if arg_len \<noteq> 6 then Some (PUS_ERR_BAD_LENGTH, s)
              else do {
                coarse \<leftarrow> pus_get_u32 p 1;
                fine \<leftarrow> pus_get_u16 p 5;
                Some (PUS_OK, s\<lparr> hal := hal_set_cuc_time coarse fine (hal s) \<rparr>) }
            else if fid = OBC_FID_RESET_COUNTERS then
              if arg_len \<noteq> 0 then Some (PUS_ERR_BAD_LENGTH, s)
              else do {
                (_, s) \<leftarrow> obc_reset_counters s;
                Some (PUS_OK, s) }
            else Some (PUS_ERR_UNKNOWN_FUNCTION, s) })"

section \<open>Specifications\<close>

datatype obc_function =
    Set_Mode opmode
  | Set_Heater bool
  | Inject_Temp i16
  | Reset_Counters
  | Set_Time u32 u16

text \<open>The function a request names, with its arguments, or the reason it is refused.\<close>

definition function_request :: "u8 list \<Rightarrow> pus_status_t + obc_function" where
  "function_request app =
     (case app of [] \<Rightarrow> Inl PUS_ERR_BAD_LENGTH
      | fid # args \<Rightarrow>
          if fid = 1 then
            (case args of [m] \<Rightarrow> if m = 0 then Inr (Set_Mode Safe)
                                else if m = 1 then Inr (Set_Mode Nominal)
                                else Inl PUS_ERR_BAD_PARAMETER
             | _ \<Rightarrow> Inl PUS_ERR_BAD_LENGTH)
          else if fid = 2 then
            (case args of [v] \<Rightarrow> if v \<le> 1 then Inr (Set_Heater (v = 1)) else Inl PUS_ERR_BAD_PARAMETER
             | _ \<Rightarrow> Inl PUS_ERR_BAD_LENGTH)
          else if fid = 3 then
            (case args of [a, b] \<Rightarrow> Inr (Inject_Temp (of_be16 a b)) | _ \<Rightarrow> Inl PUS_ERR_BAD_LENGTH)
          else if fid = 4 then
            (case args of [] \<Rightarrow> Inr Reset_Counters | _ \<Rightarrow> Inl PUS_ERR_BAD_LENGTH)
          else if fid = 5 then
            (case args of [a, b, c, d, e, f] \<Rightarrow> Inr (Set_Time (of_be32 a b c d) (of_be16 e f))
             | _ \<Rightarrow> Inl PUS_ERR_BAD_LENGTH)
          else Inl PUS_ERR_UNKNOWN_FUNCTION)"

primrec perform_function :: "obc_function \<Rightarrow> spec \<Rightarrow> pus_status_t \<times> spec" where
  "perform_function (Set_Mode m) a = (PUS_OK, sp_set_mode m a)"
| "perform_function (Set_Heater on) a = sp_set_heater on a"
| "perform_function (Inject_Temp v) a = (PUS_OK, a\<lparr> sp_hal := hal_inject_temperature v (sp_hal a) \<rparr>)"
| "perform_function Reset_Counters a = (PUS_OK, sp_reset_counters a)"
| "perform_function (Set_Time coarse fine) a =
     (PUS_OK, a\<lparr> sp_hal := hal_set_cuc_time coarse fine (sp_hal a) \<rparr>)"

definition sp_svc08 :: "telecommand \<Rightarrow> spec \<Rightarrow> pus_status_t \<times> spec" where
  "sp_svc08 c a =
     (if tc_subtype c \<noteq> 1 then (PUS_ERR_UNKNOWN_SUBTYPE, a)
      else case function_request (tc_app c) of Inl st \<Rightarrow> (st, a) | Inr f \<Rightarrow> perform_function f a)"

section \<open>Refinement\<close>

lemma svc08_handle_NULL: "svc08_handle None s = Some (PUS_ERR_NULL, s)"
  by (simp add: svc08_handle_def)

lemma refines_hal:
  "obsw_inv s \<Longrightarrow> a = (r, (obsw_abs s)\<lparr> sp_hal := h \<rparr>) \<Longrightarrow>
   refines (Some (r, s\<lparr> hal := h \<rparr>)) a"
  by (auto simp: obsw_inv_def obsw_abs_def)

text \<open>The three groups of argument lists the code tells apart by their length.\<close>

lemma list_by_length:
  "xs = [] \<longleftrightarrow> length xs = 0"
  "(\<exists>a. xs = [a]) \<longleftrightarrow> length xs = 1"
  "(\<exists>a b. xs = [a, b]) \<longleftrightarrow> length xs = 2"
  "(\<exists>a b c d e f. xs = [a, b, c, d, e, f]) \<longleftrightarrow> length xs = 6"
  by (auto simp: length_Suc_conv numeral_2_eq_2 eval_nat_numeral)

text \<open>A request names a function with all its arguments, or is refused for the number of them.\<close>

lemma function_arguments:
  obtains (mode) m where "fid = 1" and "args = [m]" | (heater) v where "fid = 2" and "args = [v]"
  | (temperature) a b where "fid = 3" and "args = [a, b]" | (reset) "fid = 4" and "args = []"
  | (time) a b c d e f where "fid = 5" and "args = [a, b, c, d, e, f]"
  | (refused) "fid = 1 \<and> length args \<noteq> 1 \<or> fid = 2 \<and> length args \<noteq> 1 \<or> fid = 3 \<and> length args \<noteq> 2 \<or>
      fid = 4 \<and> length args \<noteq> 0 \<or> fid = 5 \<and> length args \<noteq> 6 \<or> fid \<notin> {1, 2, 3, 4, 5 :: u8}"
  using list_by_length [of args] by fastforce

lemma svc08_perform_refines:
  assumes inv: "obsw_inv s" and sub: "service_subtype tc = 1" "tc_subtype (tc_abs tc) = 1"
    and app: "tc_app (tc_abs tc) = fid # args" "app_data_len tc = Suc (length args)"
    and p: "app_data tc = Some (octets (fid # args) @ rest)"
  shows "refines (svc08_handle (Some tc) s) (sp_svc08 (tc_abs tc) (obsw_abs s))"
proof -
  note run = svc08_handle_def sp_svc08_def function_request_def sub app p Let_def
    pus_get_u8_prefix pus_get_i16_prefix pus_get_u16_prefix pus_get_u32_prefix
  show ?thesis
  proof (cases rule: function_arguments [of fid args])
    case (mode m)
    then show ?thesis
      using inv obc_set_mode_refines [OF inv, of "ucast m"] by (auto simp: run mode_of_def)
  next
    case (heater v)
    have "v \<le> 1 \<longleftrightarrow> v = 0 \<or> v = 1"
      by (auto simp: word_le_nat_alt word_unat_eq_iff)
    then show ?thesis
      using heater inv obc_set_heater_refines [OF inv, of "if v \<noteq> 0 then 1 else 0"]
      by (auto simp: run not_less [symmetric])
  next
    case (temperature a b)
    then show ?thesis
      using inv by (auto simp: run sp_hal_abs intro!: refines_hal)
  next
    case reset
    then show ?thesis
      using inv obc_reset_counters_refines [OF inv] by (auto simp: run intro: refines_void)
  next
    case (time a b c d e f)
    then show ?thesis
      using inv by (auto simp: run sp_hal_abs intro!: refines_hal)
  next
    case refused
    then show ?thesis
      using inv by (elim disjE conjE) (auto simp: run split: list.split)
  qed
qed

lemma svc08_handle_refines:
  assumes inv: "obsw_inv s" and tc: "tc_ok tc"
  shows "refines (svc08_handle (Some tc) s) (sp_svc08 (tc_abs tc) (obsw_abs s))"
proof (cases "service_subtype tc = 1 \<and> tc_app (tc_abs tc) \<noteq> []")
  case False
  then show ?thesis
    using inv tc_ok_app(1) [OF tc]
    by (auto simp: svc08_handle_def sp_svc08_def function_request_def tc_abs_def)
next
  case True
  then obtain fid args where app: "tc_app (tc_abs tc) = fid # args" "service_subtype tc = 1"
    by (auto simp: neq_Nil_conv)
  have "app_data_len tc = Suc (length args)"
    using tc_ok_app(1) [OF tc] app by simp
  moreover from this obtain rest where "app_data tc = Some (octets (fid # args) @ rest)"
    using tc_ok_app(2) [OF tc] app by auto
  moreover have "tc_subtype (tc_abs tc) = 1"
    using app(2) by (simp add: tc_abs_def)
  ultimately show ?thesis
    using svc08_perform_refines [OF inv] app by blast
qed


section \<open>Properties\<close>

text \<open>
  C27: A request to service 8 is decoded completely before it acts. Another subtype, an unknown
  identifier, a wrong argument length or an argument out of range is refused with its reason and
  changes nothing. Every other request has exactly the effect of its function, and reports
  besides: the mode, with the heater and its line off in SAFE mode; the heater and its line, which
  is refused in SAFE mode; the temperature the sensor reads; cleared counters; or the epoch of the
  clock, so that it reads the commanded time where the commanded fraction is not below the
  fraction of the running second, and one second later where it is. The state is one in which the
  heater line agrees with the published heater state and is off in SAFE mode, as it does in every
  reachable state (heater_coherent).
\<close>

theorem svc08_functions:
  assumes inv: "obsw_inv s" and tc: "tc_ok tc"
    and line: "hal_get_heater (hal s) = heater_on (s_state s)"
    and off: "mode (s_state s) = OBC_MODE_SAFE \<longrightarrow> heater_on (s_state s) = PUS_FALSE"
  shows "\<exists>st s'. svc08_handle (Some tc) s = Some (st, s') \<and>
    (if service_subtype tc \<noteq> 1 then st = PUS_ERR_UNKNOWN_SUBTYPE \<and> obsw_abs s' = obsw_abs s
     else case function_request (tc_app (tc_abs tc)) of
       Inl err \<Rightarrow> st = err \<and> obsw_abs s' = obsw_abs s
     | Inr (Set_Mode m) \<Rightarrow>
         st = PUS_OK \<and>
         (let h = (m = Nominal \<and> heater_on (s_state s) \<noteq> PUS_FALSE)
          in telemetry_only ((obsw_abs s)\<lparr> sp_mode := m, sp_hal := (hal s)\<lparr> s_heater_on := of_bool h \<rparr>, sp_heater := h \<rparr>) (obsw_abs s'))
     | Inr (Set_Heater on) \<Rightarrow>
         if mode (s_state s) = OBC_MODE_SAFE then st = PUS_ERR_NOT_PERMITTED \<and> obsw_abs s' = obsw_abs s
         else st = PUS_OK \<and>
           telemetry_only ((obsw_abs s)\<lparr> sp_hal := (hal s)\<lparr> s_heater_on := of_bool on \<rparr>, sp_heater := on \<rparr>) (obsw_abs s')
     | Inr (Inject_Temp v) \<Rightarrow>
         st = PUS_OK \<and> obsw_abs s' = (obsw_abs s)\<lparr> sp_hal := (hal s)\<lparr> s_temperature_dc := v \<rparr> \<rparr>
     | Inr Reset_Counters \<Rightarrow>
         st = PUS_OK \<and>
         obsw_abs s' = (obsw_abs s)\<lparr> sp_accepted := 0, sp_rejected := 0, sp_failure := 0 \<rparr>
     | Inr (Set_Time c f) \<Rightarrow>
         st = PUS_OK \<and>
         obsw_abs s' = (obsw_abs s)\<lparr> sp_hal := (hal s)\<lparr> s_epoch_coarse := s_epoch_coarse (hal s'),
           s_epoch_fine := s_epoch_fine (hal s') \<rparr> \<rparr> \<and>
         cuc_time (hal s') = (if frac (hal s) \<le> unat f then c else c + 1, f))"
proof -
  let ?a = "obsw_abs s"
  let ?r = "sp_svc08 (tc_abs tc) ?a"
  obtain s' where s': "svc08_handle (Some tc) s = Some (fst ?r, s')" "obsw_abs s' = snd ?r"
    using svc08_handle_refines [OF inv tc] by (rule refinesE)
  have heater: "heater_on (s_state s) \<noteq> PUS_FALSE \<longleftrightarrow> sp_heater ?a"
    using heater_abs [OF inv] by simp
  have "s_heater_on (sp_hal ?a) = of_bool (sp_heater ?a)" and "sp_mode ?a = Safe \<longrightarrow> \<not> sp_heater ?a"
    using line off heater_abs [OF inv] by (simp_all add: hal_get_heater_def sp_hal_abs sp_mode_Safe)
  note effects = telemetry_only_switch [OF this(1)] telemetry_only_mode [OF this HOL.refl]
  have clock: "hal_set_cuc_time c f (hal s) = (hal s)\<lparr> s_epoch_coarse := s_epoch_coarse (hal_set_cuc_time c f (hal s)),
      s_epoch_fine := s_epoch_fine (hal_set_cuc_time c f (hal s)) \<rparr>"
    "cuc_time (hal_set_cuc_time c f (hal s)) = (if frac (hal s) \<le> unat f then c else c + 1, f)" for c f
    using cuc_time_set_exact [of "hal s" f c] cuc_time_set_late [of f "hal s" c] by (simp_all add: hal_set_cuc_time_def)
  show ?thesis
  proof (cases "service_subtype tc = 1")
    case False
    then show ?thesis
      using s' by (simp add: sp_svc08_def tc_abs_def)
  next
    case True
    then have r: "?r = (case function_request (tc_app (tc_abs tc)) of Inl st \<Rightarrow> (st, ?a) | Inr f \<Rightarrow> perform_function f ?a)"
      by (simp add: sp_svc08_def tc_abs_def)
    show ?thesis
    proof (cases "function_request (tc_app (tc_abs tc))")
      case (Inl st)
      then show ?thesis
        using s' r True by simp
    next
      case (Inr f)
      then have r: "?r = perform_function f ?a"
        using r by simp
      show ?thesis
      proof (cases f)
        case (Set_Mode m)
        then show ?thesis
          using s' Inr True effects(2) [of m] unfolding r by (simp add: heater sp_hal_abs Let_def)
      next
        case (Set_Heater on)
        then show ?thesis
          using s' Inr True effects(1) [of on] unfolding r by (simp add: sp_set_heater_def sp_mode_Safe sp_hal_abs)
      next
        case (Inject_Temp v)
        then show ?thesis
          using s' Inr True unfolding r by (simp add: hal_inject_temperature_def sp_hal_abs)
      next
        case Reset_Counters
        then show ?thesis
          using s' Inr True unfolding r by (simp add: sp_reset_counters_def)
      next
        case (Set_Time c f)
        then have "obsw_abs s' = ?a\<lparr> sp_hal := hal_set_cuc_time c f (hal s) \<rparr>"
          using s'(2) unfolding r by (simp add: sp_hal_abs)
        moreover from this have "hal s' = hal_set_cuc_time c f (hal s)"
          using sp_hal_abs [of s'] by simp
        ultimately show ?thesis
          using s'(1) Inr True Set_Time clock [of c f] unfolding r by simp
      qed
    qed
  qed
qed

lemma svc08_functions_witness:
  "\<exists>s'. svc08_handle (Some (example_tc 8 1 [3, 0xFF, 0x38])) power_on = Some (PUS_OK, s') \<and>
     sint (s_temperature_dc (hal s')) = -200"
proof -
  have r: "function_request [3, 0xFF, 0x38] = Inr (Inject_Temp 0xFF38)" and "sint (0xFF38 :: i16) = -200"
    by code_simp+
  moreover obtain s' where s': "svc08_handle (Some (example_tc 8 1 [3, 0xFF, 0x38])) power_on = Some (PUS_OK, s')"
    and abs: "obsw_abs s' = (obsw_abs power_on)\<lparr> sp_hal := (hal power_on)\<lparr> s_temperature_dc := 0xFF38 \<rparr> \<rparr>"
    using svc08_functions [OF obsw_inv_power_on, of "example_tc 8 1 [3, 0xFF, 0x38]"] r
    by (auto simp: power_on_def hal_get_heater_def)
  moreover have "hal s' = sp_hal (obsw_abs s')"
    by (simp add: sp_hal_abs)
  ultimately show ?thesis
    by simp
qed

end
