(* ===== verification/Svc17.thy ===== *)
theory Svc17
  imports Obsw_State
begin

text \<open>
  Service 17, connection test: \<open>include/pus/svc17_test.h\<close> and \<open>src/svc17_test.c\<close>.
\<close>

section \<open>The code\<close>

abbreviation (input) PUS_SERVICE_TEST :: u8 where "PUS_SERVICE_TEST \<equiv> 17"
abbreviation (input) PUS_ST17_ARE_YOU_ALIVE :: u8 where "PUS_ST17_ARE_YOU_ALIVE \<equiv> 1"
abbreviation (input) PUS_ST17_I_AM_ALIVE :: u8 where "PUS_ST17_I_AM_ALIVE \<equiv> 2"

definition svc17_handle :: "pus_tc_t option \<Rightarrow> obsw \<Rightarrow> (pus_status_t \<times> obsw) option" where
  "svc17_handle tc s =
     (case tc of None \<Rightarrow> Some (PUS_ERR_NULL, s)
      | Some t \<Rightarrow>
          if service_subtype t \<noteq> PUS_ST17_ARE_YOU_ALIVE then Some (PUS_ERR_UNKNOWN_SUBTYPE, s)
          else if app_data_len t \<noteq> 0 then Some (PUS_ERR_BAD_LENGTH, s)
          else pus_tm_send PUS_SERVICE_TEST PUS_ST17_I_AM_ALIVE None 0 s)"

section \<open>Specification and refinement\<close>

definition sp_svc17 :: "telecommand \<Rightarrow> spec \<Rightarrow> pus_status_t \<times> spec" where
  "sp_svc17 c a =
     (if tc_subtype c \<noteq> 1 then (PUS_ERR_UNKNOWN_SUBTYPE, a)
      else if tc_app c \<noteq> [] then (PUS_ERR_BAD_LENGTH, a)
      else emit 17 2 [] a)"

lemma svc17_handle_NULL: "svc17_handle None s = Some (PUS_ERR_NULL, s)"
  by (simp add: svc17_handle_def)

lemma svc17_handle_refines:
  assumes inv: "obsw_inv s" and tc: "tc_ok tc"
  shows "refines (svc17_handle (Some tc) s) (sp_svc17 (tc_abs tc) (obsw_abs s))"
proof -
  have "app_data_len tc = 0 \<longleftrightarrow> tc_app (tc_abs tc) = []"
    using tc_ok_app(1) [OF tc] by simp
  moreover have "tc_subtype (tc_abs tc) = service_subtype tc"
    by (simp add: tc_abs_def)
  moreover have "refines (pus_tm_send 17 2 None 0 s) (emit 17 2 [] (obsw_abs s))"
    by (rule pus_tm_send_refines [OF inv, of None "[]"]) (simp_all add: holds_def)
  ultimately show ?thesis
    using inv by (auto simp: svc17_handle_def sp_svc17_def)
qed

end
