(* ===== verification/Obc_App.thy ===== *)
theory Obc_App
  imports Svc03 Svc08 Svc17
begin

text \<open>
  The application layer of \<open>src/obc_app.c\<close> above the services: initialisation, the
  dispatcher, the telecommand cycle and the minor cycle. The interface the dispatcher relies
  on is the locale \<open>service_handler\<close>; every service interprets it, and so does the dispatcher
  itself, on the routing of the abstract side.
\<close>

section \<open>The code\<close>

definition obc_init :: "obsw \<Rightarrow> (unit \<times> obsw) option" where
  "obc_init s = do {
     let s = s\<lparr> hal := hal_time_init (hal s) \<rparr>;
     let s = s\<lparr> tmq := tm_queue_init (tmq s) \<rparr>;
     t \<leftarrow> pus_tm_reset (tmgen s);
     let s = s\<lparr> tmgen := t \<rparr>;
     (_, s) \<leftarrow> svc03_init s;
     (_, s) \<leftarrow> svc05_init s;
     let s = s\<lparr> s_state := \<lparr> mode = OBC_MODE_SAFE, uptime_ticks = 0,
       temperature_dc = hal_read_temperature (hal s), heater_on = PUS_FALSE,
       tc_accepted = 0, tc_rejected = 0, last_failure_code = 0 \<rparr> \<rparr>;
     let s = s\<lparr> hal := hal_set_heater PUS_FALSE (hal s) \<rparr>;
     let s = s\<lparr> s_alarm_latched := PUS_FALSE, s_last_overflow := 0 \<rparr>;
     (_, s) \<leftarrow> svc05_report OBC_EVT_BOOT_COMPLETED PUS_ST05_INFORMATIVE 0 s;
     Some ((), s) }"

definition obc_route :: "pus_tc_t \<Rightarrow> obsw \<Rightarrow> (pus_status_t \<times> obsw) option" where
  "obc_route tc s =
     (if service_type tc = PUS_SERVICE_HOUSEKEEPING then svc03_handle (Some tc) s
      else if service_type tc = PUS_SERVICE_EVENT then svc05_handle (Some tc) s
      else if service_type tc = PUS_SERVICE_FUNCTION then svc08_handle (Some tc) s
      else if service_type tc = PUS_SERVICE_TEST then svc17_handle (Some tc) s
      else Some (PUS_ERR_UNKNOWN_SERVICE, s))"

definition obc_process_tc :: "mem option \<Rightarrow> nat \<Rightarrow> obsw \<Rightarrow> (pus_status_t \<times> obsw) option" where
  "obc_process_tc buf len s = do {
     (st, tc) \<leftarrow> pus_tc_parse buf len (Some None);
     if st \<noteq> PUS_OK then do {
       let s = (if tc_rejected (s_state s) < 0xFFFF
         then s\<lparr> s_state := (s_state s)\<lparr> tc_rejected := tc_rejected (s_state s) + 1 \<rparr> \<rparr> else s);
       let s = s\<lparr> s_state := (s_state s)\<lparr> last_failure_code := status_code st \<rparr> \<rparr>;
       (_, s) \<leftarrow> svc01_reject_raw buf len st s;
       (_, s) \<leftarrow> svc05_report OBC_EVT_TC_REJECTED PUS_ST05_LOW_SEVERITY (status_code st) s;
       Some (st, s) }
     else do {
       tcp \<leftarrow> tc;
       tc \<leftarrow> tcp;
       let s = (if tc_accepted (s_state s) < 0xFFFF
         then s\<lparr> s_state := (s_state s)\<lparr> tc_accepted := tc_accepted (s_state s) + 1 \<rparr> \<rparr> else s);
       (_, s) \<leftarrow> svc01_acceptance_success (Some tc) s;
       (st, s) \<leftarrow> obc_route tc s;
       if st = PUS_OK then do {
         (_, s) \<leftarrow> svc01_completion_success (Some tc) s;
         Some (st, s) }
       else do {
         let s = s\<lparr> s_state := (s_state s)\<lparr> last_failure_code := status_code st \<rparr> \<rparr>;
         (_, s) \<leftarrow> svc01_completion_failure (Some tc) st s;
         (_, s) \<leftarrow> svc05_report OBC_EVT_TC_REJECTED PUS_ST05_LOW_SEVERITY (status_code st) s;
         Some (st, s) } } }"

definition obc_tick :: "obsw \<Rightarrow> (unit \<times> obsw) option" where
  "obc_tick s = do {
     let s = s\<lparr> hal := hal_time_advance (hal s) \<rparr>;
     let s = s\<lparr> s_state := (s_state s)\<lparr> uptime_ticks := uptime_ticks (s_state s) + 1 \<rparr> \<rparr>;
     let s = s\<lparr> s_state := (s_state s)\<lparr> temperature_dc := hal_read_temperature (hal s) \<rparr> \<rparr>;
     (_, s) \<leftarrow> obc_thermal_control s;
     let overflows = tm_queue_overflow_count (tmq s);
     (_, s) \<leftarrow>
       (if overflows \<noteq> s_last_overflow s then do {
          let s = s\<lparr> s_last_overflow := overflows \<rparr>;
          (_, s) \<leftarrow> svc05_report OBC_EVT_TM_QUEUE_OVERFLOW PUS_ST05_LOW_SEVERITY overflows s;
          Some ((), s) }
        else Some ((), s));
     svc03_tick s }"

section \<open>Specifications\<close>

definition boot_spec :: spec where
  "boot_spec = \<lparr>
     sp_queue = [], sp_drops = 0, sp_seq = 0, sp_ctr = (\<lambda>_. 0),
     sp_hal = \<lparr> s_ticks = 0, s_epoch_coarse = 0, s_epoch_fine = 0, s_temperature_dc = 200,
       s_heater_on = 0 \<rparr>,
     sp_hk = (\<lambda>sid. sid = 1), sp_phase = 0, sp_ev = event_id_ok, sp_mode = Safe, sp_uptime = 0,
     sp_temp = 200, sp_heater = False, sp_accepted = 0, sp_rejected = 0, sp_failure = 0,
     sp_alarm = False, sp_last_drops = 0 \<rparr>"

text \<open>The state after initialisation does not depend on the state before.\<close>

definition sp_boot :: spec where
  "sp_boot = snd (sp_event 1 1 0 boot_spec)"

definition sp_route :: "telecommand \<Rightarrow> spec \<Rightarrow> pus_status_t \<times> spec" where
  "sp_route c a =
     (if tc_service c = 3 then sp_svc03 c a
      else if tc_service c = 5 then sp_svc05 c a
      else if tc_service c = 8 then sp_svc08 c a
      else if tc_service c = 17 then sp_svc17 c a
      else (PUS_ERR_UNKNOWN_SERVICE, a))"

text \<open>What a packet that fails the acceptance checks does.\<close>

definition sp_refuse :: "u8 list \<Rightarrow> pus_status_t \<Rightarrow> spec \<Rightarrow> spec" where
  "sp_refuse bs st a =
     (let b = a\<lparr> sp_rejected := sat_inc (sp_rejected a), sp_failure := status_code st \<rparr>
      in snd (sp_event 3 2 (status_code st) (snd (sp_reject bs st b))))"

text \<open>What an accepted telecommand does: acceptance, service, completion.\<close>

definition sp_finish :: "telecommand \<Rightarrow> pus_status_t \<Rightarrow> spec \<Rightarrow> spec" where
  "sp_finish c st a =
     (if st = PUS_OK then snd (sp_completion c PUS_OK a)
      else snd (sp_event 3 2 (status_code st)
        (snd (sp_completion c st (a\<lparr> sp_failure := status_code st \<rparr>)))))"

definition sp_execute :: "telecommand \<Rightarrow> spec \<Rightarrow> pus_status_t \<times> spec" where
  "sp_execute c a =
     (let b = snd (sp_acceptance c (a\<lparr> sp_accepted := sat_inc (sp_accepted a) \<rparr>));
          (st, d) = sp_route c b
      in (st, sp_finish c st d))"

definition sp_process :: "u8 list \<Rightarrow> spec \<Rightarrow> pus_status_t \<times> spec" where
  "sp_process bs a =
     (if tc_verdict bs = PUS_OK then sp_execute (tc_decode bs) a
      else (tc_verdict bs, sp_refuse bs (tc_verdict bs) a))"

definition sp_sample :: "spec \<Rightarrow> spec" where
  "sp_sample a = a\<lparr> sp_hal := hal_time_advance (sp_hal a), sp_uptime := sp_uptime a + 1,
     sp_temp := s_temperature_dc (sp_hal a) \<rparr>"

definition sp_overflow :: "spec \<Rightarrow> spec" where
  "sp_overflow a =
     (if sp_drops a = sp_last_drops a then a
      else snd (sp_event 4 2 (sp_drops a) (a\<lparr> sp_last_drops := sp_drops a \<rparr>)))"

definition sp_tick :: "spec \<Rightarrow> spec" where
  "sp_tick a = sp_hk_tick (sp_overflow (sp_thermal (sp_sample a)))"

section \<open>The interface of a service\<close>

text \<open>
  A service handler answers \<open>PUS_ERR_NULL\<close> to a NULL telecommand, and on a decoded one
  implements its specification from every state that satisfies the structural invariant.
\<close>

locale service_handler =
  fixes handle :: "pus_tc_t option \<Rightarrow> obsw \<Rightarrow> (pus_status_t \<times> obsw) option"
    and serve :: "telecommand \<Rightarrow> spec \<Rightarrow> pus_status_t \<times> spec"
  assumes handle_NULL: "handle None s = Some (PUS_ERR_NULL, s)"
    and handle_refines: "obsw_inv s \<Longrightarrow> tc_ok tc \<Longrightarrow>
      refines (handle (Some tc) s) (serve (tc_abs tc) (obsw_abs s))"
begin

text \<open>On the structure the parser fills from an accepted packet the handler serves its telecommand.\<close>

lemma handle_accepted:
  assumes "obsw_inv s" and "tc_verdict bs = PUS_OK"
  shows "refines (handle (Some (tc_image bs rest)) s) (serve (tc_decode bs) (obsw_abs s))"
  using handle_refines [OF assms(1), of "tc_image bs rest"] tc_verdict_OK_length [OF assms(2)]
  by (simp add: tc_abs_image tc_ok_image)

text \<open>No telecommand structure makes a handler run into undefined behaviour.\<close>

lemma handle_safe:
  assumes "obsw_inv s" and "case tc of None \<Rightarrow> True | Some t \<Rightarrow> tc_ok t"
  shows "\<exists>st s'. handle tc s = Some (st, s') \<and> obsw_inv s'"
proof (cases tc)
  case None
  then show ?thesis
    using assms(1) handle_NULL by simp
next
  case (Some t)
  then show ?thesis
    using assms handle_refines [of s t] by (auto simp: refines_def)
qed

end

interpretation svc03: service_handler svc03_handle sp_svc03
  by unfold_locales (simp_all add: svc03_handle_NULL svc03_handle_refines)

interpretation svc05: service_handler svc05_handle sp_svc05
  by unfold_locales (simp_all add: svc05_handle_NULL svc05_handle_refines)

interpretation svc08: service_handler svc08_handle sp_svc08
  by unfold_locales (simp_all add: svc08_handle_NULL svc08_handle_refines)

interpretation svc17: service_handler svc17_handle sp_svc17
  by unfold_locales (simp_all add: svc17_handle_NULL svc17_handle_refines)

text \<open>The dispatcher on an accepted packet.\<close>

lemma obc_route_refines:
  assumes inv: "obsw_inv s" and ok: "tc_verdict bs = PUS_OK"
  shows "refines (obc_route (tc_image bs rest) s) (sp_route (tc_decode bs) (obsw_abs s))"
proof -
  have "service_type (tc_image bs rest) = tc_service (tc_decode bs)"
    by (simp add: tc_image_def tc_decode_def)
  then show ?thesis
    using svc03.handle_accepted [OF inv ok] svc05.handle_accepted [OF inv ok]
      svc08.handle_accepted [OF inv ok] svc17.handle_accepted [OF inv ok] inv
    by (auto simp: obc_route_def sp_route_def)
qed

section \<open>Initialisation\<close>

lemma obc_init_refines:
  assumes inv: "obsw_inv s"
  shows "refines (obc_init s) ((), sp_boot)"
proof -
  have q: "tmq_inv (tm_queue_init (tmq s))" "tmq_list (tm_queue_init (tmq s)) = []"
      "s_overflows (tm_queue_init (tmq s)) = 0"
    using tmq_inv_init [of "tmq s"] inv by (simp_all add: obsw_inv_def fifo_of_def)
  have c: "length (s_msg_counter (tmgen s)) = 256"
    using inv by (simp add: obsw_inv_def tm_inv_def)
  let ?t = "\<lparr> s_seq_count = 0, s_msg_counter = replicate 256 0 \<rparr>"
  let ?s1 = "s\<lparr> hal := hal_time_init (hal s), tmq := tm_queue_init (tmq s), tmgen := ?t \<rparr>"
  have i1: "obsw_inv ?s1"
    using inv q by (simp add: obsw_inv_def tm_inv_def queue_wf_def)
  obtain s2 where s2: "svc03_init ?s1 = Some ((), s2)" "obsw_inv s2"
      "obsw_abs s2 = (obsw_abs ?s1)\<lparr> sp_hk := (\<lambda>sid. sid = 1), sp_phase := 0 \<rparr>"
    using refinesE [OF svc03_init_refines [OF i1]] by auto
  obtain s3 where s3: "svc05_init s2 = Some ((), s3)" "obsw_inv s3"
      "obsw_abs s3 = (obsw_abs s2)\<lparr> sp_ev := event_id_ok \<rparr>"
    using refinesE [OF svc05_init_refines [OF s2(2)]] by auto
  let ?s4 = "s3\<lparr> s_state := \<lparr> mode = 0, uptime_ticks = 0,
       temperature_dc = hal_read_temperature (hal s3), heater_on = 0,
       tc_accepted = 0, tc_rejected = 0, last_failure_code = 0 \<rparr>,
     hal := hal_set_heater 0 (hal s3), s_alarm_latched := 0, s_last_overflow := 0 \<rparr>"
  have i4: "obsw_inv ?s4"
    using s3(2) by (simp add: obsw_inv_def)
  have hal: "hal s3 = hal_time_init (hal s)"
    using arg_cong [OF s3(3), of sp_hal] s2(3) by (simp add: obsw_abs_def)
  have "obsw_abs ?s4 = (obsw_abs s3)\<lparr> sp_mode := Safe, sp_uptime := 0,
      sp_temp := s_temperature_dc (hal s3), sp_heater := False, sp_accepted := 0, sp_rejected := 0,
      sp_failure := 0, sp_hal := hal_set_heater 0 (hal s3), sp_alarm := False, sp_last_drops := 0 \<rparr>"
    by (simp add: obsw_abs_def mode_of_def hal_read_temperature_def)
  also have "\<dots> = boot_spec"
    unfolding s3(3) s2(3) hal using q unat_u8_less
    by (simp add: obsw_abs_def boot_spec_def hal_time_init_def hal_set_heater_def)
  finally have abs: "obsw_abs ?s4 = boot_spec" .
  have "obc_init s = do {
      (_, s) \<leftarrow> svc05_report 1 1 0 ?s4;
      Some ((), s) }"
    using c by (simp add: obc_init_def Let_def pus_tm_reset_eq s2(1) s3(1))
  moreover have "refines \<dots> ((), sp_boot)"
    using i4 by (rule refines_report) (simp_all add: sp_boot_def abs)
  ultimately show ?thesis
    by simp
qed

section \<open>The telecommand cycle\<close>

lemma refines_state:
  assumes "obsw_inv s" and "a = (r, obsw_abs (s\<lparr> s_state := st \<rparr>))"
    and "mode st \<in> {0, 1}" and "heater_on st \<in> {0, 1}"
  shows "refines (Some (r, s\<lparr> s_state := st \<rparr>)) a"
  using assms by (auto simp: obsw_inv_def)

text \<open>The counter updates at the head of both branches.\<close>

definition count_rejected :: "pus_status_t \<Rightarrow> obsw \<Rightarrow> obsw" where
  "count_rejected st s = s\<lparr> s_state := (s_state s)\<lparr>
     tc_rejected := sat_inc (tc_rejected (s_state s)), last_failure_code := status_code st \<rparr> \<rparr>"

definition count_accepted :: "obsw \<Rightarrow> obsw" where
  "count_accepted s = s\<lparr> s_state := (s_state s)\<lparr> tc_accepted := sat_inc (tc_accepted (s_state s)) \<rparr> \<rparr>"

definition note_failure :: "pus_status_t \<Rightarrow> obsw \<Rightarrow> obsw" where
  "note_failure st s = s\<lparr> s_state := (s_state s)\<lparr> last_failure_code := status_code st \<rparr> \<rparr>"

lemma count_lemmas:
  assumes "obsw_inv s"
  shows "obsw_inv (count_rejected st s)" and "obsw_inv (count_accepted s)" and "obsw_inv (note_failure st s)"
    and "obsw_abs (count_rejected st s) = (obsw_abs s)\<lparr> sp_rejected := sat_inc (sp_rejected (obsw_abs s)),
        sp_failure := status_code st \<rparr>"
    and "obsw_abs (count_accepted s) = (obsw_abs s)\<lparr> sp_accepted := sat_inc (sp_accepted (obsw_abs s)) \<rparr>"
    and "obsw_abs (note_failure st s) = (obsw_abs s)\<lparr> sp_failure := status_code st \<rparr>"
  using assms
  by (simp_all add: count_rejected_def count_accepted_def note_failure_def obsw_inv_def obsw_abs_def)

lemma count_accepted_code:
  "(if tc_accepted (s_state s) < 0xFFFF
    then s\<lparr> s_state := (s_state s)\<lparr> tc_accepted := tc_accepted (s_state s) + 1 \<rparr> \<rparr> else s)
   = count_accepted s"
  by (simp add: count_accepted_def sat_inc_def)

text \<open>The two report sequences that end a telecommand.\<close>

lemma refuse_refines:
  assumes inv: "obsw_inv s"
    and rej: "refines (svc01_reject_raw buf len st (count_rejected st s))
      (sp_reject bs st (obsw_abs (count_rejected st s)))"
  shows "refines (do {
      (_, s) \<leftarrow> svc01_reject_raw buf len st (count_rejected st s);
      (_, s) \<leftarrow> svc05_report 3 2 (status_code st) s;
      Some (st, s) }) (st, sp_refuse bs st (obsw_abs s))"
proof -
  have "sp_refuse bs st (obsw_abs s) = snd (sp_event 3 2 (status_code st)
      (snd (sp_reject bs st (obsw_abs (count_rejected st s)))))"
    using inv by (simp add: sp_refuse_def count_lemmas Let_def)
  then show ?thesis
    by (intro refines_bind [OF rej]) (auto intro!: refines_report)
qed

lemma finish_refines:
  assumes inv: "obsw_inv s"
  shows "refines
     (if st = PUS_OK then do {
        (_, s) \<leftarrow> svc01_completion_success (Some tc) s;
        Some (st, s) }
      else do {
        (_, s) \<leftarrow> svc01_completion_failure (Some tc) st (note_failure st s);
        (_, s) \<leftarrow> svc05_report 3 2 (status_code st) s;
        Some (st, s) }) (st, sp_finish (tc_abs tc) st (obsw_abs s))"
proof (cases "st = PUS_OK")
  case True
  then show ?thesis
    using refines_discard [OF svc01_completion_success_refines [OF inv]]
    by (simp add: sp_finish_def)
next
  case False
  have "refines (svc01_completion_failure (Some tc) st (note_failure st s))
      (sp_completion (tc_abs tc) st (obsw_abs (note_failure st s)))"
    using count_lemmas(3) [OF inv] False by (rule svc01_completion_failure_refines)
  then have "refines (do {
      (_, s) \<leftarrow> svc01_completion_failure (Some tc) st (note_failure st s);
      (_, s) \<leftarrow> svc05_report 3 2 (status_code st) s;
      Some (st, s) })
      (st, snd (sp_event 3 2 (status_code st)
        (snd (sp_completion (tc_abs tc) st (obsw_abs (note_failure st s))))))"
    by (rule refines_bind) (auto intro!: refines_report)
  then show ?thesis
    using False inv by (simp add: sp_finish_def count_lemmas)
qed

text \<open>A rejected packet: whatever the octets and whatever follows them in memory.\<close>

lemma obc_process_tc_rejected:
  assumes inv: "obsw_inv s" and bad: "tc_verdict bs \<noteq> PUS_OK"
  shows "refines (obc_process_tc (Some (octets bs @ rest)) (length bs) s)
     (tc_verdict bs, sp_refuse bs (tc_verdict bs) (obsw_abs s))"
proof -
  have "refines (svc01_reject_raw (Some (octets bs @ rest)) (length bs) (tc_verdict bs)
      (count_rejected (tc_verdict bs) s))
      (sp_reject bs (tc_verdict bs) (obsw_abs (count_rejected (tc_verdict bs) s)))"
    using count_lemmas(1) [OF inv] by (rule svc01_reject_raw_refines)
  from refuse_refines [OF inv this] show ?thesis
    using bad by (cases "tc_rejected (s_state s) < 0xFFFF")
      (simp_all add: obc_process_tc_def pus_tc_parse_octets count_rejected_def sat_inc_def Let_def)
qed

lemma obc_process_tc_NULL:
  assumes inv: "obsw_inv s"
  shows "refines (obc_process_tc None len s) (PUS_ERR_NULL, sp_refuse [] PUS_ERR_NULL (obsw_abs s))"
proof -
  have "refines (svc01_reject_raw None len PUS_ERR_NULL (count_rejected PUS_ERR_NULL s))
      (sp_reject [] PUS_ERR_NULL (obsw_abs (count_rejected PUS_ERR_NULL s)))"
    using count_lemmas(1) [OF inv] by (rule svc01_reject_raw_NULL_refines)
  from refuse_refines [OF inv this] show ?thesis
    by (cases "tc_rejected (s_state s) < 0xFFFF")
      (simp_all add: obc_process_tc_def pus_tc_parse_NULL count_rejected_def sat_inc_def Let_def)
qed

lemma obc_process_tc_accepted:
  assumes inv: "obsw_inv s" and ok: "tc_verdict bs = PUS_OK"
  shows "refines (obc_process_tc (Some (octets bs @ rest)) (length bs) s)
     (sp_execute (tc_decode bs) (obsw_abs s))"
proof -
  let ?tc = "tc_image bs rest" and ?c = "tc_decode bs"
  have abs: "tc_abs ?tc = ?c"
    using tc_verdict_OK_length [OF ok] by (rule tc_abs_image)
  let ?b = "snd (sp_acceptance ?c (obsw_abs (count_accepted s)))"
  have "refines (svc01_acceptance_success (Some ?tc) (count_accepted s))
      (sp_acceptance ?c (obsw_abs (count_accepted s)))"
    using svc01_acceptance_success_refines [OF count_lemmas(2) [OF inv], of ?tc] by (simp add: abs)
  then obtain s1 where s1: "svc01_acceptance_success (Some ?tc) (count_accepted s)
      = Some (fst (sp_acceptance ?c (obsw_abs (count_accepted s))), s1)" "obsw_inv s1" "obsw_abs s1 = ?b"
    by (rule refinesE)
  obtain s2 where s2: "obc_route ?tc s1 = Some (fst (sp_route ?c ?b), s2)" "obsw_inv s2"
      "obsw_abs s2 = snd (sp_route ?c ?b)"
    using refinesE [OF obc_route_refines [OF s1(2) ok]] unfolding s1(3) by blast
  have spec: "sp_execute ?c (obsw_abs s)
      = (fst (sp_route ?c ?b), sp_finish ?c (fst (sp_route ?c ?b)) (obsw_abs s2))"
    using inv by (simp add: sp_execute_def count_lemmas s2(3) Let_def split_beta)
  have run: "obc_process_tc (Some (octets bs @ rest)) (length bs) s =
      (if fst (sp_route ?c ?b) = PUS_OK then do {
         (_, s) \<leftarrow> svc01_completion_success (Some ?tc) s2;
         Some (fst (sp_route ?c ?b), s) }
       else do {
         (_, s) \<leftarrow> svc01_completion_failure (Some ?tc) (fst (sp_route ?c ?b))
           (note_failure (fst (sp_route ?c ?b)) s2);
         (_, s) \<leftarrow> svc05_report 3 2 (status_code (fst (sp_route ?c ?b))) s;
         Some (fst (sp_route ?c ?b), s) })"
    by (simp add: obc_process_tc_def pus_tc_parse_octets ok count_accepted_code s1(1) s2(1) note_failure_def
        Let_def)
  show ?thesis
    unfolding run spec using finish_refines [OF s2(2), of "fst (sp_route ?c ?b)" ?tc] by (simp add: abs)
qed

lemma obc_process_tc_refines:
  assumes "obsw_inv s"
  shows "refines (obc_process_tc (Some (octets bs @ rest)) (length bs) s) (sp_process bs (obsw_abs s))"
  using obc_process_tc_rejected [OF assms] obc_process_tc_accepted [OF assms]
  by (simp add: sp_process_def)

section \<open>The minor cycle\<close>

lemma overflow_refines:
  assumes inv: "obsw_inv s"
  shows "refines (if s_overflows (tmq s) \<noteq> s_last_overflow s then do {
       (_, s) \<leftarrow> svc05_report 4 2 (s_overflows (tmq s)) (s\<lparr> s_last_overflow := s_overflows (tmq s) \<rparr>);
       Some ((), s) } else Some ((), s)) ((), sp_overflow (obsw_abs s))"
proof (cases "s_overflows (tmq s) = s_last_overflow s")
  case True
  then show ?thesis
    using inv by (auto simp: sp_overflow_def obsw_abs_def)
next
  case False
  let ?s = "s\<lparr> s_last_overflow := s_overflows (tmq s) \<rparr>"
  have i: "obsw_inv ?s" and a: "obsw_abs ?s = (obsw_abs s)\<lparr> sp_last_drops := sp_drops (obsw_abs s) \<rparr>"
    using inv by (simp_all add: obsw_inv_def obsw_abs_def)
  have "sp_drops (obsw_abs s) = s_overflows (tmq s)" "sp_last_drops (obsw_abs s) = s_last_overflow s"
    by (simp_all add: obsw_abs_def)
  then have "sp_overflow (obsw_abs s) = snd (sp_event 4 2 (s_overflows (tmq s)) (obsw_abs ?s))"
    using False by (simp add: sp_overflow_def a)
  then show ?thesis
    using False refines_report [OF i, of 4 2 "((), sp_overflow (obsw_abs s))" "()"] by simp
qed

lemma obc_tick_refines:
  assumes inv: "obsw_inv s"
  shows "refines (obc_tick s) ((), sp_tick (obsw_abs s))"
proof -
  let ?s = "s\<lparr> hal := hal_time_advance (hal s), s_state := (s_state s)\<lparr>
      uptime_ticks := uptime_ticks (s_state s) + 1,
      temperature_dc := hal_read_temperature (hal_time_advance (hal s)) \<rparr> \<rparr>"
  have i: "obsw_inv ?s"
    using inv by (simp add: obsw_inv_def)
  have a: "obsw_abs ?s = sp_sample (obsw_abs s)"
    by (simp add: obsw_abs_def sp_sample_def hal_read_temperature_def hal_time_advance_def)
  obtain s1 where s1: "obc_thermal_control ?s = Some ((), s1)" "obsw_inv s1"
      "obsw_abs s1 = sp_thermal (sp_sample (obsw_abs s))"
    using refinesE [OF obc_thermal_control_refines [OF i]] by (auto simp: a)
  obtain s2 where s2: "(if s_overflows (tmq s1) \<noteq> s_last_overflow s1 then do {
       (_, s) \<leftarrow> svc05_report 4 2 (s_overflows (tmq s1)) (s1\<lparr> s_last_overflow := s_overflows (tmq s1) \<rparr>);
       Some ((), s) } else Some ((), s1)) = Some ((), s2)" "obsw_inv s2"
      "obsw_abs s2 = sp_overflow (sp_thermal (sp_sample (obsw_abs s)))"
    using refinesE [OF overflow_refines [OF s1(2)]] by (auto simp: s1(3))
  have "obc_tick s = svc03_tick s2"
    using s1(1) s2(1)
    by (auto simp: obc_tick_def tm_queue_overflow_count_def bind_eq_Some_conv split: if_splits)
  then show ?thesis
    using svc03_tick_refines [OF s2(2)] by (simp add: sp_tick_def s2(3))
qed

end
