(* ===== verification/Relations.thy ===== *)
theory Relations
  imports Obc_App
begin

text \<open>
  What the specifications of the application can do to the abstract state, as a family of
  locales. A relation between the state before and after that is reflexive, transitive and
  closed under the elementary updates some part of the application may make holds across that
  part: \<open>event_relation\<close> for the mode and heater operations, \<open>service_relation\<close> for every
  service, \<open>command_relation\<close> for every telecommand, \<open>control_relation\<close> for the thermal law and
  the loss report, \<open>minor_relation\<close> for the minor cycle after its sampling, \<open>cycle_relation\<close> for
  every step. The interpretations instantiate the relation: the queue only grows at its end,
  the heater line and the mode stay coherent, the sequence counts stay gap-free, a telecommand
  leaves what the minor cycle owns alone, and alarms are bounded by excursions.
\<close>

section \<open>What a report leaves alone\<close>

lemma emit_unchanged [simp]:
  "sp_hal (snd (emit svc sub data a)) = sp_hal a" "sp_heater (snd (emit svc sub data a)) = sp_heater a"
  "sp_mode (snd (emit svc sub data a)) = sp_mode a" "sp_uptime (snd (emit svc sub data a)) = sp_uptime a"
  "sp_phase (snd (emit svc sub data a)) = sp_phase a" "sp_temp (snd (emit svc sub data a)) = sp_temp a"
  "sp_alarm (snd (emit svc sub data a)) = sp_alarm a" "sp_hk (snd (emit svc sub data a)) = sp_hk a"
  "sp_ev (snd (emit svc sub data a)) = sp_ev a" "sp_accepted (snd (emit svc sub data a)) = sp_accepted a"
  "sp_rejected (snd (emit svc sub data a)) = sp_rejected a"
  "sp_failure (snd (emit svc sub data a)) = sp_failure a"
  "sp_last_drops (snd (emit svc sub data a)) = sp_last_drops a"
  by (simp_all add: emit_def Let_def)

lemma event_unchanged [simp]:
  "sp_hal (snd (sp_event eid sev aux a)) = sp_hal a" "sp_heater (snd (sp_event eid sev aux a)) = sp_heater a"
  "sp_mode (snd (sp_event eid sev aux a)) = sp_mode a" "sp_uptime (snd (sp_event eid sev aux a)) = sp_uptime a"
  "sp_phase (snd (sp_event eid sev aux a)) = sp_phase a" "sp_temp (snd (sp_event eid sev aux a)) = sp_temp a"
  "sp_alarm (snd (sp_event eid sev aux a)) = sp_alarm a" "sp_hk (snd (sp_event eid sev aux a)) = sp_hk a"
  "sp_ev (snd (sp_event eid sev aux a)) = sp_ev a" "sp_accepted (snd (sp_event eid sev aux a)) = sp_accepted a"
  "sp_rejected (snd (sp_event eid sev aux a)) = sp_rejected a"
  "sp_failure (snd (sp_event eid sev aux a)) = sp_failure a"
  "sp_last_drops (snd (sp_event eid sev aux a)) = sp_last_drops a"
  by (simp_all add: sp_event_def)

lemmas hal_fields = hal_set_heater_def hal_inject_temperature_def hal_set_cuc_time_def
  hal_time_advance_def sp_sample_def

section \<open>The locales\<close>

locale event_relation =
  fixes R :: "spec \<Rightarrow> spec \<Rightarrow> bool"
  assumes refl: "R a a"
    and trans: "R a b \<Longrightarrow> R b c \<Longrightarrow> R a c"
    and report: "eid \<noteq> 6 \<Longrightarrow> R a (snd (emit 5 sev (event_data eid aux) a))"
    and flags: "R a (a\<lparr> sp_hk := f, sp_ev := g \<rparr>)"
    and no_counts: "R a (a\<lparr> sp_accepted := 0, sp_rejected := 0, sp_failure := 0 \<rparr>)"
    and inject: "R a (a\<lparr> sp_hal := hal_inject_temperature v (sp_hal a) \<rparr>)"
    and set_time: "R a (a\<lparr> sp_hal := hal_set_cuc_time coarse fine (sp_hal a) \<rparr>)"
    and heater_up: "sp_mode a = Nominal \<Longrightarrow>
      R a (a\<lparr> sp_hal := hal_set_heater 1 (sp_hal a), sp_heater := True \<rparr>)"
    and heater_down: "R a (a\<lparr> sp_hal := hal_set_heater 0 (sp_hal a), sp_heater := False \<rparr>)"
    and nominal: "R a (a\<lparr> sp_mode := Nominal \<rparr>)"
    and safe_off: "\<not> sp_heater a \<Longrightarrow> R a (a\<lparr> sp_mode := Safe \<rparr>)"
    and safe_on: "R a (a\<lparr> sp_mode := Safe, sp_hal := hal_set_heater 0 (sp_hal a), sp_heater := False \<rparr>)"
begin

lemma event: "eid \<noteq> 6 \<Longrightarrow> R a (snd (sp_event eid sev aux a))"
  using refl report by (simp add: sp_event_def)

lemma event_after: "eid \<noteq> 6 \<Longrightarrow> R a b \<Longrightarrow> R a (snd (sp_event eid sev aux b))"
  using event trans by blast

lemma switch_heater: "on \<longrightarrow> sp_mode a = Nominal \<Longrightarrow> R a (sp_switch_heater on a)"
  using refl heater_up [of a] heater_down [of a]
  by (cases on) (auto simp: sp_switch_heater_def intro: event_after)

lemma set_heater: "R a (snd (sp_set_heater on a))"
  using refl switch_heater [of on a] by (cases "sp_mode a") (auto simp: sp_set_heater_def)

lemma set_mode: "R a (sp_set_mode m a)"
proof (cases m)
  case Safe
  have "R a (sp_switch_heater False (a\<lparr> sp_mode := Safe \<rparr>))"
    using safe_off [of a] safe_on [of a] by (auto simp: sp_switch_heater_def intro: event_after)
  then show ?thesis
    using Safe refl by (auto simp: sp_set_mode_def Let_def intro: event_after)
next
  case Nominal
  then show ?thesis
    using refl nominal [of a] by (auto simp: sp_set_mode_def Let_def intro: event_after)
qed

end

locale hk_relation = event_relation +
  assumes emit_hk: "R a (snd (emit 3 25 data a))"
begin

lemma hk_report: "R a (snd (sp_hk_report sid a))"
  using emit_hk by (simp add: sp_hk_report_def)

lemma one_shot: "R a (snd (sp_one_shot sids a))"
proof (induction sids arbitrary: a)
  case Nil
  then show ?case using refl by simp
next
  case (Cons sid sids)
  then show ?case
    using hk_report [of a sid] trans by (auto simp: split_beta)
qed

end

locale service_relation = hk_relation +
  assumes emit_test: "R a (snd (emit 17 2 [] a))"
begin

lemma svc03: "R a (snd (sp_svc03 c a))"
proof -
  have "R a (a\<lparr> sp_hk := f \<rparr>)" for f
    using flags [where a = a and f = f and g = "sp_ev a"] by simp
  then show ?thesis
    using refl one_shot by (auto simp: sp_svc03_def sp_hk_list_def sp_hk_enable_def)
qed

lemma svc05: "R a (snd (sp_svc05 c a))"
proof -
  have "R a (a\<lparr> sp_ev := f \<rparr>)" for f
    using flags [where a = a and f = "sp_hk a" and g = f] by simp
  then show ?thesis
    using refl by (auto simp: sp_svc05_def sp_set_events_def)
qed

lemma svc08: "R a (snd (sp_svc08 c a))"
proof -
  have "R a (snd (perform_function f a))" for f
    using set_mode set_heater inject set_time no_counts
    by (cases f) (simp_all add: sp_reset_counters_def)
  then show ?thesis
    using refl by (auto simp: sp_svc08_def split: sum.split)
qed

lemma svc17: "R a (snd (sp_svc17 c a))"
  using refl emit_test by (auto simp: sp_svc17_def)

lemma route: "R a (snd (sp_route c a))"
  using svc03 svc05 svc08 svc17 refl by (auto simp: sp_route_def)

end

locale command_relation = service_relation +
  assumes verify: "R a (snd (emit 1 sub data a))"
    and counts: "R a (a\<lparr> sp_accepted := m, sp_rejected := n, sp_failure := f \<rparr>)"
begin

lemma failure: "R a (a\<lparr> sp_failure := f \<rparr>)"
  using counts [where a = a and m = "sp_accepted a" and n = "sp_rejected a" and f = f] by simp

lemma accepted: "R a (a\<lparr> sp_accepted := m \<rparr>)"
  using counts [where a = a and m = m and n = "sp_rejected a" and f = "sp_failure a"] by simp

lemma rejected: "R a (a\<lparr> sp_rejected := n, sp_failure := f \<rparr>)"
  using counts [where a = a and m = "sp_accepted a" and n = n and f = f] by simp

lemma reject: "R a (snd (sp_reject bs st a))"
  using verify by (simp add: sp_reject_def sp_failure_report_def)

lemma acceptance: "R a (snd (sp_acceptance c a))"
  using verify refl by (simp add: sp_acceptance_def sp_success_def)

lemma completion: "R a (snd (sp_completion c st a))"
  using verify refl by (simp add: sp_completion_def sp_success_def sp_failure_report_def)

lemma refuse: "R a (sp_refuse bs st a)"
  unfolding sp_refuse_def Let_def by (rule event_after [OF _ trans [OF rejected reject]]) simp

lemma finish: "R a (sp_finish c st a)"
  using completion [of a c PUS_OK] trans [OF failure completion [of _ c st]]
  by (auto simp: sp_finish_def intro: event_after)

lemma execute: "R a (snd (sp_execute c a))"
  using trans [OF accepted trans [OF acceptance trans [OF route finish]]]
  by (simp add: sp_execute_def Let_def split_beta)

lemma process: "R a (snd (sp_process bs a))"
  using execute refuse by (simp add: sp_process_def)

end

text \<open>Nothing but sampling changes the temperature the application acts on.\<close>

interpretation temperature: event_relation "\<lambda>a b. sp_temp b = sp_temp a"
  by unfold_locales simp_all

locale control_relation = event_relation +
  assumes alarm: "\<not> sp_alarm a \<Longrightarrow> R a (snd (sp_event 6 4 aux (a\<lparr> sp_alarm := True \<rparr>)))"
    and release: "sint (sp_temp a) < 250 \<Longrightarrow> R a (a\<lparr> sp_alarm := False \<rparr>)"
    and see_drops: "R a (a\<lparr> sp_last_drops := sp_drops a \<rparr>)"
begin

lemma thermal: "R a (sp_thermal a)"
proof -
  let ?latched = "if sp_alarm a then a else snd (sp_event 6 4 (sp_temp a) (a\<lparr> sp_alarm := True \<rparr>))"
  let ?b = "if sp_mode a = Nominal then
      if sint (sp_temp a) \<ge> 400 then sp_set_mode Safe ?latched
      else if sint (sp_temp a) \<ge> 250 then sp_switch_heater False a
      else if sint (sp_temp a) \<le> 50 then sp_switch_heater True a else a
    else sp_switch_heater False a"
  have "R a ?latched"
    using refl alarm by simp
  then have "R a (sp_set_mode Safe ?latched)"
    using set_mode trans by blast
  then have b: "R a ?b"
    using refl switch_heater by auto
  have "sp_temp ?latched = sp_temp a"
    by simp
  then have temp: "sp_temp ?b = sp_temp a"
    using temperature.set_mode [of Safe ?latched] temperature.switch_heater [of True a]
      temperature.switch_heater [of False a] by simp
  have off: "R a (?b\<lparr> sp_alarm := False \<rparr>)" if "sint (sp_temp a) < 250"
    using trans [OF b release [of ?b]] that unfolding temp .
  have eq: "sp_thermal a = (if sint (sp_temp a) < 250 then ?b\<lparr> sp_alarm := False \<rparr> else ?b)"
    unfolding sp_thermal_def Let_def by (rule HOL.refl)
  show ?thesis
    using b off unfolding eq by (cases "sint (sp_temp a) < 250") (simp_all only: if_True if_False simp_thms)
qed

lemma overflow: "R a (sp_overflow a)"
  using refl see_drops by (auto simp: sp_overflow_def intro: event_after)

end

locale minor_relation = control_relation + hk_relation +
  assumes phase: "R a (a\<lparr> sp_phase := n \<rparr>)"
begin

lemma periodic: "R a (sp_periodic sids a)"
proof (induction sids arbitrary: a)
  case Nil
  then show ?case using refl by simp
next
  case (Cons sid sids)
  then show ?case
    using hk_report [of a sid] trans by (auto split: if_split)
qed

lemma hk_tick: "R a (sp_hk_tick a)"
  using phase trans [OF phase periodic] by (simp add: sp_hk_tick_def del: sp_periodic.simps)

lemma after_sample: "R (sp_sample a) (sp_tick a)"
  unfolding sp_tick_def by (rule trans [OF trans [OF thermal overflow] hk_tick])

end

locale cycle_relation = command_relation + minor_relation +
  assumes sample: "R a (sp_sample a)"
begin

lemma tick: "R a (sp_tick a)"
  using sample after_sample by (rule trans)

end

section \<open>The heater line, its mirror and the mode\<close>

definition coherent :: "spec \<Rightarrow> bool" where
  "coherent a \<longleftrightarrow> s_heater_on (sp_hal a) = of_bool (sp_heater a) \<and> (sp_mode a = Safe \<longrightarrow> \<not> sp_heater a)"

interpretation coherence: cycle_relation "\<lambda>a b. coherent a \<longrightarrow> coherent b"
  by unfold_locales (auto simp: coherent_def hal_fields)

section \<open>The downlink queue\<close>

text \<open>
  Messages are appended, the overflow counter never goes back, and it stays where it is
  unless the queue ends up full.
\<close>

definition appends :: "u8 set \<Rightarrow> spec \<Rightarrow> spec \<Rightarrow> bool" where
  "appends S a b \<longleftrightarrow>
     (\<exists>ms. sp_queue b = sp_queue a @ ms \<and> (\<forall>m \<in> set ms. m_service m \<in> S)) \<and>
     unat (sp_drops a) \<le> unat (sp_drops b) \<and>
     (length (sp_queue b) < 16 \<longrightarrow> sp_drops b = sp_drops a)"

lemma appends_refl: "appends S a a"
  by (simp add: appends_def)

lemma appends_trans:
  assumes ab: "appends S a b" and bc: "appends S b c"
  shows "appends S a c"
proof -
  obtain ms ns where "sp_queue b = sp_queue a @ ms" "sp_queue c = sp_queue b @ ns"
      "\<forall>m \<in> set ms \<union> set ns. m_service m \<in> S"
    using ab bc unfolding appends_def by (metis UnE)
  then have "sp_queue c = sp_queue a @ (ms @ ns)" "\<forall>m \<in> set (ms @ ns). m_service m \<in> S"
      "length (sp_queue b) \<le> length (sp_queue c)"
    by simp_all
  then show ?thesis
    using ab bc unfolding appends_def by (metis le_trans order_le_less_trans)
qed

lemma appends_emit: "svc \<in> S \<Longrightarrow> appends S a (snd (emit svc sub data a))"
  using unat_sat_inc_le [of "sp_drops a"] by (simp add: appends_def emit_def stamp_def Let_def)

lemma appends_event: "5 \<in> S \<Longrightarrow> appends S a b \<Longrightarrow> appends S a (snd (sp_event eid sev aux b))"
  by (auto simp: sp_event_def intro: appends_trans appends_emit)

lemma appends_same:
  "sp_queue b = sp_queue a \<Longrightarrow> sp_drops b = sp_drops a \<Longrightarrow> appends S a b"
  by (simp add: appends_def)

interpretation control_queue: control_relation "appends {5}"
  by unfold_locales (auto intro!: appends_event intro: appends_refl appends_trans appends_emit appends_same)

interpretation service_queue: service_relation "appends {3, 5, 17}"
  by unfold_locales (auto intro: appends_refl appends_trans appends_emit appends_same)

interpretation queue: cycle_relation "appends {1, 3, 5, 17}"
  by unfold_locales
    (auto simp: sp_sample_def intro!: appends_event intro: appends_refl appends_trans appends_emit appends_same)

text \<open>
  While nothing was dropped the sequence counts of the queued messages are consecutive, and
  the next one continues them.
\<close>

definition seq_follows :: "u16 \<Rightarrow> u16 \<Rightarrow> bool" where
  "seq_follows m n \<longleftrightarrow> n = (m + 1) AND 0x3FFF"

definition gap_free :: "spec \<Rightarrow> bool" where
  "gap_free a \<longleftrightarrow> sp_drops a = 0 \<longrightarrow> successively seq_follows (map m_seq (sp_queue a) @ [sp_seq a])"

lemma sat_inc_not_0: "sat_inc n \<noteq> 0"
  using unat_sat_inc [of n] by auto

lemma gap_free_emit: "gap_free a \<Longrightarrow> gap_free (snd (emit svc sub data a))"
  using sat_inc_not_0 [of "sp_drops a"]
  by (simp add: gap_free_def emit_def stamp_def seq_follows_def Let_def successively_append_iff)

lemma gap_free_same:
  "gap_free a \<Longrightarrow> sp_queue b = sp_queue a \<Longrightarrow> sp_drops b = sp_drops a \<Longrightarrow> sp_seq b = sp_seq a \<Longrightarrow> gap_free b"
  by (simp add: gap_free_def)

interpretation numbering: cycle_relation "\<lambda>a b. gap_free a \<longrightarrow> gap_free b"
  by unfold_locales
    (auto simp: sp_event_def sp_sample_def intro!: gap_free_emit intro: gap_free_same)

section \<open>What a telecommand leaves to the minor cycle\<close>

definition cycle_kept :: "spec \<Rightarrow> spec \<Rightarrow> bool" where
  "cycle_kept a b \<longleftrightarrow>
     sp_uptime b = sp_uptime a \<and> sp_phase b = sp_phase a \<and> sp_temp b = sp_temp a \<and>
     sp_alarm b = sp_alarm a \<and> sp_last_drops b = sp_last_drops a \<and>
     s_ticks (sp_hal b) = s_ticks (sp_hal a)"

interpretation ground: command_relation cycle_kept
  by unfold_locales (auto simp: cycle_kept_def hal_fields)

text \<open>The application never believes in more lost packets than were lost.\<close>

lemma drops_emit: "n \<le> unat (sp_drops a) \<Longrightarrow> n \<le> unat (sp_drops (snd (emit svc sub data a)))"
  using unat_sat_inc_le [of "sp_drops a"] by (simp add: emit_def Let_def)

lemma drops_event: "n \<le> unat (sp_drops a) \<Longrightarrow> n \<le> unat (sp_drops (snd (sp_event eid sev aux a)))"
  by (simp add: sp_event_def drops_emit)

interpretation losses: cycle_relation
  "\<lambda>a b. unat (sp_last_drops a) \<le> unat (sp_drops a) \<longrightarrow> unat (sp_last_drops b) \<le> unat (sp_drops b)"
  by unfold_locales (simp_all add: drops_emit drops_event sp_sample_def)

text \<open>Once 65535 losses were counted and reported, no later loss makes a difference.\<close>

definition saturated :: "spec \<Rightarrow> bool" where
  "saturated a \<longleftrightarrow> sp_drops a = 0xFFFF \<and> sp_last_drops a = 0xFFFF"

interpretation silence: cycle_relation "\<lambda>a b. saturated a \<longrightarrow> saturated b"
  by unfold_locales (simp_all add: saturated_def sp_event_def emit_def Let_def sat_inc_def sp_sample_def)

section \<open>The telecommand counters\<close>

text \<open>A service leaves the counters alone or clears all of them.\<close>

definition counters_kept :: "spec \<Rightarrow> spec \<Rightarrow> bool" where
  "counters_kept a b \<longleftrightarrow>
     sp_accepted b = sp_accepted a \<and> sp_rejected b = sp_rejected a \<and> sp_failure b = sp_failure a \<or>
     sp_accepted b = 0 \<and> sp_rejected b = 0 \<and> sp_failure b = 0"

interpretation counters: service_relation counters_kept
  by unfold_locales (auto simp: counters_kept_def)

section \<open>Alarms\<close>

definition alarm_msg :: "tm_msg \<Rightarrow> bool" where
  "alarm_msg m \<longleftrightarrow> m_service m = 5 \<and> take 2 (m_data m) = be16 6"

text \<open>The alarms queued, plus one while another may still be raised.\<close>

definition alarm_budget :: "spec \<Rightarrow> nat" where
  "alarm_budget a = length (filter alarm_msg (sp_queue a)) + (if sp_alarm a then 0 else 1)"

definition hot_kept :: "spec \<Rightarrow> spec \<Rightarrow> bool" where
  "hot_kept a b \<longleftrightarrow> sp_temp b = sp_temp a \<and> (250 \<le> sint (sp_temp a) \<longrightarrow> alarm_budget b \<le> alarm_budget a)"

lemma alarm_msg_event [simp]: "alarm_msg (stamp 5 sev (event_data eid aux) a) \<longleftrightarrow> eid = 6"
  by (simp add: alarm_msg_def stamp_def event_data_def)

lemma alarm_msg_other [simp]: "svc \<noteq> 5 \<Longrightarrow> \<not> alarm_msg (stamp svc sub data a)"
  by (simp add: alarm_msg_def stamp_def)

lemma alarm_budget_emit:
  "\<not> alarm_msg (stamp svc sub data a) \<Longrightarrow> alarm_budget (snd (emit svc sub data a)) = alarm_budget a"
  by (simp add: alarm_budget_def emit_def Let_def)

lemma alarm_budget_alarm:
  "\<not> sp_alarm a \<Longrightarrow> alarm_budget (snd (sp_event 6 4 aux (a\<lparr> sp_alarm := True \<rparr>))) \<le> alarm_budget a"
  by (simp add: alarm_budget_def sp_event_def emit_def Let_def)

interpretation alarm_command: command_relation hot_kept
  by unfold_locales (auto simp: hot_kept_def alarm_budget_emit, auto simp: alarm_budget_def)

interpretation alarm_minor: minor_relation hot_kept
  by unfold_locales (auto simp: hot_kept_def alarm_budget_emit alarm_budget_alarm, auto simp: alarm_budget_def)

end
