(* ===== verification/Obsw_Step.thy ===== *)
theory Obsw_Step
  imports Relations
begin

text \<open>
  The application as a state machine. The driver (\<open>sim/obc_sim.c\<close>) starts the application,
  runs minor cycles, hands over received telecommands and pops packets for the downlink, in
  an order it chooses; \<open>obsw_step\<close> is one such stimulus, \<open>reachable\<close> what any sequence of
  them leads to from power-on. Every stimulus is defined in every reachable state and does
  what \<open>sp_step\<close> says.
\<close>

section \<open>Stimuli\<close>

datatype stimulus = Start | Tick | Telecommand "u8 list" | Downlink

text \<open>The receive buffer may hold any octets behind the telecommand.\<close>

inductive obsw_step :: "obsw \<Rightarrow> stimulus \<Rightarrow> obsw \<Rightarrow> bool" where
  start: "obc_init s = Some ((), s') \<Longrightarrow> obsw_step s Start s'"
| tick: "obc_tick s = Some ((), s') \<Longrightarrow> obsw_step s Tick s'"
| telecommand: "obc_process_tc (Some (octets bs @ rest)) (length bs) s = Some (st, s') \<Longrightarrow>
    obsw_step s (Telecommand bs) s'"
| downlink: "queue_pop (tmq s) = Some (p, q) \<Longrightarrow> obsw_step s Downlink (s\<lparr> tmq := q \<rparr>)"

inductive_cases obsw_stepE: "obsw_step s x s'"

inductive_simps obsw_step_simps:
  "obsw_step s Start s'" "obsw_step s Tick s'" "obsw_step s (Telecommand bs) s'"
  "obsw_step s Downlink s'"

inductive obsw_run :: "obsw \<Rightarrow> stimulus list \<Rightarrow> obsw \<Rightarrow> bool" where
  stop: "obsw_run s [] s"
| more: "obsw_step s x s' \<Longrightarrow> obsw_run s' xs s'' \<Longrightarrow> obsw_run s (x # xs) s''"

inductive_simps obsw_run_simps: "obsw_run s [] s'" "obsw_run s (x # xs) s'"

definition reachable :: "obsw \<Rightarrow> bool" where
  "reachable s \<longleftrightarrow> (\<exists>xs. obsw_run power_on (Start # xs) s)"

text \<open>The same steps as a function, for running the model on concrete stimuli.\<close>

definition obsw_do :: "stimulus \<Rightarrow> obsw \<Rightarrow> obsw option" where
  "obsw_do x s =
     (case x of
        Start \<Rightarrow> do { (_, s) \<leftarrow> obc_init s; Some s }
      | Tick \<Rightarrow> do { (_, s) \<leftarrow> obc_tick s; Some s }
      | Telecommand bs \<Rightarrow> do { (_, s) \<leftarrow> obc_process_tc (Some (octets bs)) (length bs) s; Some s }
      | Downlink \<Rightarrow> do { (_, q) \<leftarrow> queue_pop (tmq s); Some (s\<lparr> tmq := q \<rparr>) })"

section \<open>Specification of a step\<close>

definition sp_step :: "stimulus \<Rightarrow> spec \<Rightarrow> spec" where
  "sp_step x a =
     (case x of
        Start \<Rightarrow> sp_boot
      | Tick \<Rightarrow> sp_tick a
      | Telecommand bs \<Rightarrow> snd (sp_process bs a)
      | Downlink \<Rightarrow> a\<lparr> sp_queue := tl (sp_queue a) \<rparr>)"

section \<open>Simulation\<close>

lemma queue_pop_cases:
  assumes inv: "obsw_inv s"
  shows "\<exists>p q. queue_pop (tmq s) = Some (p, q) \<and> obsw_inv (s\<lparr> tmq := q \<rparr>) \<and>
    obsw_abs (s\<lparr> tmq := q \<rparr>) = sp_step Downlink (obsw_abs s) \<and>
    p = (case sp_queue (obsw_abs s) of [] \<Rightarrow> None | m # _ \<Rightarrow> Some (tm_encode m))"
proof (cases "tmq_list (tmq s)")
  case Nil
  have "tmq_inv (tmq s)"
    using inv by (simp add: obsw_inv_def)
  then have "queue_pop (tmq s) = Some (None, tmq s)"
    using Nil by (rule tmq.pop_empty)
  then show ?thesis
    using inv Nil by (simp add: sp_step_def obsw_abs_def)
next
  case (Cons p ps)
  have q: "tmq_inv (tmq s)" and wf: "queue_wf (tmq s)"
    using inv by (simp_all add: obsw_inv_def)
  obtain q' where q': "queue_pop (tmq s) = Some (Some p, q')" "tmq_inv q'" "tmq_list q' = ps"
      "s_overflows q' = s_overflows (tmq s)"
    using tmq.pop_some [OF q Cons] by blast
  obtain m where m: "tm_fits m" "p = tm_encode m"
    using wf Cons by (auto simp: queue_wf_def)
  have "tm_decode p = m"
    using m by (simp add: tm_fits_def tm_decode_encode)
  moreover have "queue_wf q'"
    using wf Cons q'(3) by (simp add: queue_wf_def)
  ultimately show ?thesis
    using q' m(2) inv Cons by (simp add: sp_step_def obsw_abs_def obsw_inv_def)
qed

lemma obsw_step_total:
  assumes "obsw_inv s"
  shows "\<exists>s'. obsw_step s x s'"
proof (cases x)
  case Start
  then show ?thesis
    using obc_init_refines [OF assms] by (auto simp: refines_def obsw_step_simps)
next
  case Tick
  then show ?thesis
    using obc_tick_refines [OF assms] by (auto simp: refines_def obsw_step_simps)
next
  case (Telecommand bs)
  then show ?thesis
    using obc_process_tc_refines [OF assms, of bs "[]"] unfolding refines_def
    by (metis obsw_step.telecommand)
next
  case Downlink
  then show ?thesis
    using queue_pop_cases [OF assms] by (auto simp: obsw_step_simps)
qed

lemma obsw_step_refines:
  assumes "obsw_inv s" and "obsw_step s x s'"
  shows "obsw_inv s' \<and> obsw_abs s' = sp_step x (obsw_abs s)"
  using assms(2)
proof cases
  case start
  then show ?thesis
    using obc_init_refines [OF assms(1)] by (auto simp: refines_def sp_step_def)
next
  case tick
  then show ?thesis
    using obc_tick_refines [OF assms(1)] by (auto simp: refines_def sp_step_def)
next
  case (telecommand bs rest st)
  then show ?thesis
    using obc_process_tc_refines [OF assms(1), of bs rest] by (auto simp: refines_def sp_step_def)
next
  case (downlink p q)
  then show ?thesis
    using queue_pop_cases [OF assms(1)] by auto
qed

lemma obsw_run_refines:
  assumes "obsw_run s xs s'" and "obsw_inv s"
  shows "obsw_inv s' \<and> obsw_abs s' = fold sp_step xs (obsw_abs s)"
  using assms
proof (induction rule: obsw_run.induct)
  case (stop s)
  then show ?case by simp
next
  case (more s x s' xs s'')
  then show ?case
    using obsw_step_refines by auto
qed

lemma obsw_run_total:
  assumes "obsw_inv s"
  shows "\<exists>s'. obsw_run s xs s'"
  using assms
proof (induction xs arbitrary: s)
  case Nil
  then show ?case by (auto simp: obsw_run_simps)
next
  case (Cons x xs)
  then obtain s' where "obsw_step s x s'"
    using obsw_step_total by blast
  then show ?case
    using Cons obsw_step_refines by (metis obsw_run.more)
qed

lemma reachable_refines:
  assumes "reachable s"
  obtains xs where "obsw_inv s" and "obsw_abs s = fold sp_step xs sp_boot"
proof -
  obtain xs where "obsw_run power_on (Start # xs) s"
    using assms by (auto simp: reachable_def)
  from obsw_run_refines [OF this obsw_inv_power_on]
  have "obsw_inv s" "obsw_abs s = fold sp_step xs sp_boot"
    by (simp_all add: sp_step_def)
  then show ?thesis
    by (rule that)
qed

lemma reachable_inv: "reachable s \<Longrightarrow> obsw_inv s"
  by (rule reachable_refines)

text \<open>Induction over the abstract states of a run.\<close>

lemma reachable_induct [consumes 1, case_names boot tick command pop]:
  assumes "reachable s"
    and boot: "P sp_boot"
    and tick: "\<And>a. P a \<Longrightarrow> P (sp_tick a)"
    and command: "\<And>a bs. P a \<Longrightarrow> P (snd (sp_process bs a))"
    and pop: "\<And>a. P a \<Longrightarrow> P (a\<lparr> sp_queue := tl (sp_queue a) \<rparr>)"
  shows "P (obsw_abs s)"
proof -
  have step: "P a \<Longrightarrow> P (sp_step x a)" for x a
    using assms(2-) by (cases x) (simp_all add: sp_step_def)
  have "P a \<Longrightarrow> P (fold sp_step xs a)" for xs a
    by (induction xs arbitrary: a) (simp_all add: step)
  with assms(1) boot show ?thesis
    by (metis reachable_refines)
qed

text \<open>Reachability is closed under steps and runs.\<close>

lemma reachable_step: "reachable s \<Longrightarrow> obsw_step s x s' \<Longrightarrow> reachable s'"
proof -
  have run: "obsw_run s xs s' \<Longrightarrow> obsw_step s' x s'' \<Longrightarrow> obsw_run s (xs @ [x]) s''" for s xs s' s''
    by (induction rule: obsw_run.induct) (auto simp: obsw_run_simps)
  assume "reachable s" and "obsw_step s x s'"
  then obtain xs where "obsw_run power_on (Start # xs @ [x]) s'"
    using run by (fastforce simp: reachable_def)
  then show ?thesis
    by (auto simp: reachable_def)
qed

lemma reachable_run: "obsw_run s xs s' \<Longrightarrow> reachable s \<Longrightarrow> reachable s'"
  by (induction rule: obsw_run.induct) (auto intro: reachable_step)

lemma reachable_obtain_step:
  assumes "reachable s"
  obtains s' where "obsw_step s x s'" and "reachable s'"
  using assms obsw_step_total reachable_inv reachable_step by blast

section \<open>Invariants of reachable states\<close>

lemma sp_boot_eq: "sp_boot = snd (emit 5 1 (event_data 1 0) boot_spec)"
  by (simp add: sp_boot_def sp_event_def boot_spec_def event_id_ok_def)

lemma reachable_coherent: "reachable s \<Longrightarrow> coherent (obsw_abs s)"
proof (induction rule: reachable_induct)
  case boot
  show ?case by (simp add: sp_boot_eq coherent_def boot_spec_def)
next
  case (tick a)
  then show ?case using coherence.tick by blast
next
  case (command a bs)
  then show ?case using coherence.process by blast
next
  case (pop a)
  then show ?case by (simp add: coherent_def)
qed

lemma successively_tl: "successively P (xs @ ys) \<Longrightarrow> successively P (tl xs @ ys)"
  by (cases xs) (auto simp: successively_Cons split: if_splits)

lemma reachable_gap_free: "reachable s \<Longrightarrow> gap_free (obsw_abs s)"
proof (induction rule: reachable_induct)
  case boot
  have "gap_free boot_spec"
    by (simp add: gap_free_def boot_spec_def)
  then show ?case
    unfolding sp_boot_eq by (rule gap_free_emit)
next
  case (tick a)
  then show ?case using numbering.tick by blast
next
  case (command a bs)
  then show ?case using numbering.process by blast
next
  case (pop a)
  then show ?case
    using successively_tl [of seq_follows "map m_seq (sp_queue a)" "[sp_seq a]"]
    by (simp add: gap_free_def map_tl)
qed

lemma reachable_losses:
  "reachable s \<Longrightarrow> unat (sp_last_drops (obsw_abs s)) \<le> unat (sp_drops (obsw_abs s))"
proof (induction rule: reachable_induct)
  case boot
  show ?case by (simp add: sp_boot_eq boot_spec_def)
next
  case (tick a)
  then show ?case using losses.tick by blast
next
  case (command a bs)
  then show ?case using losses.process by blast
next
  case (pop a)
  then show ?case by simp
qed

end
