(* ===== verification/Test_Support.thy ===== *)
theory Test_Support
  imports Obc_App
begin

text \<open>
  The telecommand encoder of the unit tests, \<open>tests/framework/test_support.c\<close>: the inverse
  of the acceptance parser, so that the two together give a round trip. \<open>tc_encode\<close> is the
  octet string the encoder writes.
\<close>

section \<open>The code\<close>

definition ts_fix_crc :: "mem \<Rightarrow> nat \<Rightarrow> mem option" where
  "ts_fix_crc buf len = do {
     crc \<leftarrow> crc16_ccitt (Some buf) (len - CCSDS_CRC_LEN);
     pus_put_u16 buf (len - CCSDS_CRC_LEN) crc }"

definition ts_break_crc :: "mem \<Rightarrow> nat \<Rightarrow> mem option" where
  "ts_break_crc buf len = do {
     b \<leftarrow> rd8 buf (len - 1);
     wr8 buf (len - 1) (b XOR 0x01) }"

definition ts_build_tc ::
    "mem \<Rightarrow> nat \<Rightarrow> u8 \<Rightarrow> u8 \<Rightarrow> u8 \<Rightarrow> mem option \<Rightarrow> nat \<Rightarrow> (nat \<times> mem) option" where
  "ts_build_tc buf cap service subtype ack app app_len =
     (let total = CCSDS_PRIMARY_HEADER_LEN + PUS_TC_SEC_HEADER_LEN + app_len + CCSDS_CRC_LEN in
      if total > cap then Some (0, buf)
      else do {
        let hdr = \<lparr> version = 0, packet_type = CCSDS_TYPE_TC, sec_hdr_flag = 1,
          apid = PUS_TC_APID, seq_flags = CCSDS_SEQ_FLAG_UNSEGMENTED, seq_count = 1,
          data_length = of_nat (total - CCSDS_PRIMARY_HEADER_LEN - 1) \<rparr>;
        (_, buf') \<leftarrow> ccsds_pack_primary (Some hdr) (Some buf) cap;
        p \<leftarrow> buf';
        let off = CCSDS_PRIMARY_HEADER_LEN;
        p \<leftarrow> wr8 p off (push_bit 4 PUS_VERSION_C OR (ack AND 0x0F));
        p \<leftarrow> wr8 p (off + 1) service;
        p \<leftarrow> wr8 p (off + 2) subtype;
        p \<leftarrow> pus_put_u16 p (off + 3) 0x0101;
        let off = off + PUS_TC_SEC_HEADER_LEN;
        p \<leftarrow> copy_octets p off (case app of None \<Rightarrow> [] | Some a \<Rightarrow> a) 0 app_len;
        p \<leftarrow> ts_fix_crc p total;
        Some (total, p) })"

definition ts_send_tc :: "u8 \<Rightarrow> u8 \<Rightarrow> mem option \<Rightarrow> nat \<Rightarrow> obsw \<Rightarrow> (pus_status_t \<times> obsw) option" where
  "ts_send_tc service subtype app app_len s = do {
     let tc = replicate PUS_MAX_PACKET_SIZE None;
     (len, tc) \<leftarrow> ts_build_tc tc (length tc) service subtype
       (PUS_ACK_ACCEPTANCE OR PUS_ACK_COMPLETION) app app_len;
     if len = 0 then Some (PUS_ERR_BUFFER_TOO_SMALL, s)
     else obc_process_tc (Some tc) len s }"

section \<open>The octets of a telecommand\<close>

definition tc_header :: "nat \<Rightarrow> ccsds_primary_header_t" where
  "tc_header n = \<lparr> version = 0, packet_type = 1, sec_hdr_flag = 1, apid = 12, seq_flags = 3,
     seq_count = 1, data_length = of_nat (n + 6) \<rparr>"

definition tc_body :: "u8 \<Rightarrow> u8 \<Rightarrow> u8 \<Rightarrow> u8 list \<Rightarrow> u8 list" where
  "tc_body ack svc sub app = header_octets (tc_header (length app)) @
     [0x20 OR (ack AND 0x0F), svc, sub] @ be16 0x0101 @ app"

definition tc_encode :: "u8 \<Rightarrow> u8 \<Rightarrow> u8 \<Rightarrow> u8 list \<Rightarrow> u8 list" where
  "tc_encode ack svc sub app = tc_body ack svc sub app @ be16 (crc16 (tc_body ack svc sub app))"

lemma length_tc_body [simp]: "length (tc_body ack svc sub app) = 11 + length app"
  by (simp add: tc_body_def)

lemma length_tc_encode [simp]: "length (tc_encode ack svc sub app) = 13 + length app"
  by (simp add: tc_encode_def)

lemma header_of_tc_encode: "header_of (tc_encode ack svc sub app) = tc_header (length app)"
proof -
  have "header_fits (tc_header (length app))"
    by (simp add: header_fits_def tc_header_def)
  then show ?thesis
    by (simp add: tc_encode_def tc_body_def header_of_octets)
qed

lemma tc_encode_nth:
  "tc_encode ack svc sub app ! 6 = 0x20 OR (ack AND 0x0F)" "tc_encode ack svc sub app ! 7 = svc"
  "tc_encode ack svc sub app ! 8 = sub"
  "of_be16 (tc_encode ack svc sub app ! 9) (tc_encode ack svc sub app ! 10) = 0x0101"
  "drop 11 (tc_encode ack svc sub app) = app @ be16 (crc16 (tc_body ack svc sub app))"
proof -
  define hd where "hd = header_octets (tc_header (length app))"
  have "length hd = 6"
    by (simp add: hd_def)
  then show "tc_encode ack svc sub app ! 6 = 0x20 OR (ack AND 0x0F)"
    "tc_encode ack svc sub app ! 7 = svc" "tc_encode ack svc sub app ! 8 = sub"
    "of_be16 (tc_encode ack svc sub app ! 9) (tc_encode ack svc sub app ! 10) = 0x0101"
    "drop 11 (tc_encode ack svc sub app) = app @ be16 (crc16 (tc_body ack svc sub app))"
    by (simp_all add: tc_encode_def tc_body_def be16_def of_be16_def nth_append flip: hd_def)
qed

text \<open>Whatever is encoded is accepted, and decodes to what was encoded.\<close>

lemma tc_verdict_encode:
  assumes "length app \<le> 65529"
  shows "tc_verdict (tc_encode ack svc sub app) = PUS_OK"
proof -
  have "unat (of_nat (length app + 6) :: u16) = length app + 6"
    unfolding unsigned_of_nat using assms by (simp add: take_bit_eq_mod)
  then have "length (tc_encode ack svc sub app) = 7 + unat (data_length (tc_header (length app)))"
    by (simp add: tc_header_def)
  moreover have "crc16 (tc_encode ack svc sub app) = 0"
    by (simp add: tc_encode_def crc_residue)
  ultimately show ?thesis
    unfolding tc_verdict_OK_iff tc_wellformed_def header_of_tc_encode tc_encode_nth version_ack_bits
    by (simp add: tc_header_def)
qed

lemma tc_decode_encode:
  "tc_decode (tc_encode ack svc sub app) = \<lparr>
     tc_ack = ack AND 0x0F, tc_service = svc, tc_subtype = sub, tc_source = 0x0101, tc_app = app,
     tc_request = raw_request (tc_encode ack svc sub app) \<rparr>"
  unfolding tc_decode_def tc_encode_nth version_ack_bits by (simp add: raw_request_def)

lemma ts_build_tc_in:
  assumes src: "holds src app" and cap: "cap = length buf" "13 + length app \<le> cap"
  shows "ts_build_tc buf cap service subtype ack src (length app)
       = Some (13 + length app, overwrite buf 0 (octets (tc_encode ack service subtype app)))"
proof -
  let ?body = "tc_body ack service subtype app"
  have v: "push_bit 4 2 OR (ack AND 0x0F) = 0x20 OR (ack AND 0x0F)"
    by simp
  have crc: "crc16_ccitt (Some (overwrite buf 0 (octets bs))) k = Some (crc16 bs)"
    if "k = length bs" for k bs
    using that by (simp add: overwrite_0 crc16_ccitt_prefix)
  show ?thesis
    using cap src
    by (simp add: ts_build_tc_def ts_fix_crc_def Let_def ccsds_pack_primary_in wr8_octets
        pus_put_u16_in overwrite_octets_append copy_holds crc v tc_encode_def tc_body_def tc_header_def
        add.commute [of 6])
qed

end
