(* ===== verification/Test_Readers.thy ===== *)
theory Test_Readers
  imports Test_Support
begin

text \<open>
  The ground side of the unit tests, the rest of \<open>tests/framework/test_support.c\<close>: popping a
  packet and decoding its headers, looking for a packet of a service and subtype, and emptying
  the queue. The lemmas say that the reader sees the message the application queued, so that a
  test that passes on the decoded fields speaks about that message.
\<close>

section \<open>The code\<close>

text \<open>The pointer to the data is the rest of the caller's buffer from the first data octet on.\<close>

record ts_tm_t =
  ts_service :: u8
  ts_subtype :: u8
  ts_seq_count :: u16
  ts_msg_counter :: u16
  ts_time_coarse :: u32
  ts_time_fine :: u16
  ts_data :: mem
  ts_data_len :: nat
  ts_total_len :: nat

text \<open>The subtraction of the data length is one of 64-bit \<open>size_t\<close>; \<open>*tm\<close> is indeterminate (\<open>None\<close>) until written.\<close>

definition ts_tm_pop ::
    "mem \<Rightarrow> nat \<Rightarrow> ts_tm_t option \<Rightarrow> tmq_state \<Rightarrow> (pus_bool_t \<times> mem \<times> ts_tm_t option \<times> tmq_state) option" where
  "ts_tm_pop buf cap tm q = do {
     (st, p, out_len, q) \<leftarrow> tm_queue_pop (Some buf) cap (Some (Some 0)) q;
     buf \<leftarrow> p;
     if st \<noteq> PUS_OK then Some (PUS_FALSE, buf, tm, q)
     else do {
       l \<leftarrow> out_len;
       len \<leftarrow> l;
       (_, h) \<leftarrow> ccsds_unpack_primary (Some buf) len (Some None);
       hdr \<leftarrow> h;
       hdr \<leftarrow> hdr;
       let off = CCSDS_PRIMARY_HEADER_LEN;
       service \<leftarrow> rd8 buf (off + 1);
       subtype \<leftarrow> rd8 buf (off + 2);
       msg_counter \<leftarrow> pus_get_u16 buf (off + 3);
       coarse \<leftarrow> pus_get_u32 buf (off + 7);
       fine \<leftarrow> pus_get_u16 buf (off + 11);
       Some (PUS_TRUE, buf, Some \<lparr>
         ts_service = service, ts_subtype = subtype, ts_seq_count = seq_count hdr,
         ts_msg_counter = msg_counter, ts_time_coarse = coarse, ts_time_fine = fine,
         ts_data = drop (off + PUS_TM_SEC_HEADER_LEN) buf,
         ts_data_len = (2 ^ 64 + len - CCSDS_PRIMARY_HEADER_LEN - PUS_TM_SEC_HEADER_LEN - CCSDS_CRC_LEN) mod 2 ^ 64,
         ts_total_len = len \<rparr>, q) } }"

lemma tm_queue_pop_dec:
  "tm_queue_pop buf cap out q = Some (PUS_OK, buf', out', q') \<Longrightarrow> s_count q' < s_count q"
  by (auto simp: tm_queue_pop_def bind_eq_Some_conv split: if_splits option.splits)

lemma ts_tm_pop_dec:
  assumes "ts_tm_pop buf cap tm q = Some (r, buf', tm', q')" and "r = 1"
  shows "s_count q' < s_count q"
  using assms tm_queue_pop_dec
  by (fastforce simp: ts_tm_pop_def bind_eq_Some_conv Let_def split: if_splits)

function ts_tm_find ::
    "u8 \<Rightarrow> u8 \<Rightarrow> mem \<Rightarrow> nat \<Rightarrow> ts_tm_t option \<Rightarrow> tmq_state \<Rightarrow> (pus_bool_t \<times> mem \<times> ts_tm_t option \<times> tmq_state) option" where
  "ts_tm_find service subtype buf cap tm q =
     (case ts_tm_pop buf cap tm q of
        None \<Rightarrow> None
      | Some (r, buf, tm, q) \<Rightarrow>
          if r = PUS_TRUE then
            (case tm of
               None \<Rightarrow> None
             | Some t \<Rightarrow>
                 if ts_service t = service \<and> ts_subtype t = subtype then Some (PUS_TRUE, buf, tm, q)
                 else ts_tm_find service subtype buf cap tm q)
          else Some (PUS_FALSE, buf, tm, q))"
  by pat_completeness auto
termination
  by (relation "measure (\<lambda>(_, _, _, _, _, q). s_count q)") (auto dest: ts_tm_pop_dec)

declare ts_tm_find.simps [simp del]

function flush_loop :: "mem \<Rightarrow> nat option \<Rightarrow> tmq_state \<Rightarrow> tmq_state option" where
  "flush_loop scratch len q =
     (case tm_queue_pop (Some scratch) (length scratch) (Some len) q of
        None \<Rightarrow> None
      | Some (st, p, out_len, q) \<Rightarrow>
          if st = PUS_OK then
            (case (p, out_len) of
               (Some scratch, Some len) \<Rightarrow> flush_loop scratch len q
             | _ \<Rightarrow> None)
          else Some q)"
  by pat_completeness auto
termination
  by (relation "measure (\<lambda>(_, _, q). s_count q)") (auto dest: tm_queue_pop_dec)

declare flush_loop.simps [simp del]

definition ts_tm_flush :: "tmq_state \<Rightarrow> tmq_state option" where
  "ts_tm_flush q = flush_loop (replicate PUS_MAX_PACKET_SIZE None) None q"

section \<open>What the reader sees\<close>

definition ts_view :: "u8 list \<Rightarrow> mem \<Rightarrow> ts_tm_t" where
  "ts_view p buf = (let m = tm_decode p in \<lparr>
     ts_service = m_service m, ts_subtype = m_subtype m, ts_seq_count = m_seq m,
     ts_msg_counter = m_counter m, ts_time_coarse = m_coarse m, ts_time_fine = m_fine m,
     ts_data = octets (drop 19 p) @ drop (length p) buf, ts_data_len = length (m_data m),
     ts_total_len = length p \<rparr>)"

lemma ts_tm_pop_decodes:
  assumes inv: "tmq_inv q" and wf: "queue_wf q" and list: "tmq_list q = p # ps" and len: "length buf = 256"
  shows "ts_tm_pop buf 256 tm q = Some (1, octets p @ drop (length p) buf, Some (ts_view p buf), popped q)"
proof -
  obtain m where m: "tm_fits m" "p = tm_encode m"
    using wf list by (auto simp: queue_wf_def)
  then have n: "length p = 21 + length (m_data m)" "length p \<le> 256" "tm_decode p = m"
    by (simp_all add: tm_fits_def tm_decode_encode)
  have pop: "tm_queue_pop (Some buf) 256 (Some (Some 0)) q
      = Some (PUS_OK, Some (octets p @ drop (length p) buf), Some (Some (length p)), popped q)"
    using tm_queue_pop_nonempty [OF inv list, of 256 buf "Some 0"] len n(2) by (simp add: overwrite_0)
  have "(2 ^ 64 + length p - 6 - 13 - 2) mod 2 ^ 64 = length (m_data m)"
    using n by (simp add: mod_if)
  moreover have "m_service m = p ! 7" "m_subtype m = p ! 8" "m_seq m = seq_count (header_of p)"
    "m_counter m = of_be16 (p ! 9) (p ! 10)" "m_coarse m = of_be32 (p ! 13) (p ! 14) (p ! 15) (p ! 16)"
    "m_fine m = of_be16 (p ! 17) (p ! 18)"
    using n(3) by (auto simp: tm_decode_def)
  ultimately show ?thesis
    using n unfolding ts_tm_pop_def pop
    by (simp add: ccsds_unpack_primary_prefix Let_def rd8_prefix pus_get_u16_prefix pus_get_u32_prefix
        ts_view_def octets_drop)
qed

lemma ts_tm_pop_empty:
  "s_count q = 0 \<Longrightarrow> ts_tm_pop buf cap tm q = Some (0, buf, tm, q)"
  by (simp add: ts_tm_pop_def tm_queue_pop_errors)

definition asked :: "u8 \<Rightarrow> u8 \<Rightarrow> u8 list \<Rightarrow> bool" where
  "asked service subtype p \<longleftrightarrow> m_service (tm_decode p) = service \<and> m_subtype (tm_decode p) = subtype"

lemma popped_wf:
  assumes "tmq_inv q" and "queue_wf q" and "tmq_list q = p # ps"
  shows "tmq_inv (popped q)" and "queue_wf (popped q)" and "tmq_list (popped q) = ps"
  using popped_queue [OF assms(1,3)] assms(2,3) by (auto simp: fifo_of_def queue_wf_def)

text \<open>The search returns the first message asked for and leaves what comes behind it.\<close>

lemma ts_tm_find_first:
  assumes "tmq_inv q" and "queue_wf q" and "length buf = 256"
  shows "\<exists>r buf' tm' q'. ts_tm_find service subtype buf 256 tm q = Some (r, buf', tm', q') \<and> tmq_inv q' \<and>
    (case dropWhile (\<lambda>p. \<not> asked service subtype p) (tmq_list q) of
       [] \<Rightarrow> r = 0 \<and> tmq_list q' = []
     | p # ps \<Rightarrow> r = 1 \<and> (\<exists>b. tm' = Some (ts_view p b)) \<and> tmq_list q' = ps)"
  using assms
proof (induction "tmq_list q" arbitrary: q buf tm)
  case Nil
  then have "s_count q = 0"
    by (metis length_tmq_list list.size(3))
  then show ?case
    using Nil by (simp add: ts_tm_find.simps ts_tm_pop_empty flip: Nil(1))
next
  case (Cons p ps)
  note list = Cons.hyps(2) [symmetric]
  note next_q = popped_wf [OF Cons.prems(1,2) list]
  let ?b = "octets p @ drop (length p) buf"
  have view: "(ts_service (ts_view p buf) = service \<and> ts_subtype (ts_view p buf) = subtype) = asked service subtype p"
    by (simp add: ts_view_def asked_def Let_def)
  have "length p \<le> 256"
    using tmq_list_lengths [OF Cons.prems(1), of p] list by simp
  then have b: "length ?b = 256"
    using Cons.prems(3) by simp
  show ?case
  proof (cases "asked service subtype p")
    case True
    then show ?thesis
      using ts_tm_pop_decodes [OF Cons.prems(1,2) list Cons.prems(3)] view next_q list
      by (auto simp: ts_tm_find.simps [of service subtype buf])
  next
    case False
    then have "ts_tm_find service subtype buf 256 tm q = ts_tm_find service subtype ?b 256 (Some (ts_view p buf)) (popped q)"
      using ts_tm_pop_decodes [OF Cons.prems(1,2) list Cons.prems(3)] view
      by (subst ts_tm_find.simps) auto
    then show ?thesis
      using Cons.hyps(1) [OF next_q(3) [symmetric] next_q(1,2) b, of "Some (ts_view p buf)"] False
      by (simp add: list next_q(3))
  qed
qed

text \<open>Flushing empties the queue.\<close>

lemma flush_loop_empties:
  assumes "tmq_inv q" and "length scratch = 256"
  shows "\<exists>q'. flush_loop scratch len q = Some q' \<and> tmq_inv q' \<and> tmq_list q' = [] \<and> s_overflows q' = s_overflows q"
  using assms
proof (induction "tmq_list q" arbitrary: q scratch len)
  case Nil
  then have "s_count q = 0"
    by (metis length_tmq_list list.size(3))
  then show ?case
    using Nil by (simp add: flush_loop.simps tm_queue_pop_errors)
next
  case (Cons p ps)
  note list = Cons.hyps(2) [symmetric]
  have len: "length p \<le> 256"
    using tmq_list_lengths [OF Cons.prems(1), of p] list by simp
  have "flush_loop scratch len q = flush_loop (overwrite scratch 0 (octets p)) (Some (length p)) (popped q)"
    using tm_queue_pop_nonempty [OF Cons.prems(1) list, of 256 scratch len] Cons.prems(2) len
    by (simp add: flush_loop.simps [of scratch])
  moreover have "tmq_inv (popped q)" "tmq_list (popped q) = ps" "s_overflows (popped q) = s_overflows q"
    using popped_queue [OF Cons.prems(1) list] by (auto simp: fifo_of_def)
  moreover have "length (overwrite scratch 0 (octets p)) = 256"
    using Cons.prems(2) len by simp
  ultimately show ?case
    using Cons.hyps(1) by metis
qed

lemma ts_tm_flush_empties:
  "tmq_inv q \<Longrightarrow> \<exists>q'. ts_tm_flush q = Some q' \<and> tmq_inv q' \<and> tmq_list q' = [] \<and> s_overflows q' = s_overflows q"
  unfolding ts_tm_flush_def by (rule flush_loop_empties) simp_all

section \<open>Properties\<close>

text \<open>
  Looking for a report on the ground side finds the first queued message of that service and
  subtype, decodes every field of it, discards the messages before it and keeps those behind it;
  it fails, with the queue empty, exactly when there is none.
\<close>

theorem ts_tm_find_decodes:
  assumes "tmq_inv q" and "queue_wf q" and "length buf = 256"
  shows "\<exists>r buf' tm' q'. ts_tm_find service subtype buf 256 tm q = Some (r, buf', tm', q') \<and>
    (case dropWhile (\<lambda>p. m_service (tm_decode p) \<noteq> service \<or> m_subtype (tm_decode p) \<noteq> subtype) (tmq_list q) of
       [] \<Rightarrow> r = PUS_FALSE \<and> tmq_list q' = []
     | p # ps \<Rightarrow> r = PUS_TRUE \<and> tmq_list q' = ps \<and>
         (\<exists>t. tm' = Some t \<and> ts_service t = service \<and> ts_subtype t = subtype \<and>
           ts_seq_count t = m_seq (tm_decode p) \<and> ts_msg_counter t = m_counter (tm_decode p) \<and>
           ts_time_coarse t = m_coarse (tm_decode p) \<and> ts_time_fine t = m_fine (tm_decode p) \<and>
           ts_data_len t = length (m_data (tm_decode p)) \<and>
           take (ts_data_len t) (ts_data t) = octets (m_data (tm_decode p)) \<and> ts_total_len t = length p))"
proof -
  obtain r buf' tm' q' where find: "ts_tm_find service subtype buf 256 tm q = Some (r, buf', tm', q')"
    and first: "case dropWhile (\<lambda>p. \<not> asked service subtype p) (tmq_list q) of
       [] \<Rightarrow> r = 0 \<and> tmq_list q' = []
     | p # ps \<Rightarrow> r = 1 \<and> (\<exists>b. tm' = Some (ts_view p b)) \<and> tmq_list q' = ps"
    using ts_tm_find_first [OF assms] by blast
  have pred: "(\<lambda>p. m_service (tm_decode p) \<noteq> service \<or> m_subtype (tm_decode p) \<noteq> subtype) = (\<lambda>p. \<not> asked service subtype p)"
    by (auto simp: asked_def)
  have data: "take (length (m_data (tm_decode p))) (octets (drop 19 p) @ drop (length p) b) = octets (m_data (tm_decode p))"
    if mem: "p \<in> set (tmq_list q)" for p b
  proof -
    obtain m where "tm_fits m" "p = tm_encode m"
      using assms(2) mem unfolding queue_wf_def by blast
    then show ?thesis
      by (simp add: tm_decode_def octets_take take_map [symmetric])
  qed
  show ?thesis
  proof (cases "dropWhile (\<lambda>p. \<not> asked service subtype p) (tmq_list q)")
    case Nil
    then show ?thesis
      using find first unfolding pred Nil by simp
  next
    case (Cons p ps)
    then have "asked service subtype p" "p \<in> set (tmq_list q)"
      by (metis hd_dropWhile list.distinct(1) list.sel(1)) (metis Cons list.set_intros(1) set_dropWhileD)
    moreover obtain b where "r = 1" "tm' = Some (ts_view p b)" "tmq_list q' = ps"
      using first Cons by auto
    ultimately show ?thesis
      using find data [of p b] Cons unfolding pred
      by (simp add: ts_view_def asked_def Let_def)
  qed
qed

end
