(* ===== verification/Reports.thy ===== *)
theory Reports
  imports Obsw_Step Test_Readers
begin

text \<open>
  What one telecommand and one minor cycle add to the downlink queue, and what they do to the
  mode, the heater, the alarm latch and the housekeeping phase: the facts behind the
  properties of the whole application. All of it is about the abstract state.
\<close>

section \<open>One message\<close>

lemma emit_room:
  "length (sp_queue a) < 16 \<Longrightarrow>
   sp_queue (snd (emit svc sub data a)) = sp_queue a @ [stamp svc sub data a] \<and>
   fst (emit svc sub data a) = PUS_OK"
  by (simp add: emit_def Let_def)

lemma stamp_fields [simp]:
  "m_service (stamp svc sub data a) = svc" "m_subtype (stamp svc sub data a) = sub"
  "m_data (stamp svc sub data a) = data"
  by (simp_all add: stamp_def)

lemma appends_length: "appends S a b \<Longrightarrow> length (sp_queue a) \<le> length (sp_queue b)"
  by (auto simp: appends_def)

lemma appends_obtain:
  assumes "appends S a b"
  obtains ms where "sp_queue b = sp_queue a @ ms" and "\<forall>m \<in> set ms. m_service m \<in> S"
  using assms by (auto simp: appends_def)

section \<open>The reports of an accepted telecommand\<close>

text \<open>The last report, and the event that may follow it.\<close>

definition final_report :: "telecommand \<Rightarrow> pus_status_t \<Rightarrow> tm_msg \<Rightarrow> bool" where
  "final_report c st m \<longleftrightarrow> m_service m = 1 \<and> m_subtype m = (if st = PUS_OK then 7 else 8) \<and>
     m_data m = be32 (tc_request c) @ (if st = PUS_OK then [] else be16 (status_code st))"

definition rejection_event :: "pus_status_t \<Rightarrow> tm_msg \<Rightarrow> bool" where
  "rejection_event st m \<longleftrightarrow> m_service m = 5 \<and> m_subtype m = 2 \<and> m_data m = be16 3 @ be16 (status_code st)"

lemma sp_event_append:
  assumes "length (sp_queue (snd (sp_event 3 2 (status_code st) a))) < 16"
  shows "\<exists>ms. sp_queue (snd (sp_event 3 2 (status_code st) a)) = sp_queue a @ ms \<and>
    list_all (rejection_event st) ms \<and> length ms = of_bool (sp_ev a 3)"
proof -
  have "length (sp_queue a) < 16"
    using assms by (auto simp: sp_event_def emit_def Let_def split: if_splits)
  from emit_room [OF this] show ?thesis
    by (simp add: sp_event_def rejection_event_def event_data_def)
qed

lemma sp_finish_reports:
  assumes ack: "ack_requested c PUS_ACK_COMPLETION" and room: "length (sp_queue (sp_finish c st a)) < 16"
  shows "\<exists>fin evs. sp_queue (sp_finish c st a) = sp_queue a @ [fin] @ evs \<and> final_report c st fin \<and>
    list_all (rejection_event st) evs \<and> length evs = of_bool (st \<noteq> PUS_OK \<and> sp_ev a 3)"
proof -
  have "length (sp_queue a) \<le> length (sp_queue (sp_finish c st a))"
    using queue.finish by (rule appends_length)
  with room have len: "length (sp_queue a) < 16"
    by simp
  show ?thesis
  proof (cases "st = PUS_OK")
    case True
    then show ?thesis
      using ack emit_room [OF len]
      by (simp add: sp_finish_def sp_completion_def sp_success_def final_report_def)
  next
    case False
    let ?b = "a\<lparr> sp_failure := status_code st \<rparr>"
    have "length (sp_queue ?b) < 16"
      using len by simp
    from emit_room [OF this]
    have q: "sp_queue (snd (sp_completion c st ?b)) = sp_queue a @
        [stamp 1 8 (be32 (tc_request c) @ be16 (status_code st)) ?b]" and ev: "sp_ev (snd (sp_completion c st ?b)) = sp_ev a"
      using ack False by (simp_all add: sp_completion_def sp_failure_report_def)
    have fin: "sp_finish c st a = snd (sp_event 3 2 (status_code st) (snd (sp_completion c st ?b)))"
      using False by (simp add: sp_finish_def)
    obtain evs where "sp_queue (sp_finish c st a) = sp_queue (snd (sp_completion c st ?b)) @ evs"
        "list_all (rejection_event st) evs" "length evs = of_bool (sp_ev a 3)"
      using sp_event_append [of st "snd (sp_completion c st ?b)"] room unfolding fin ev by blast
    then show ?thesis
      using False q by (simp add: final_report_def)
  qed
qed

text \<open>Only a request that succeeds changes the event flags, so a failure is reported under the old ones.\<close>

lemma sp_one_shot_flags: "sp_ev (snd (sp_one_shot sids a)) = sp_ev a"
  by (induction sids arbitrary: a) (simp_all add: sp_hk_report_def split_beta)

lemma perform_function_flags: "sp_ev (snd (perform_function f a)) = sp_ev a"
  by (cases f) (simp_all add: sp_set_mode_def sp_set_heater_def sp_reset_counters_def Let_def)

lemma sp_route_failure_flags:
  "fst (sp_route c a) \<noteq> PUS_OK \<Longrightarrow> sp_ev (snd (sp_route c a)) = sp_ev a"
  by (auto simp: sp_route_def sp_svc03_def sp_hk_list_def sp_hk_enable_def sp_svc05_def sp_set_events_def sp_svc08_def
      sp_svc17_def sp_one_shot_flags perform_function_flags split: sum.splits if_splits)

lemma sp_execute_reports:
  assumes acc: "ack_requested c PUS_ACK_ACCEPTANCE" and com: "ack_requested c PUS_ACK_COMPLETION"
    and room: "length (sp_queue (snd (sp_execute c a))) < 16"
  shows "\<exists>first ms fin evs. sp_queue (snd (sp_execute c a)) = sp_queue a @ [first] @ ms @ [fin] @ evs \<and>
    m_service first = 1 \<and> m_subtype first = 1 \<and> m_data first = be32 (tc_request c) \<and>
    (\<forall>m \<in> set ms. m_service m \<in> {3, 5, 17}) \<and> final_report c (fst (sp_execute c a)) fin \<and>
    list_all (rejection_event (fst (sp_execute c a))) evs \<and>
    length evs = of_bool (fst (sp_execute c a) \<noteq> PUS_OK \<and> sp_ev a 3)"
proof -
  let ?a = "a\<lparr> sp_accepted := sat_inc (sp_accepted a) \<rparr>"
  let ?b = "snd (sp_acceptance c ?a)"
  let ?st = "fst (sp_route c ?b)" and ?d = "snd (sp_route c ?b)"
  have ex: "sp_execute c a = (?st, sp_finish c ?st ?d)"
    by (simp add: sp_execute_def Let_def split_beta)
  have route: "appends {3, 5, 17} ?b ?d"
    by (rule service_queue.route)
  have "length (sp_queue ?a) \<le> length (sp_queue ?b)" "length (sp_queue ?d) \<le> length (sp_queue (sp_finish c ?st ?d))"
    using queue.acceptance queue.finish by (blast intro: appends_length)+
  with appends_length [OF route] room have len: "length (sp_queue ?a) < 16"
    unfolding ex snd_conv by linarith
  have b: "sp_queue ?b = sp_queue a @ [stamp 1 1 (be32 (tc_request c)) ?a]" "sp_ev ?b = sp_ev a"
    using acc emit_room [OF len] by (simp_all add: sp_acceptance_def sp_success_def)
  have ev: "?st \<noteq> PUS_OK \<and> sp_ev ?d 3 \<longleftrightarrow> ?st \<noteq> PUS_OK \<and> sp_ev a 3"
    using sp_route_failure_flags [of c ?b] b(2) by auto
  obtain ms where d: "sp_queue ?d = sp_queue ?b @ ms" "\<forall>m \<in> set ms. m_service m \<in> {3, 5, 17}"
    using route by (rule appends_obtain)
  obtain fin evs where "sp_queue (sp_finish c ?st ?d) = sp_queue ?d @ [fin] @ evs" "final_report c ?st fin"
      "list_all (rejection_event ?st) evs" "length evs = of_bool (?st \<noteq> PUS_OK \<and> sp_ev a 3)"
    using sp_finish_reports [OF com, of ?st ?d] room unfolding ex snd_conv ev by blast
  then show ?thesis
    unfolding ex fst_conv snd_conv using b(1) d
    by (intro exI [of _ "stamp 1 1 (be32 (tc_request c)) ?a"] exI [of _ ms] exI [of _ fin] exI [of _ evs]) simp
qed

section \<open>What a rejected packet changes\<close>

lemma sp_refuse_frame:
  "telemetry_only (a\<lparr> sp_rejected := sat_inc (sp_rejected a), sp_failure := status_code st \<rparr>) (sp_refuse bs st a)"
  unfolding sp_refuse_def Let_def
  by (rule telemetry_only_trans [OF _ telemetry_only_event])
    (simp add: sp_reject_def sp_failure_report_def telemetry_only_emit)

section \<open>The minor cycle\<close>

lemma sp_periodic_fields:
  "telemetry_only a (sp_periodic sids a)"
proof (induction sids arbitrary: a)
  case Nil
  then show ?case by (simp add: telemetry_only_refl)
next
  case (Cons sid sids)
  have "telemetry_only a (if sp_hk a sid then snd (sp_hk_report sid a) else a)"
    by (simp add: sp_hk_report_def telemetry_only_emit telemetry_only_refl)
  from telemetry_only_trans [OF this Cons.IH] show ?case
    by simp
qed

lemma sp_hk_tick_fields:
  "sp_mode (sp_hk_tick a) = sp_mode a" "sp_heater (sp_hk_tick a) = sp_heater a"
  "sp_alarm (sp_hk_tick a) = sp_alarm a" "sp_temp (sp_hk_tick a) = sp_temp a"
  "sp_hal (sp_hk_tick a) = sp_hal a" "sp_uptime (sp_hk_tick a) = sp_uptime a"
  "sp_last_drops (sp_hk_tick a) = sp_last_drops a" "sp_ev (sp_hk_tick a) = sp_ev a"
  "sp_phase (sp_hk_tick a) = (if sp_phase a + 1 < 10 then sp_phase a + 1 else 0)"
proof -
  have f: "f (sp_periodic [1, 2] (a\<lparr> sp_phase := 0 \<rparr>)) = f (a\<lparr> sp_phase := 0 \<rparr>)"
    if "\<And>b q d n k. f (b\<lparr> sp_queue := q, sp_drops := d, sp_seq := n, sp_ctr := k \<rparr>) = f b" for f :: "spec \<Rightarrow> 'b"
    using sp_periodic_fields [of "a\<lparr> sp_phase := 0 \<rparr>" "[1, 2]"] that unfolding telemetry_only_def by metis
  show "sp_mode (sp_hk_tick a) = sp_mode a" "sp_heater (sp_hk_tick a) = sp_heater a"
    "sp_alarm (sp_hk_tick a) = sp_alarm a" "sp_temp (sp_hk_tick a) = sp_temp a"
    "sp_hal (sp_hk_tick a) = sp_hal a" "sp_uptime (sp_hk_tick a) = sp_uptime a"
    "sp_last_drops (sp_hk_tick a) = sp_last_drops a" "sp_ev (sp_hk_tick a) = sp_ev a"
    "sp_phase (sp_hk_tick a) = (if sp_phase a + 1 < 10 then sp_phase a + 1 else 0)"
    using f [of sp_mode] f [of sp_heater] f [of sp_alarm] f [of sp_temp] f [of sp_hal] f [of sp_uptime]
      f [of sp_last_drops] f [of sp_ev] f [of sp_phase]
    by (simp_all add: sp_hk_tick_def del: sp_periodic.simps)
qed

lemma sp_overflow_fields [simp]:
  "sp_mode (sp_overflow a) = sp_mode a" "sp_heater (sp_overflow a) = sp_heater a"
  "sp_alarm (sp_overflow a) = sp_alarm a" "sp_temp (sp_overflow a) = sp_temp a"
  "sp_hal (sp_overflow a) = sp_hal a" "sp_uptime (sp_overflow a) = sp_uptime a"
  "sp_phase (sp_overflow a) = sp_phase a" "sp_hk (sp_overflow a) = sp_hk a"
  "sp_ev (sp_overflow a) = sp_ev a"
  by (simp_all add: sp_overflow_def)


lemma event_cycle_fields [simp]:
  "sp_hk (snd (sp_event eid sev aux a)) = sp_hk a" "sp_phase (snd (sp_event eid sev aux a)) = sp_phase a"
  by (simp_all add: sp_event_def)

lemma switch_cycle_fields [simp]:
  "sp_hk (sp_switch_heater on a) = sp_hk a" "sp_phase (sp_switch_heater on a) = sp_phase a"
  by (simp_all add: sp_switch_heater_def)

lemma mode_cycle_fields [simp]:
  "sp_hk (sp_set_mode m a) = sp_hk a" "sp_phase (sp_set_mode m a) = sp_phase a"
  "sp_ev (sp_set_mode m a) = sp_ev a"
  by (simp_all add: sp_set_mode_def Let_def)

lemma thermal_cycle_fields [simp]:
  "sp_hk (sp_thermal a) = sp_hk a" "sp_phase (sp_thermal a) = sp_phase a" "sp_ev (sp_thermal a) = sp_ev a"
  "sp_temp (sp_thermal a) = sp_temp a"
  by (simp_all add: sp_thermal_def Let_def)

lemma sample_fields [simp]:
  "sp_hk (sp_sample a) = sp_hk a" "sp_phase (sp_sample a) = sp_phase a" "sp_ev (sp_sample a) = sp_ev a"
  "sp_mode (sp_sample a) = sp_mode a" "sp_heater (sp_sample a) = sp_heater a"
  "sp_alarm (sp_sample a) = sp_alarm a" "sp_queue (sp_sample a) = sp_queue a"
  "sp_temp (sp_sample a) = s_temperature_dc (sp_hal a)" "sp_drops (sp_sample a) = sp_drops a"
  "sp_last_drops (sp_sample a) = sp_last_drops a"
  by (simp_all add: sp_sample_def)

text \<open>The control law as a table, and the alarm latch.\<close>

lemma sp_thermal_mode:
  "sp_mode (sp_thermal a) = (if sp_mode a = Nominal \<and> sint (sp_temp a) < 400 then Nominal else Safe)"
  using opmode.exhaust [of "sp_mode a"] by (auto simp: sp_thermal_def Let_def)

lemma sp_thermal_heater:
  "sp_mode a = Safe \<longrightarrow> \<not> sp_heater a \<Longrightarrow>
   sp_heater (sp_thermal a) \<longleftrightarrow> sp_mode a = Nominal \<and> sint (sp_temp a) < 250 \<and>
     (sint (sp_temp a) \<le> 50 \<or> sp_heater a)"
  using opmode.exhaust [of "sp_mode a"] by (auto simp: sp_thermal_def Let_def)

lemma sp_thermal_alarm:
  "sp_alarm (sp_thermal a) \<longleftrightarrow>
     250 \<le> sint (sp_temp a) \<and> (sp_alarm a \<or> sp_mode a = Nominal \<and> 400 \<le> sint (sp_temp a))"
  by (auto simp: sp_thermal_def Let_def)

lemma sp_tick_fields:
  "sp_mode (sp_tick a) = sp_mode (sp_thermal (sp_sample a))"
  "sp_heater (sp_tick a) \<longleftrightarrow> sp_heater (sp_thermal (sp_sample a))"
  "sp_alarm (sp_tick a) \<longleftrightarrow> sp_alarm (sp_thermal (sp_sample a))"
  "sp_temp (sp_tick a) = s_temperature_dc (sp_hal a)"
  "sp_phase (sp_tick a) = (if sp_phase a + 1 < 10 then sp_phase a + 1 else 0)"
  by (simp_all add: sp_tick_def sp_hk_tick_fields)

lemma sp_tick_temperature: "s_temperature_dc (sp_hal (sp_tick a)) = s_temperature_dc (sp_hal a)"
  by (simp add: sp_tick_def sp_hk_tick_fields sp_thermal_def sp_set_mode_def sp_switch_heater_def
      hal_set_heater_def sp_sample_def hal_time_advance_def Let_def)

text \<open>The periodic reports of a cycle that ends with room in the queue.\<close>

lemma sp_hk_step:
  assumes "length (sp_queue (if sp_hk a sid then snd (sp_hk_report sid a) else a)) < 16"
  shows "\<exists>ms. sp_queue (if sp_hk a sid then snd (sp_hk_report sid a) else a) = sp_queue a @ ms \<and>
    ms = (if sp_hk a sid then [stamp 3 25 (hk_data sid a) a] else [])"
proof -
  have "length (sp_queue a) \<le> length (sp_queue (snd (sp_hk_report sid a)))"
    using queue.hk_report by (rule appends_length)
  then show ?thesis
    using assms emit_room [of a 3 25 "hk_data sid a"] by (auto simp: sp_hk_report_def)
qed

definition hk_msg :: "u8 \<Rightarrow> tm_msg \<Rightarrow> bool" where
  "hk_msg sid m \<longleftrightarrow> m_service m = 3 \<and> m_subtype m = 25 \<and> m_data m ! 0 = sid"

lemma hk_msg_stamp [simp]: "hk_msg sid (stamp 3 25 (hk_data sid' a) a) \<longleftrightarrow> sid = sid'"
  by (auto simp: hk_msg_def hk_data_def)

lemma sp_periodic_reports:
  assumes "length (sp_queue (sp_periodic sids a)) < 16"
  shows "\<exists>ms. sp_queue (sp_periodic sids a) = sp_queue a @ ms \<and>
    (\<forall>sid. (\<exists>m \<in> set ms. hk_msg sid m) \<longleftrightarrow> sid \<in> set sids \<and> sp_hk a sid)"
  using assms
proof (induction sids arbitrary: a)
  case Nil
  then show ?case by simp
next
  case (Cons sid sids)
  let ?b = "if sp_hk a sid then snd (sp_hk_report sid a) else a"
  have "appends {1, 3, 5, 17} ?b (sp_periodic sids ?b)"
    by (rule queue.periodic)
  then have "length (sp_queue ?b) \<le> length (sp_queue (sp_periodic sids ?b))"
    by (rule appends_length)
  then have len: "length (sp_queue ?b) < 16" and rest: "length (sp_queue (sp_periodic sids ?b)) < 16"
    using Cons.prems by simp_all
  obtain ms where ms: "sp_queue (sp_periodic sids ?b) = sp_queue ?b @ ms"
      "\<forall>x. (\<exists>m \<in> set ms. hk_msg x m) \<longleftrightarrow> x \<in> set sids \<and> sp_hk ?b x"
    using Cons.IH [OF rest] by blast
  have hk: "sp_hk ?b = sp_hk a"
    by (simp add: sp_hk_report_def)
  show ?case
    using sp_hk_step [OF len] ms unfolding hk sp_periodic.simps by (auto split: if_splits)
qed

lemma control_reports: "appends {5} (sp_sample a) (sp_overflow (sp_thermal (sp_sample a)))"
  using control_queue.thermal control_queue.overflow by (rule control_queue.trans)

lemma sp_tick_hk_reports:
  assumes room: "length (sp_queue (sp_tick a)) < 16"
  shows "\<exists>ms. sp_queue (sp_tick a) = sp_queue a @ ms \<and>
    (\<forall>sid. (\<exists>m \<in> set ms. hk_msg sid m) \<longleftrightarrow> \<not> sp_phase a + 1 < 10 \<and> (sid = 1 \<or> sid = 2) \<and> sp_hk a sid)"
proof -
  let ?c = "sp_overflow (sp_thermal (sp_sample a))"
  obtain es where es: "sp_queue ?c = sp_queue a @ es" "\<forall>m \<in> set es. m_service m \<in> {5}"
    using control_reports [of a] by (auto elim: appends_obtain)
  have no: "\<not> hk_msg sid m" if "m \<in> set es" for sid m
    using es(2) that by (auto simp: hk_msg_def)
  show ?thesis
  proof (cases "sp_phase a + 1 < 10")
    case True
    then have "sp_queue (sp_tick a) = sp_queue a @ es"
      using es(1) by (simp add: sp_tick_def sp_hk_tick_def)
    then show ?thesis
      using True no by blast
  next
    case False
    have tick: "sp_tick a = sp_periodic [1, 2] (?c\<lparr> sp_phase := 0 \<rparr>)"
      using False by (simp add: sp_tick_def sp_hk_tick_def del: sp_periodic.simps)
    obtain ms where ms: "sp_queue (sp_tick a) = sp_queue (?c\<lparr> sp_phase := 0 \<rparr>) @ ms"
        "\<forall>sid. (\<exists>m \<in> set ms. hk_msg sid m) \<longleftrightarrow> sid \<in> set [1, 2] \<and> sp_hk (?c\<lparr> sp_phase := 0 \<rparr>) sid"
      using sp_periodic_reports [of "[1, 2]" "?c\<lparr> sp_phase := 0 \<rparr>"] room unfolding tick by blast
    have "sp_queue (sp_tick a) = sp_queue a @ (es @ ms)"
      using ms(1) es(1) by simp
    moreover have "(\<exists>m \<in> set (es @ ms). hk_msg sid m) \<longleftrightarrow> (sid = 1 \<or> sid = 2) \<and> sp_hk a sid" for sid
      using ms(2) no by auto
    ultimately show ?thesis
      using False by blast
  qed
qed


text \<open>The report of lost packets in a cycle that ends with room in the queue.\<close>

lemma sp_tick_overflow_report:
  assumes room: "length (sp_queue (sp_tick a)) < 16" and ev: "sp_ev a 4" and lost: "sp_drops a \<noteq> sp_last_drops a"
  shows "\<exists>m. m \<in> set (drop (length (sp_queue a)) (sp_queue (sp_tick a))) \<and>
      m_service m = 5 \<and> m_subtype m = 2 \<and> m_data m = event_data 4 (sp_drops a)"
    and "sp_last_drops (sp_tick a) = sp_drops a"
proof -
  let ?t = "sp_thermal (sp_sample a)" and ?m = "\<lambda>b. stamp 5 2 (event_data 4 (sp_drops a)) b"
  have t: "appends {5} (sp_sample a) ?t"
    by (rule control_queue.thermal)
  have o': "appends {5} ?t (sp_overflow ?t)"
    by (rule control_queue.overflow)
  have k: "appends {1, 3, 5, 17} (sp_overflow ?t) (sp_tick a)"
    unfolding sp_tick_def by (rule queue.hk_tick)
  have len: "length (sp_queue ?t) < 16"
    using room appends_length [OF o'] appends_length [OF k] by simp
  then have d: "sp_drops ?t = sp_drops a"
    using t by (simp add: appends_def)
  have l: "sp_last_drops ?t = sp_last_drops a"
    by (simp add: sp_thermal_def sp_set_mode_def sp_switch_heater_def Let_def)
  let ?b = "?t\<lparr> sp_last_drops := sp_drops ?t \<rparr>"
  have "sp_overflow ?t = snd (emit 5 2 (event_data 4 (sp_drops a)) ?b)"
    using lost ev by (simp add: sp_overflow_def d l sp_event_def)
  then have o: "sp_queue (sp_overflow ?t) = sp_queue ?t @ [?m ?b]" "sp_last_drops (sp_overflow ?t) = sp_drops a"
    using emit_room [of ?b 5 2 "event_data 4 (sp_drops a)"] len d by simp_all
  obtain es where "sp_queue ?t = sp_queue a @ es"
    using t by (auto elim: appends_obtain)
  moreover obtain hs where "sp_queue (sp_tick a) = sp_queue (sp_overflow ?t) @ hs"
    using k by (auto elim: appends_obtain)
  ultimately have "drop (length (sp_queue a)) (sp_queue (sp_tick a)) = es @ [?m ?b] @ hs"
    using o(1) by simp
  then show "\<exists>m. m \<in> set (drop (length (sp_queue a)) (sp_queue (sp_tick a))) \<and>
      m_service m = 5 \<and> m_subtype m = 2 \<and> m_data m = event_data 4 (sp_drops a)"
    by (intro exI [of _ "?m ?b"]) simp
  show "sp_last_drops (sp_tick a) = sp_drops a"
    using o(2) by (simp add: sp_tick_def sp_hk_tick_fields)
qed

section \<open>The alarm latch in reachable states\<close>

lemma reachable_alarm:
  "reachable s \<Longrightarrow> sp_alarm (obsw_abs s) \<longrightarrow> 250 \<le> sint (sp_temp (obsw_abs s))"
proof (induction rule: reachable_induct)
  case boot
  show ?case by (simp add: sp_boot_eq boot_spec_def)
next
  case (tick a)
  then show ?case by (simp add: sp_tick_fields sp_thermal_alarm)
next
  case (command a bs)
  then show ?case
    using ground.process [of a bs] by (simp add: cycle_kept_def)
next
  case (pop a)
  then show ?case by simp
qed

section \<open>A concrete reachable state\<close>

definition booted :: obsw where
  "booted = the (obsw_do Start power_on)"

lemma booted: "reachable booted" "obsw_inv booted" "obsw_abs booted = sp_boot"
proof -
  obtain s where s: "obc_init power_on = Some ((), s)" "obsw_inv s" "obsw_abs s = sp_boot"
    using refinesE [OF obc_init_refines [OF obsw_inv_power_on]] by auto
  then have b: "booted = s"
    by (simp add: booted_def obsw_do_def)
  have "obsw_run power_on [Start] s"
    using s(1) by (auto simp: obsw_run_simps intro: obsw_step.start)
  then show "reachable booted"
    unfolding b reachable_def by blast
  show "obsw_inv booted" "obsw_abs booted = sp_boot"
    using s b by simp_all
qed

text \<open>Every sequence of stimuli can be run from it.\<close>

lemma booted_run: "\<exists>s. reachable s \<and> obsw_run booted xs s \<and> obsw_abs s = fold sp_step xs sp_boot"
proof -
  obtain s where "obsw_run booted xs s"
    using obsw_run_total [OF booted(2)] by blast
  then show ?thesis
    using reachable_run [OF _ booted(1)] obsw_run_refines [OF _ booted(2)] unfolding booted(3) by blast
qed

section \<open>Saturation of the loss counter\<close>

text \<open>
  The loss counter saturates, and a minor cycle reports losses when the counter differs from its
  last value. So once 65535 losses were counted and taken as reported, both values stay equal
  until the next start, however many packets are lost: no further loss is ever reported.
\<close>

theorem overflow_saturated_silent:
  assumes "reachable s" and "tm_queue_overflow_count (tmq s) = 0xFFFF" and "s_last_overflow s = 0xFFFF"
    and "obsw_run s xs s'" and "Start \<notin> set xs"
  shows "tm_queue_overflow_count (tmq s') = 0xFFFF \<and> s_last_overflow s' = 0xFFFF"
proof -
  have "saturated (sp_step x a)" if "saturated a" "x \<noteq> Start" for x a
    using that silence.tick silence.process
    by (cases x) (auto simp: sp_step_def, auto simp: saturated_def)
  then have "saturated (fold sp_step xs a)" if "saturated a" "Start \<notin> set xs" for a
    using that by (induction xs arbitrary: a) auto
  moreover have "saturated (obsw_abs s)"
    using assms(2,3) by (simp add: saturated_def obsw_abs_def tm_queue_overflow_count_def)
  ultimately have "saturated (obsw_abs s')"
    using obsw_run_refines [OF assms(4) reachable_inv [OF assms(1)]] assms(5) by simp
  then show ?thesis
    by (simp add: saturated_def obsw_abs_def tm_queue_overflow_count_def)
qed

end
