(* ===== verification/Control_Events.thy ===== *)
theory Control_Events
  imports Reports
begin

text \<open>
  The event reports of one minor cycle: which alarm, heater and mode events the control law sends,
  in which order and with which auxiliary word. First on the abstract state, one operation at a
  time and then the whole cycle, then as a property of the code.
\<close>

section \<open>The events of the control law\<close>

text \<open>Severity and source data of the event reports among some messages, but for the loss report.\<close>

definition control_events :: "tm_msg list \<Rightarrow> (u8 \<times> u8 list) list" where
  "control_events ms =
     map (\<lambda>m. (m_subtype m, m_data m)) (filter (\<lambda>m. m_service m = 5 \<and> take 2 (m_data m) \<noteq> be16 4) ms)"

lemma control_events_append [simp]: "control_events (ms @ ns) = control_events ms @ control_events ns"
  by (simp add: control_events_def)

lemma control_events_stamp [simp]:
  "control_events [stamp svc sub data a] = (if svc = 5 \<and> take 2 data \<noteq> be16 4 then [(sub, data)] else [])"
  by (simp add: control_events_def)

text \<open>With room left in the queue nothing was dropped on the way.\<close>

lemma emit_left:
  "length (sp_queue (snd (emit svc sub data a))) < 16 \<Longrightarrow>
   sp_queue (snd (emit svc sub data a)) = sp_queue a @ [stamp svc sub data a]"
  by (simp add: emit_def Let_def split: if_splits)

lemma control_events_event:
  "length (sp_queue (snd (sp_event eid sev aux a))) < 16 \<Longrightarrow>
   control_events (sp_queue (snd (sp_event eid sev aux a))) = control_events (sp_queue a) @
     (if sp_ev a eid \<and> eid \<noteq> 4 then [(sev, event_data eid aux)] else [])"
  using emit_left [of 5 sev "event_data eid aux" a] by (auto simp: sp_event_def event_data_def)

lemma control_events_switch:
  "length (sp_queue (sp_switch_heater on a)) < 16 \<Longrightarrow>
   control_events (sp_queue (sp_switch_heater on a)) = control_events (sp_queue a) @
     (if on \<noteq> sp_heater a \<and> sp_ev a 5 then [(1, event_data 5 (of_bool on))] else [])"
  using control_events_event
    [of 5 1 "of_bool on" "a\<lparr> sp_hal := hal_set_heater (of_bool on) (sp_hal a), sp_heater := on \<rparr>"]
  by (cases on) (auto simp: sp_switch_heater_def)

lemma control_events_safe:
  assumes "length (sp_queue (sp_set_mode Safe a)) < 16" and "sp_mode a = Nominal"
  shows "control_events (sp_queue (sp_set_mode Safe a)) = control_events (sp_queue a) @
     (if sp_heater a \<and> sp_ev a 5 then [(1, event_data 5 0)] else []) @
     (if sp_ev a 2 then [(1, event_data 2 0)] else [])"
proof -
  let ?b = "sp_switch_heater False (a\<lparr> sp_mode := Safe \<rparr>)"
  have eq: "sp_set_mode Safe a = snd (sp_event 2 1 0 ?b)"
    using assms(2) by (simp add: sp_set_mode_def mode_code_def)
  moreover have "length (sp_queue ?b) \<le> length (sp_queue (snd (sp_event 2 1 0 ?b)))"
    using control_queue.event [of 2 ?b 1 0] by (intro appends_length) simp
  moreover have "sp_ev ?b = sp_ev a"
    by (simp add: sp_switch_heater_def)
  ultimately show ?thesis
    using assms(1) control_events_event [of 2 1 0 ?b] control_events_switch [of False "a\<lparr> sp_mode := Safe \<rparr>"]
    by simp
qed

lemma control_events_thermal:
  assumes room: "length (sp_queue (sp_thermal a)) < 16" and safe: "sp_mode a = Safe \<longrightarrow> \<not> sp_heater a"
  shows "control_events (sp_queue (sp_thermal a)) = control_events (sp_queue a) @
    (if sp_mode a = Nominal \<and> 400 \<le> sint (sp_temp a) \<and> \<not> sp_alarm a \<and> sp_ev a 6
     then [(4, event_data 6 (sp_temp a))] else []) @
    (if sp_heater (sp_thermal a) \<noteq> sp_heater a \<and> sp_ev a 5
     then [(1, event_data 5 (of_bool (sp_heater (sp_thermal a))))] else []) @
    (if sp_mode a = Nominal \<and> 400 \<le> sint (sp_temp a) \<and> sp_ev a 2 then [(1, event_data 2 0)] else [])"
proof (cases "sp_mode a = Nominal")
  case False
  then have "sp_mode a = Safe" "\<not> sp_heater a"
    using opmode.exhaust [of "sp_mode a"] safe by auto
  then show ?thesis
    using sp_thermal_heater [OF safe] by (simp add: sp_thermal_def Let_def sp_switch_heater_def)
next
  case nominal: True
  note heater = sp_thermal_heater [OF safe]
  show ?thesis
  proof (cases "400 \<le> sint (sp_temp a)")
    case hot: True
    let ?b = "if sp_alarm a then a else snd (sp_event 6 4 (sp_temp a) (a\<lparr> sp_alarm := True \<rparr>))"
    have eq: "sp_thermal a = sp_set_mode Safe ?b"
      using nominal hot by (simp add: sp_thermal_def Let_def)
    have b: "sp_mode ?b = Nominal" "sp_heater ?b = sp_heater a" "sp_ev ?b = sp_ev a"
      using nominal by simp_all
    have "length (sp_queue ?b) \<le> length (sp_queue (sp_set_mode Safe ?b))"
      by (rule appends_length [OF control_queue.set_mode])
    then have "control_events (sp_queue ?b) = control_events (sp_queue a) @
        (if \<not> sp_alarm a \<and> sp_ev a 6 then [(4, event_data 6 (sp_temp a))] else [])"
      using room control_events_event [of 6 4 "sp_temp a" "a\<lparr> sp_alarm := True \<rparr>"] unfolding eq by (auto split: if_splits)
    then show ?thesis
      using control_events_safe [OF room [unfolded eq] b(1)] nominal hot heater unfolding eq b by auto
  next
    case False
    then show ?thesis
      using room nominal heater control_events_switch [of False a] control_events_switch [of True a]
      by (cases "sp_heater a") (simp_all add: sp_thermal_def Let_def split: if_splits)
  qed
qed

text \<open>Housekeeping and the loss report do not count.\<close>

lemma control_events_hk: "control_events (sp_queue (sp_hk_tick a)) = control_events (sp_queue a)"
proof -
  have "control_events (sp_queue (sp_periodic sids b)) = control_events (sp_queue b)" for sids b
    by (induction sids arbitrary: b) (simp_all add: sp_hk_report_def emit_def Let_def)
  then show ?thesis
    by (simp add: sp_hk_tick_def del: sp_periodic.simps)
qed

lemma control_events_overflow: "control_events (sp_queue (sp_overflow a)) = control_events (sp_queue a)"
  by (simp add: sp_overflow_def sp_event_def emit_def event_data_def Let_def)

lemma control_events_tick:
  assumes room: "length (sp_queue (sp_tick a)) < 16" and safe: "sp_mode a = Safe \<longrightarrow> \<not> sp_heater a"
  shows "control_events (sp_queue (sp_tick a)) = control_events (sp_queue a) @
    (let t = s_temperature_dc (sp_hal a); hot = (sp_mode a = Nominal \<and> 400 \<le> sint t); on = sp_heater (sp_tick a)
     in (if hot \<and> \<not> sp_alarm a \<and> sp_ev a 6 then [(4, event_data 6 t)] else []) @
       (if on \<noteq> sp_heater a \<and> sp_ev a 5 then [(1, event_data 5 (of_bool on))] else []) @
       (if hot \<and> sp_ev a 2 then [(1, event_data 2 0)] else []))"
proof -
  let ?t = "sp_thermal (sp_sample a)"
  have "length (sp_queue ?t) \<le> length (sp_queue (sp_overflow ?t))"
    by (rule appends_length [OF control_queue.overflow])
  moreover have "length (sp_queue (sp_overflow ?t)) \<le> length (sp_queue (sp_tick a))"
    unfolding sp_tick_def by (rule appends_length [OF queue.hk_tick])
  ultimately have "length (sp_queue ?t) < 16"
    using room by linarith
  from control_events_thermal [OF this] safe show ?thesis
    unfolding sp_tick_fields(2) by (simp add: sp_tick_def control_events_hk control_events_overflow Let_def)
qed

text \<open>How many messages a cycle can add.\<close>

lemma length_emit: "length (sp_queue (snd (emit svc sub data a))) \<le> length (sp_queue a) + 1"
  by (simp add: emit_def Let_def)

lemma length_event: "length (sp_queue (snd (sp_event eid sev aux a))) \<le> length (sp_queue a) + 1"
  using length_emit [of 5 sev "event_data eid aux" a] by (simp add: sp_event_def)

lemma length_switch: "length (sp_queue (sp_switch_heater on a)) \<le> length (sp_queue a) + 1"
  using length_event [of 5 1 "of_bool on" "a\<lparr> sp_hal := hal_set_heater (of_bool on) (sp_hal a), sp_heater := on \<rparr>"]
  by (cases on) (auto simp: sp_switch_heater_def)

lemma length_set_mode: "length (sp_queue (sp_set_mode m a)) \<le> length (sp_queue a) + 2"
proof -
  let ?b = "if m = Safe then sp_switch_heater False (a\<lparr> sp_mode := m \<rparr>) else a\<lparr> sp_mode := m \<rparr>"
  have "length (sp_queue ?b) \<le> length (sp_queue a) + 1"
    using length_switch [of False "a\<lparr> sp_mode := m \<rparr>"] by (cases m) simp_all
  then show ?thesis
    using length_event [of 2 1 "mode_code m" ?b] by (simp add: sp_set_mode_def Let_def)
qed

lemma length_thermal: "length (sp_queue (sp_thermal a)) \<le> length (sp_queue a) + 3"
proof -
  let ?b = "if sp_alarm a then a else snd (sp_event 6 4 (sp_temp a) (a\<lparr> sp_alarm := True \<rparr>))"
  have "length (sp_queue ?b) \<le> length (sp_queue a) + 1"
    using length_event [of 6 4 "sp_temp a" "a\<lparr> sp_alarm := True \<rparr>"] by simp
  then have "length (sp_queue (sp_set_mode Safe ?b)) \<le> length (sp_queue a) + 3"
    using length_set_mode [of Safe ?b] by linarith
  moreover have "length (sp_queue (sp_switch_heater on a)) \<le> length (sp_queue a) + 3" for on
    using length_switch [of on a] by linarith
  ultimately show ?thesis
    by (simp add: sp_thermal_def Let_def)
qed

lemma length_tick: "length (sp_queue (sp_tick a)) \<le> length (sp_queue a) + 6"
proof -
  let ?t = "sp_thermal (sp_sample a)"
  have hk: "length (sp_queue (sp_hk_tick b)) \<le> length (sp_queue b) + 2" for b
    by (simp add: sp_hk_tick_def sp_hk_report_def emit_def Let_def)
  have "length (sp_queue (sp_overflow ?t)) \<le> length (sp_queue ?t) + 1"
    using length_event [of 4 2 "sp_drops ?t" "?t\<lparr> sp_last_drops := sp_drops ?t \<rparr>"] by (simp add: sp_overflow_def)
  then show ?thesis
    using hk [of "sp_overflow ?t"] length_thermal [of "sp_sample a"] by (simp add: sp_tick_def)
qed

section \<open>Properties\<close>

text \<open>
  C7: The events of one minor cycle that ends with room in the queue, other than the report of lost
  packets: an alarm of high severity with the temperature when NOMINAL mode meets 40.0 degC and the
  alarm is not latched; a heater event with the new state exactly when the heater line changes;
  and the change to SAFE mode after an over-temperature; in this order, each while it is enabled.
\<close>

theorem control_events_reported:
  assumes "reachable s" and "obsw_step s Tick s'" and "s_count (tmq s') < 16"
  shows "let t = hal_read_temperature (hal s); on = heater_on (s_state s');
      hot = (mode (s_state s) = OBC_MODE_NOMINAL \<and> 400 \<le> sint t);
      enabled = (\<lambda>eid. svc05_is_enabled eid s = Some PUS_TRUE)
    in control_events (drop (s_count (tmq s)) (sp_queue (obsw_abs s'))) =
      (if hot \<and> s_alarm_latched s = 0 \<and> enabled OBC_EVT_TEMP_ALARM
       then [(PUS_ST05_HIGH_SEVERITY, be16 (ucast OBC_EVT_TEMP_ALARM) @ be16 t)] else []) @
      (if on \<noteq> heater_on (s_state s) \<and> enabled OBC_EVT_HEATER_SWITCHED
       then [(PUS_ST05_INFORMATIVE, be16 (ucast OBC_EVT_HEATER_SWITCHED) @ be16 (ucast on))] else []) @
      (if hot \<and> enabled OBC_EVT_MODE_CHANGED
       then [(PUS_ST05_INFORMATIVE, be16 (ucast OBC_EVT_MODE_CHANGED) @ be16 (ucast OBC_MODE_SAFE))] else [])"
proof -
  let ?a = "obsw_abs s" and ?b = "obsw_abs s'"
  have inv: "obsw_inv s" and inv': "obsw_inv s'"
    using assms(1,2) reachable_inv reachable_step by blast+
  have b: "?b = sp_tick ?a"
    using obsw_step_refines [OF inv assms(2)] by (simp add: sp_step_def)
  have count: "length (sp_queue (obsw_abs x)) = s_count (tmq x)" for x
    by (simp add: obsw_abs_def)
  have safe: "sp_mode ?a = Safe \<longrightarrow> \<not> sp_heater ?a"
    using reachable_coherent [OF assms(1)] by (simp add: coherent_def)
  have "length (sp_queue (sp_tick ?a)) < 16"
    using assms(3) unfolding count [symmetric] b .
  note events = control_events_tick [OF this safe, folded b]
  obtain ms where ms: "sp_queue ?b = sp_queue ?a @ ms"
    using queue.tick [of ?a] unfolding b by (auto elim: appends_obtain)
  have nominal: "sp_mode ?a = Nominal \<longleftrightarrow> mode (s_state s) = 1"
    using mode_abs [OF inv] by (cases "sp_mode ?a") (simp_all add: mode_code_def)
  have heater: "heater_on (s_state s) = of_bool (sp_heater ?a)" "heater_on (s_state s') = of_bool (sp_heater ?b)"
    using heater_abs [OF inv] heater_abs [OF inv'] by simp_all
  have ev: "svc05_is_enabled eid s = Some 1 \<longleftrightarrow> sp_ev ?a (ucast eid)" for eid
    using svc05_is_enabled_abs [OF inv] by simp
  have latch: "s_alarm_latched s = 0 \<longleftrightarrow> \<not> sp_alarm ?a"
    by (simp add: alarm_abs)
  show ?thesis
    using events unfolding Let_def ms heater ev nominal latch
    by (simp add: count hal_read_temperature_def sp_hal_abs event_data_def)
qed

text \<open>A function request without reports, as an update of the abstract state.\<close>

definition silent_command :: "obc_function \<Rightarrow> spec \<Rightarrow> spec" where
  "silent_command g a = snd (perform_function g (a\<lparr> sp_accepted := sat_inc (sp_accepted a) \<rparr>))"

lemma silent_function:
  assumes "length app \<le> 3" and "function_request app = Inr g" and "g \<in> {Set_Mode m, Inject_Temp v}"
  shows "snd (sp_process (tc_encode 0 8 1 app) a) = silent_command g a"
proof -
  have "tc_verdict (tc_encode 0 8 1 app) = PUS_OK"
    using assms(1) by (intro tc_verdict_encode) simp
  then show ?thesis
    using assms by (auto simp: silent_command_def sp_process_def sp_execute_def sp_acceptance_def ack_requested_def
      sp_finish_def sp_completion_def tc_decode_encode sp_route_def sp_svc08_def Let_def split_beta)
qed

text \<open>A hot unit: NOMINAL mode was commanded and 50.0 degC injected.\<close>

lemma hot_state:
  "\<exists>s. reachable s \<and> mode (s_state s) = OBC_MODE_NOMINAL \<and> sint (hal_read_temperature (hal s)) = 500 \<and>
    s_alarm_latched s = 0 \<and> heater_on (s_state s) = 0 \<and> s_count (tmq s) < 10 \<and> sp_ev (obsw_abs s) = event_id_ok"
proof -
  let ?bs = "[Telecommand (tc_encode 0 8 1 [1, 1]), Telecommand (tc_encode 0 8 1 [3, 1, 0xF4])]"
  obtain s where s: "reachable s" "obsw_abs s = fold sp_step ?bs sp_boot"
    using booted_run [of ?bs] by blast
  let ?m = "perform_function (Set_Mode Nominal)" and ?i = "perform_function (Inject_Temp 500)"
  have f: "function_request [1, 1] = Inr (Set_Mode Nominal)" "function_request [3, 1, 0xF4] = Inr (Inject_Temp 500)"
    and v: "sint (500 :: i16) = 500"
    by code_simp+
  have abs: "obsw_abs s = silent_command (Inject_Temp 500) (silent_command (Set_Mode Nominal) sp_boot)"
    unfolding s(2) by (simp add: sp_step_def silent_function [OF _ f(1), of Nominal 0] silent_function [OF _ f(2), of Safe 500])
  have "sp_mode (obsw_abs s) = Nominal" "s_temperature_dc (sp_hal (obsw_abs s)) = 500" "\<not> sp_alarm (obsw_abs s)"
    "\<not> sp_heater (obsw_abs s)" "length (sp_queue (obsw_abs s)) < 10" "sp_ev (obsw_abs s) = event_id_ok"
    unfolding abs
    by (simp_all add: silent_command_def sp_boot_eq boot_spec_def sp_set_mode_def sp_event_def emit_def
      hal_inject_temperature_def Let_def)
  moreover have "length (sp_queue (obsw_abs s)) = s_count (tmq s)"
    by (simp add: obsw_abs_def)
  moreover have "mode (s_state s) = ucast (mode_code (sp_mode (obsw_abs s)))"
    by (rule mode_abs [OF reachable_inv [OF s(1)]])
  moreover have "heater_on (s_state s) = of_bool (sp_heater (obsw_abs s))"
    by (rule heater_abs [OF reachable_inv [OF s(1)]])
  ultimately show ?thesis
    using s(1) v unfolding alarm_abs sp_hal_abs
    by (intro exI [of _ s]) (simp add: mode_code_def hal_read_temperature_def)
qed

lemma control_events_reported_witness:
  "\<exists>s s'. obsw_step s Tick s' \<and> control_events (drop (s_count (tmq s)) (sp_queue (obsw_abs s'))) =
     [(4, [0, 6, 1, 0xF4]), (1, [0, 2, 0, 0])]"
proof -
  obtain s where s: "reachable s" "mode (s_state s) = 1" "sint (hal_read_temperature (hal s)) = 500"
      "s_alarm_latched s = 0" "heater_on (s_state s) = 0" "s_count (tmq s) < 10" "sp_ev (obsw_abs s) = event_id_ok"
    using hot_state by blast
  have inv: "obsw_inv s"
    using s(1) by (rule reachable_inv)
  obtain s' where s': "obsw_step s Tick s'"
    using obsw_step_total [OF inv] by blast
  have inv': "obsw_inv s'"
    using reachable_step [OF s(1) s'] by (rule reachable_inv)
  have b: "obsw_abs s' = sp_tick (obsw_abs s)"
    using obsw_step_refines [OF inv s'] by (simp add: sp_step_def)
  have count: "length (sp_queue (obsw_abs x)) = s_count (tmq x)" for x
    by (simp add: obsw_abs_def)
  have "s_count (tmq s') < 16"
    using length_tick [of "obsw_abs s"] s(6) unfolding b [symmetric] count by simp
  note events = control_events_reported [OF s(1) s' this]
  have t: "hal_read_temperature (hal s) = 500"
  proof -
    have "sint (500 :: i16) = 500"
      by code_simp
    then show ?thesis
      using s(3) by (metis word_eq_iff_signed)
  qed
  have "\<not> sp_heater (obsw_abs s')"
    using sp_thermal_heater [of "sp_sample (obsw_abs s)"] s(3,5) heater_abs [OF inv]
    unfolding b sp_tick_fields by (simp add: hal_read_temperature_def sp_hal_abs)
  then have "heater_on (s_state s') = 0"
    using heater_abs [OF inv'] by simp
  moreover have "svc05_is_enabled eid s = Some (of_bool (event_id_ok (ucast eid)))" for eid
    using svc05_is_enabled_abs [OF inv] unfolding s(7) .
  ultimately show ?thesis
    using events s(2,4,5) s' unfolding t
    by (intro exI [of _ s] exI [of _ s']) (simp add: event_id_ok_def be16_def)
qed

end
