(* ===== verification/Loss_Reports.thy ===== *)
theory Loss_Reports
  imports Reports
begin

text \<open>
  What becomes of lost telemetry: \<open>obc_tick\<close> of \<open>src/obc_app.c\<close> compares the loss counter of
  \<open>src/tm_queue.c\<close> with the value it has seen last, and reports the counter when they differ. A
  loss is recognised from outside, by a sequence count that advanced by more than the number of
  packets queued, and is followed through any further stimuli to the minor cycle that reports it.
\<close>

section \<open>Losses and the sequence count\<close>

text \<open>
  Every message built advances the sequence count. So unless the loss counter moves, or has
  reached its last value, the queue grows by exactly as many messages as the count advances.
\<close>

definition accounted :: "spec \<Rightarrow> spec \<Rightarrow> bool" where
  "accounted a b \<longleftrightarrow> length (sp_queue a) \<le> length (sp_queue b) \<and> unat (sp_drops a) \<le> unat (sp_drops b) \<and>
     (sp_drops b = sp_drops a \<and> sp_drops a \<noteq> 0xFFFF \<longrightarrow>
       unat (sp_seq b) mod 16384 = (unat (sp_seq a) + (length (sp_queue b) - length (sp_queue a))) mod 16384)"

lemma accounted_trans:
  assumes ab: "accounted a b" and bc: "accounted b c"
  shows "accounted a c"
proof -
  have "unat (sp_seq c) mod 16384 = (unat (sp_seq a) + (length (sp_queue c) - length (sp_queue a))) mod 16384"
    if same: "sp_drops c = sp_drops a" "sp_drops a \<noteq> 0xFFFF"
  proof -
    let ?m = "length (sp_queue b) - length (sp_queue a)" and ?n = "length (sp_queue c) - length (sp_queue b)"
    have "sp_drops b = sp_drops a"
      using ab bc same(1) by (simp add: accounted_def word_unat_eq_iff)
    then have a: "unat (sp_seq b) mod 16384 = (unat (sp_seq a) + ?m) mod 16384"
      and b: "unat (sp_seq c) mod 16384 = (unat (sp_seq b) + ?n) mod 16384"
      using ab bc same by (simp_all add: accounted_def)
    have "(unat (sp_seq b) + ?n) mod 16384 = (unat (sp_seq a) + ?m + ?n) mod 16384"
      using a by (rule mod_add_cong) (rule HOL.refl)
    moreover have "?m + ?n = length (sp_queue c) - length (sp_queue a)"
      using ab bc by (simp add: accounted_def)
    ultimately show ?thesis
      using b by (simp add: add.assoc)
  qed
  then show ?thesis
    using ab bc by (auto simp: accounted_def)
qed

lemma accounted_same:
  "sp_queue b = sp_queue a \<Longrightarrow> sp_drops b = sp_drops a \<Longrightarrow> sp_seq b = sp_seq a \<Longrightarrow> accounted a b"
  by (simp add: accounted_def)

lemma unat_seq_step: "unat ((x + 1) AND 0x3FFF) = Suc (unat x) mod 16384" for x :: u16
proof -
  have "(0x3FFF :: u16) = mask 14"
    by (rule mask_consts(5))
  then have "unat ((x + 1) AND 0x3FFF) = unat (x + 1) mod 16384"
    by (simp only: take_bit_eq_mask [symmetric] unsigned_take_bit_eq take_bit_eq_mod) (simp add: unat_mod_distrib)
  also have "\<dots> = Suc (unat x) mod 65536 mod 16384"
    by (simp add: unat_word_ariths(1))
  also have "\<dots> = Suc (unat x) mod 16384"
    by (rule mod_mod_cancel) simp
  finally show ?thesis .
qed

lemma sat_inc_fixed: "sat_inc n = n \<longleftrightarrow> n = 0xFFFF"
  using unat_sat_inc [of n] unat_u16_less [of n] by (auto simp: word_unat_eq_iff)

lemma accounted_emit: "accounted a (snd (emit svc sub data a))"
  using unat_sat_inc_le [of "sp_drops a"]
  by (simp add: accounted_def emit_def stamp_def unat_seq_step sat_inc_fixed Let_def)

lemma accounted_event: "accounted a b \<Longrightarrow> accounted a (snd (sp_event eid sev aux b))"
  by (auto simp: sp_event_def intro: accounted_trans accounted_emit)

interpretation accounting: cycle_relation accounted
  by unfold_locales
    (erule (1) accounted_trans | auto simp: sp_sample_def intro!: accounted_event intro: accounted_emit accounted_same)+

section \<open>A loss is pending until it is reported\<close>

text \<open>The report of lost telemetry, and what makes the next minor cycle send it.\<close>

definition loss_msg :: "tm_msg \<Rightarrow> bool" where
  "loss_msg m \<longleftrightarrow> m_service m = 5 \<and> m_subtype m = 2 \<and> take 2 (m_data m) = be16 4"

definition pending :: "spec \<Rightarrow> bool" where
  "pending a \<longleftrightarrow> unat (sp_last_drops a) < unat (sp_drops a)"

text \<open>
  A minor cycle that loses a packet, or that has a loss to report and does not queue the report,
  leaves a loss to report: the report itself was lost then, or something after it.
\<close>

lemma sp_tick_pending:
  assumes ev: "sp_ev a 4" and le: "unat (sp_last_drops a) \<le> unat (sp_drops a)" and few: "unat (sp_drops (sp_tick a)) < 65535"
    and lost: "sp_drops (sp_tick a) \<noteq> sp_drops a \<or>
      pending a \<and> (\<forall>m \<in> set (drop (length (sp_queue a)) (sp_queue (sp_tick a))). \<not> loss_msg m)"
  shows "pending (sp_tick a)"
proof -
  let ?t = "sp_thermal (sp_sample a)" and ?o = "sp_overflow (sp_thermal (sp_sample a))"
  have at: "appends {5} (sp_sample a) ?t" and to: "appends {5} ?t ?o"
    by (rule control_queue.thermal, rule control_queue.overflow)
  have oz: "appends {1, 3, 5, 17} ?o (sp_tick a)"
    unfolding sp_tick_def by (rule queue.hk_tick)
  have up: "unat (sp_drops a) \<le> unat (sp_drops ?t)" "unat (sp_drops ?t) \<le> unat (sp_drops ?o)"
      "unat (sp_drops ?o) \<le> unat (sp_drops (sp_tick a))"
    using at to oz by (simp_all add: appends_def)
  have l: "sp_last_drops ?t = sp_last_drops a" "sp_last_drops (sp_tick a) = sp_last_drops ?o"
    by (simp_all add: sp_thermal_def sp_set_mode_def sp_switch_heater_def sp_tick_def sp_hk_tick_fields Let_def)
  show ?thesis
  proof (cases "sp_drops ?t = sp_last_drops ?t")
    case True
    then have same: "sp_drops a = sp_last_drops a"
      using le up(1) l(1) by (simp add: word_unat_eq_iff)
    have "?o = ?t"
      using True by (simp add: sp_overflow_def)
    then have "sp_last_drops (sp_tick a) = sp_drops a"
      using l same by simp
    then show ?thesis
      using lost up same by (auto simp: pending_def word_unat_eq_iff)
  next
    case False
    let ?b = "?t\<lparr> sp_last_drops := sp_drops ?t \<rparr>"
    let ?m = "stamp 5 2 (event_data 4 (sp_drops ?t)) ?b"
    have o: "?o = snd (emit 5 2 (event_data 4 (sp_drops ?t)) ?b)"
      using False ev by (simp add: sp_overflow_def sp_event_def)
    then have lo: "sp_last_drops ?o = sp_drops ?t"
      by simp
    show ?thesis
    proof (cases "length (sp_queue ?t) < 16")
      case True
      then have "sp_drops ?t = sp_drops a"
        using at by (simp add: appends_def)
      obtain es where es: "sp_queue ?t = sp_queue a @ es"
        using at by (auto elim: appends_obtain)
      obtain hs where hs: "sp_queue (sp_tick a) = sp_queue ?o @ hs"
        using oz by (auto elim: appends_obtain)
      have "sp_queue ?o = sp_queue ?t @ [?m]"
        unfolding o using emit_room [of ?b] True by simp
      then have "?m \<in> set (drop (length (sp_queue a)) (sp_queue (sp_tick a)))"
        using es hs by simp
      moreover have "loss_msg ?m"
        by (simp add: loss_msg_def event_data_def)
      ultimately have "sp_drops (sp_tick a) \<noteq> sp_drops a"
        using lost by blast
      then show ?thesis
        using up l(2) lo \<open>sp_drops ?t = sp_drops a\<close> by (auto simp: pending_def word_unat_eq_iff)
    next
      case False
      then have "sp_drops ?o = sat_inc (sp_drops ?t)"
        unfolding o by (simp add: emit_def Let_def)
      then have "unat (sp_drops ?o) = unat (sp_drops ?t) + 1"
        using up few by (simp add: unat_sat_inc)
      then show ?thesis
        using up(3) l(2) lo by (simp add: pending_def)
    qed
  qed
qed

text \<open>A telecommand that loses a packet leaves a loss to report, and none takes one away.\<close>

lemma sp_process_pending:
  assumes "unat (sp_last_drops a) \<le> unat (sp_drops a)"
    and "sp_drops (snd (sp_process bs a)) \<noteq> sp_drops a \<or> pending a"
  shows "pending (snd (sp_process bs a))"
  using assms ground.process [of a bs] accounting.process [of a bs]
  by (auto simp: pending_def cycle_kept_def accounted_def word_unat_eq_iff)

section \<open>Runs of the program\<close>

text \<open>More packets were built from \<open>s\<close> to \<open>s'\<close> than were queued, seen from the sequence count.\<close>

definition packet_lost :: "obsw \<Rightarrow> obsw \<Rightarrow> bool" where
  "packet_lost s s' \<longleftrightarrow> unat (s_seq_count (tmgen s')) \<noteq>
     (unat (s_seq_count (tmgen s)) + (s_count (tmq s') - s_count (tmq s))) mod 16384"

text \<open>A report of lost telemetry was queued from \<open>s\<close> to \<open>s'\<close>.\<close>

definition loss_reported :: "obsw \<Rightarrow> obsw \<Rightarrow> bool" where
  "loss_reported s s' \<longleftrightarrow> list_ex loss_msg (drop (s_count (tmq s)) (sp_queue (obsw_abs s')))"

text \<open>
  Any stimuli but a restart, without such a report: minor cycles, during which the event is
  enabled, telecommands and downlinks in any order.
\<close>

inductive unreported :: "obsw \<Rightarrow> obsw \<Rightarrow> bool" where
  none: "unreported s s"
| more: "unreported s s' \<Longrightarrow> obsw_step s' x s'' \<Longrightarrow> x \<noteq> Start \<Longrightarrow>
    x = Tick \<longrightarrow> svc05_is_enabled OBC_EVT_TM_QUEUE_OVERFLOW s' = Some PUS_TRUE \<and> \<not> loss_reported s' s'' \<Longrightarrow>
    unreported s s''"

lemma abs_counts:
  "length (sp_queue (obsw_abs s)) = s_count (tmq s)" "sp_drops (obsw_abs s) = tm_queue_overflow_count (tmq s)"
  "sp_last_drops (obsw_abs s) = s_last_overflow s" "sp_seq (obsw_abs s) = s_seq_count (tmgen s)"
  by (simp_all add: obsw_abs_def tm_queue_overflow_count_def)

lemma overflow_enabled:
  "reachable s \<Longrightarrow> svc05_is_enabled OBC_EVT_TM_QUEUE_OVERFLOW s = Some PUS_TRUE \<longleftrightarrow> sp_ev (obsw_abs s) 4"
  by (simp add: svc05_is_enabled_abs [OF reachable_inv])

lemma step_drops:
  assumes "reachable s" and "obsw_step s x s'" and "x \<noteq> Start"
  shows "unat (tm_queue_overflow_count (tmq s)) \<le> unat (tm_queue_overflow_count (tmq s'))"
proof -
  have "obsw_abs s' = sp_step x (obsw_abs s)"
    using obsw_step_refines [OF reachable_inv [OF assms(1)] assms(2)] by blast
  then have "unat (sp_drops (obsw_abs s)) \<le> unat (sp_drops (obsw_abs s'))"
    using assms(3) accounting.tick [of "obsw_abs s"] accounting.process [of "obsw_abs s"]
    by (cases x) (simp_all add: sp_step_def accounted_def)
  then show ?thesis
    by (simp add: abs_counts)
qed

text \<open>A step that loses a packet moves the loss counter, unless that has reached its last value.\<close>

lemma packet_lost_counted:
  assumes "reachable s" and "obsw_step s x s'" and "x \<noteq> Start" and "packet_lost s s'"
    and "tm_queue_overflow_count (tmq s) \<noteq> 0xFFFF"
  shows "x \<noteq> Downlink" and "tm_queue_overflow_count (tmq s') \<noteq> tm_queue_overflow_count (tmq s)"
proof -
  let ?a = "obsw_abs s" and ?b = "obsw_abs s'"
  have inv: "obsw_inv s'" and b: "?b = sp_step x ?a"
    using obsw_step_refines [OF reachable_inv [OF assms(1)] assms(2)] by simp_all
  have small: "unat (sp_seq (obsw_abs u)) mod 16384 = unat (sp_seq (obsw_abs u))" if "obsw_inv u" for u
    using that by (simp add: obsw_inv_def tm_inv_def abs_counts word_less_nat_alt)
  have lost: "unat (sp_seq ?b) mod 16384 \<noteq> (unat (sp_seq ?a) + (length (sp_queue ?b) - length (sp_queue ?a))) mod 16384"
    using assms(4) unfolding small [OF inv] by (simp add: packet_lost_def abs_counts)
  then show "x \<noteq> Downlink"
    unfolding b by (auto simp: sp_step_def)
  then have "accounted ?a ?b"
    unfolding b using assms(3) accounting.tick [of ?a] accounting.process [of ?a]
    by (cases x) (simp_all add: sp_step_def)
  then show "tm_queue_overflow_count (tmq s') \<noteq> tm_queue_overflow_count (tmq s)"
    using lost assms(5) by (auto simp: accounted_def abs_counts)
qed

text \<open>The loss is pending after the step, and stays so until it is reported.\<close>

lemma step_pending:
  assumes "reachable s" and "obsw_step s x s'" and "x \<noteq> Start"
    and "x = Tick \<longrightarrow> svc05_is_enabled OBC_EVT_TM_QUEUE_OVERFLOW s = Some PUS_TRUE"
    and few: "unat (tm_queue_overflow_count (tmq s')) < 65535"
    and "packet_lost s s' \<or> pending (obsw_abs s) \<and> \<not> (x = Tick \<and> loss_reported s s')"
  shows "pending (obsw_abs s')"
proof -
  let ?a = "obsw_abs s" and ?b = "obsw_abs s'"
  have b: "?b = sp_step x ?a"
    using obsw_step_refines [OF reachable_inv [OF assms(1)] assms(2)] by blast
  have le: "unat (sp_last_drops ?a) \<le> unat (sp_drops ?a)"
    using assms(1) by (rule reachable_losses)
  have "tm_queue_overflow_count (tmq s) \<noteq> 0xFFFF"
    using few step_drops [OF assms(1-3)] by auto
  then have lost: "sp_drops ?b \<noteq> sp_drops ?a \<and> x \<noteq> Downlink \<or> pending ?a \<and> \<not> (x = Tick \<and> loss_reported s s')"
    using packet_lost_counted [OF assms(1-3)] assms(6) by (auto simp: abs_counts)
  show ?thesis
  proof (cases x)
    case Tick
    then have t: "?b = sp_tick ?a" and "sp_ev ?a 4"
      using b assms(4) overflow_enabled [OF assms(1)] by (simp_all add: sp_step_def)
    then show ?thesis
      using sp_tick_pending [of ?a] le few lost Tick unfolding t [symmetric]
      by (auto simp: loss_reported_def list_ex_iff abs_counts)
  next
    case (Telecommand bs)
    then show ?thesis
      using sp_process_pending [OF le, of bs] lost b by (auto simp: sp_step_def)
  next
    case Downlink
    then show ?thesis
      using lost b by (simp add: sp_step_def pending_def)
  qed (use assms(3) in simp)
qed

lemma unreported_reachable:
  assumes "unreported s s'" and "reachable s"
  shows "reachable s' \<and> unat (tm_queue_overflow_count (tmq s)) \<le> unat (tm_queue_overflow_count (tmq s'))"
  using assms
proof (induction rule: unreported.induct)
  case (none s)
  then show ?case by simp
next
  case (more s s' x s'')
  then show ?case
    using step_drops [of s' x s''] by (auto intro: reachable_step)
qed

lemma unreported_pending:
  assumes "unreported s s'" and "reachable s" and "pending (obsw_abs s)"
    and "unat (tm_queue_overflow_count (tmq s')) < 65535"
  shows "pending (obsw_abs s')"
  using assms
proof (induction rule: unreported.induct)
  case (none s)
  then show ?case by simp
next
  case (more s s' x s'')
  have r: "reachable s'"
    using unreported_reachable more.hyps(1) more.prems(1) by blast
  then have "pending (obsw_abs s')"
    using step_drops [OF r more.hyps(2,3)] more.IH more.prems by simp
  then show ?case
    using step_pending [OF r more.hyps(2,3)] more.hyps(4) more.prems(3) by blast
qed

section \<open>Properties\<close>

text \<open>
  C36: Lost telemetry is reported. Let any stimulus but a restart lose a packet, that is, advance the
  sequence count by more than the number of packets it queues. Then, whatever telecommands, minor
  cycles and downlinks follow, as long as no report of lost telemetry is queued: the first minor
  cycle that ends with room in the queue queues one, with the number of packets lost since the
  start, this loss among them, and takes this number as reported. The event must be enabled
  during these minor cycles, and fewer than 65535 packets lost since the start: there the
  counter stays, and later losses are never reported (overflow_saturated_silent).
\<close>

theorem lost_packets_reported:
  assumes "reachable s" and "obsw_step s x s1" and "x \<noteq> Start" and "packet_lost s s1"
    and "x = Tick \<longrightarrow> svc05_is_enabled OBC_EVT_TM_QUEUE_OVERFLOW s = Some PUS_TRUE"
    and "unreported s1 s2"
    and "obsw_step s2 Tick s3" and "svc05_is_enabled OBC_EVT_TM_QUEUE_OVERFLOW s2 = Some PUS_TRUE"
    and "s_count (tmq s3) < 16" and "unat (tm_queue_overflow_count (tmq s2)) < 65535"
  shows "(\<exists>m \<in> set (drop (s_count (tmq s2)) (sp_queue (obsw_abs s3))).
      m_service m = 5 \<and> m_subtype m = 2 \<and> m_data m = be16 4 @ be16 (tm_queue_overflow_count (tmq s2))) \<and>
    s_last_overflow s3 = tm_queue_overflow_count (tmq s2) \<and>
    unat (tm_queue_overflow_count (tmq s)) < unat (tm_queue_overflow_count (tmq s2))"
proof -
  let ?a = "obsw_abs s2"
  have r1: "reachable s1"
    using assms(1,2) by (rule reachable_step)
  note s2 = unreported_reachable [OF assms(6) r1]
  have up: "unat (tm_queue_overflow_count (tmq s)) \<le> unat (tm_queue_overflow_count (tmq s1))"
    using assms(1-3) by (rule step_drops)
  then have "tm_queue_overflow_count (tmq s) \<noteq> 0xFFFF"
    using s2 assms(10) by auto
  then have "tm_queue_overflow_count (tmq s1) \<noteq> tm_queue_overflow_count (tmq s)"
    by (rule packet_lost_counted(2) [OF assms(1-4)])
  then have less: "unat (tm_queue_overflow_count (tmq s)) < unat (tm_queue_overflow_count (tmq s2))"
    using up s2 by (auto simp: word_unat_eq_iff)
  have "pending (obsw_abs s1)"
    using step_pending [OF assms(1-3,5)] assms(4,10) s2 by simp
  then have p: "pending ?a"
    by (rule unreported_pending [OF assms(6) r1 _ assms(10)])
  have t: "obsw_abs s3 = sp_tick ?a"
    using obsw_step_refines [OF reachable_inv [OF conjunct1 [OF s2]] assms(7)] by (simp add: sp_step_def)
  have "sp_ev ?a 4" and "sp_drops ?a \<noteq> sp_last_drops ?a" and "length (sp_queue (sp_tick ?a)) < 16"
    using assms(8,9) overflow_enabled [OF conjunct1 [OF s2]] p unfolding t [symmetric] by (auto simp: pending_def abs_counts)
  then show ?thesis
    using sp_tick_overflow_report [of ?a] less unfolding t [symmetric] abs_counts event_data_def by blast
qed

text \<open>A run that loses telemetry: connection tests without acknowledgement while nobody reads.\<close>

definition unnoticed :: "spec \<Rightarrow> bool" where
  "unnoticed a \<longleftrightarrow> sp_last_drops a = 0 \<and> sp_ev a = event_id_ok \<and> sp_phase a = 0 \<and> sp_mode a = Safe"

definition sp_ping :: "spec \<Rightarrow> spec" where
  "sp_ping = sp_step (Telecommand (tc_encode 0 17 1 []))"

lemma sp_ping_eq:
  "length (sp_queue a) < 16 \<Longrightarrow> sp_ping a = snd (emit 17 2 [] (a\<lparr> sp_accepted := sat_inc (sp_accepted a) \<rparr>))"
  "\<not> length (sp_queue a) < 16 \<Longrightarrow> sp_ping a = snd (sp_event 3 2 16
     ((snd (emit 17 2 [] (a\<lparr> sp_accepted := sat_inc (sp_accepted a) \<rparr>)))\<lparr> sp_failure := 16 \<rparr>))"
proof -
  let ?bs = "tc_encode 0 17 1 []"
  have "tc_verdict ?bs = PUS_OK"
    by (rule tc_verdict_encode) simp
  moreover have "tc_decode ?bs = \<lparr> tc_ack = 0, tc_service = 17, tc_subtype = 1, tc_source = 0x0101, tc_app = [],
      tc_request = raw_request ?bs \<rparr>"
    by (simp add: tc_decode_encode)
  ultimately show "length (sp_queue a) < 16 \<Longrightarrow> sp_ping a = snd (emit 17 2 [] (a\<lparr> sp_accepted := sat_inc (sp_accepted a) \<rparr>))"
    "\<not> length (sp_queue a) < 16 \<Longrightarrow> sp_ping a = snd (sp_event 3 2 16
       ((snd (emit 17 2 [] (a\<lparr> sp_accepted := sat_inc (sp_accepted a) \<rparr>)))\<lparr> sp_failure := 16 \<rparr>))"
    by (simp_all add: sp_ping_def sp_step_def sp_process_def sp_execute_def sp_acceptance_def ack_requested_def
        sp_route_def sp_svc17_def sp_finish_def sp_completion_def emit_def Let_def)
qed

lemma pings:
  "n \<le> 15 \<Longrightarrow> unnoticed ((sp_ping ^^ n) sp_boot) \<and> length (sp_queue ((sp_ping ^^ n) sp_boot)) = Suc n \<and>
    sp_drops ((sp_ping ^^ n) sp_boot) = 0 \<and> unat (sp_seq ((sp_ping ^^ n) sp_boot)) = Suc n"
proof (induction n)
  case 0
  show ?case
    by (simp add: unnoticed_def sp_boot_eq boot_spec_def emit_def Let_def)
next
  case (Suc n)
  then show ?case
    by (simp add: sp_ping_eq unnoticed_def emit_def unat_seq_step Let_def)
qed

lemma unnoticed_pops:
  "unnoticed a \<Longrightarrow> unnoticed ((sp_step Downlink ^^ n) a) \<and> sp_queue ((sp_step Downlink ^^ n) a) = drop n (sp_queue a) \<and>
   sp_drops ((sp_step Downlink ^^ n) a) = sp_drops a"
  by (induction n) (simp_all add: unnoticed_def sp_step_def tl_drop drop_Suc)

lemma unreported_downlinks:
  "obsw_run s' xs s'' \<Longrightarrow> set xs \<subseteq> {Downlink} \<Longrightarrow> unreported s s' \<Longrightarrow> unreported s s''"
  by (induction rule: obsw_run.induct) (auto intro: unreported.more)

text \<open>
  Fifteen of them after the boot event fill the queue; the answer to the next one is lost, and so is
  the event that says so. When the queue has been read to its end, the minor cycle reports both.
\<close>

lemma lost_packets_reported_witness:
  "\<exists>s s' m. reachable s \<and> obsw_step s Tick s' \<and> m \<in> set (sp_queue (obsw_abs s')) \<and>
     m_service m = 5 \<and> m_subtype m = 2 \<and> m_data m = be16 4 @ be16 2"
proof -
  let ?ping = "Telecommand (tc_encode 0 17 1 [])"
  obtain s where s: "reachable s" "obsw_abs s = (sp_ping ^^ 15) sp_boot"
    using booted_run [of "replicate 15 ?ping"] by (auto simp: sp_ping_def fold_replicate)
  obtain s1 where s1: "obsw_step s ?ping s1" "reachable s1"
    using s(1) by (rule reachable_obtain_step)
  obtain s2 where run: "obsw_run s1 (replicate 16 Downlink) s2"
    using obsw_run_total [OF reachable_inv [OF s1(2)]] by blast
  then have s2: "reachable s2" "unreported s1 s2"
    using reachable_run [OF _ s1(2)] unreported_downlinks [OF run _ unreported.none] by auto
  obtain s3 where s3: "obsw_step s2 Tick s3"
    using s2(1) by (rule reachable_obtain_step)
  have a1: "obsw_abs s1 = sp_ping (obsw_abs s)"
    using obsw_step_refines [OF reachable_inv [OF s(1)] s1(1)] by (simp add: sp_ping_def)
  have a: "unnoticed (obsw_abs s)" "length (sp_queue (obsw_abs s)) = 16" "sp_drops (obsw_abs s) = 0" "unat (sp_seq (obsw_abs s)) = 16"
    using pings [of 15] unfolding s(2) by simp_all
  then have b: "unnoticed (obsw_abs s1)" "length (sp_queue (obsw_abs s1)) = 16" "sp_drops (obsw_abs s1) = 2" "unat (sp_seq (obsw_abs s1)) = 18"
    unfolding a1 by (simp_all add: sp_ping_eq(2) unnoticed_def sp_event_def emit_def unat_seq_step sat_inc_def
      event_id_ok_def Let_def)
  have "obsw_abs s2 = (sp_step Downlink ^^ 16) (obsw_abs s1)"
    using obsw_run_refines [OF run reachable_inv [OF s1(2)]] by (simp add: fold_replicate)
  then have c: "unnoticed (obsw_abs s2)" "sp_queue (obsw_abs s2) = []" "sp_drops (obsw_abs s2) = 2"
    using unnoticed_pops [OF b(1), of 16] b(2,3) by simp_all
  then have "\<not> sp_heater (obsw_abs s2)"
    using reachable_coherent [OF s2(1)] by (simp add: coherent_def unnoticed_def)
  then have "length (sp_queue (sp_tick (obsw_abs s2))) = 1"
    using c by (simp add: sp_tick_def sp_hk_tick_def sp_overflow_def sp_thermal_def sp_switch_heater_def
        unnoticed_def sp_event_def emit_def Let_def event_id_ok_def)
  moreover have "obsw_abs s3 = sp_tick (obsw_abs s2)"
    using obsw_step_refines [OF reachable_inv [OF s2(1)] s3] by (simp add: sp_step_def)
  ultimately have room: "s_count (tmq s3) < 16"
    by (simp flip: abs_counts(1))
  have lost: "packet_lost s s1"
    using a(2,4) b(2,4) by (simp add: packet_lost_def flip: abs_counts)
  have ev: "svc05_is_enabled OBC_EVT_TM_QUEUE_OVERFLOW s2 = Some PUS_TRUE"
    using c(1) overflow_enabled [OF s2(1)] by (simp add: unnoticed_def event_id_ok_def)
  have drops: "tm_queue_overflow_count (tmq s2) = 2"
    using c(3) by (simp add: abs_counts)
  show ?thesis
    using lost_packets_reported [OF s(1) s1(1) _ lost _ s2(2) s3 ev room] s2(1) s3 unfolding drops
    by (auto dest: in_set_dropD)
qed

end
