(* ===== verification/Posix_Link.thy ===== *)
theory Posix_Link
  imports Pus_Bytes "HOL-Library.Sublist"
begin

text \<open>
  The socket under the host runner \<open>sim/obc_sim.c\<close> and its two transfer loops \<open>read_exact\<close>
  and \<open>write_all\<close>. The system calls are not code of the repository: they are the fields of a
  record \<open>posix\<close>, functions on a world of unknown type, and \<open>link_ok\<close> is what POSIX documents
  about them. The loops may run for ever when every call is interrupted by a signal; so they
  are partial functions, and the result type keeps that apart from undefined behaviour:
  \<open>None\<close> is a call that never returns, \<open>Some Undefined\<close> one that reached undefined behaviour.
\<close>

section \<open>Calls that may not return\<close>

datatype 'a run = Undefined | Done 'a

definition run_bind :: "'a run option \<Rightarrow> ('a \<Rightarrow> 'b run option) \<Rightarrow> 'b run option" where
  "run_bind m f = do { r \<leftarrow> m; case r of Undefined \<Rightarrow> Some Undefined | Done x \<Rightarrow> f x }"

text \<open>A C-level operation of the flight code inside such a call: \<open>None\<close> there is undefined.\<close>

definition checked :: "'a option \<Rightarrow> ('a \<Rightarrow> 'b run option) \<Rightarrow> 'b run option" where
  "checked m f = (case m of None \<Rightarrow> Some Undefined | Some x \<Rightarrow> f x)"

text \<open>The conditional with undefined behaviour on the other side.\<close>

definition guarded :: "bool \<Rightarrow> 'b run option \<Rightarrow> 'b run option" where
  "guarded c m = (if c then m else Some Undefined)"

lemma run_bind_mono [partial_function_mono]:
  assumes "mono_option B" and "\<And>y. mono_option (\<lambda>f. C y f)"
  shows "mono_option (\<lambda>f. run_bind (B f) (\<lambda>y. C y f))"
proof -
  have "mono_option (\<lambda>f. case r of Undefined \<Rightarrow> Some Undefined | Done x \<Rightarrow> C x f)" for r
    using assms(2) by (cases r) (simp_all add: monotone_on_def option.leq_refl)
  then show ?thesis
    unfolding run_bind_def by (rule bind_mono [OF assms(1)])
qed

lemma checked_mono [partial_function_mono]:
  assumes "\<And>y. mono_option (\<lambda>f. C y f)"
  shows "mono_option (\<lambda>f. checked m (\<lambda>y. C y f))"
  using assms by (cases m) (simp_all add: checked_def monotone_on_def option.leq_refl)

lemma guarded_mono [partial_function_mono]:
  assumes "mono_option C"
  shows "mono_option (\<lambda>f. guarded c (C f))"
  using assms by (simp add: guarded_def monotone_on_def option.leq_refl)

lemma run_bind_simps [simp]:
  "run_bind None f = None" "run_bind (Some Undefined) f = Some Undefined"
  "run_bind (Some (Done x)) f = f x"
  by (simp_all add: run_bind_def)

lemma checked_simps [simp]: "checked None f = Some Undefined" "checked (Some x) f = f x"
  by (simp_all add: checked_def)

lemma guarded_simps [simp]: "guarded True m = m" "guarded False m = Some Undefined"
  by (simp_all add: guarded_def)

text \<open>
  \<open>safe m P\<close>: if the call returns, then without undefined behaviour and with a result that
  satisfies \<open>P\<close>; \<open>returns m\<close>: it returns.
\<close>

definition safe :: "'a run option \<Rightarrow> ('a \<Rightarrow> bool) \<Rightarrow> bool" where
  "safe m P \<longleftrightarrow> (\<forall>r. m = Some r \<longrightarrow> (\<exists>x. r = Done x \<and> P x))"

definition returns :: "'a run option \<Rightarrow> bool" where
  "returns m \<longleftrightarrow> m \<noteq> None"

named_theorems safe_rules "how a safe call is put together"

lemma run_bind_Done:
  "run_bind m f = Some (Done y) \<longleftrightarrow> (\<exists>x. m = Some (Done x) \<and> f x = Some (Done y))"
proof (cases m)
  case (Some r)
  then show ?thesis by (cases r) auto
qed simp

lemma checked_Done: "checked m f = Some (Done y) \<longleftrightarrow> (\<exists>x. m = Some x \<and> f x = Some (Done y))"
  by (cases m) simp_all

lemmas Done_rules = run_bind_Done checked_Done

lemma safe_Done [simp]: "safe (Some (Done x)) P \<longleftrightarrow> P x"
  by (simp add: safe_def)

lemma safe_bind [safe_rules]:
  "safe m P \<Longrightarrow> (\<And>x. P x \<Longrightarrow> safe (f x) Q) \<Longrightarrow> safe (run_bind m f) Q"
  by (cases m rule: option.exhaust [case_names None Some]; simp add: safe_def) auto

lemma safe_mono: "safe m P \<Longrightarrow> (\<And>x. P x \<Longrightarrow> Q x) \<Longrightarrow> safe m Q"
  by (auto simp: safe_def)

lemma safe_not_undefined: "safe m P \<Longrightarrow> m \<noteq> Some Undefined"
  by (auto simp: safe_def)

lemma returns_bind:
  "returns m \<Longrightarrow> (\<And>x. m = Some (Done x) \<Longrightarrow> returns (f x)) \<Longrightarrow> returns (run_bind m f)"
  by (cases m rule: option.exhaust [case_names None Some]) (auto simp: returns_def run_bind_def split: run.splits)

lemma returns_Some [simp]: "returns (Some r)"
  by (simp add: returns_def)

lemma returns_safe_Done:
  assumes "returns m" and "safe m P"
  obtains x where "m = Some (Done x)" and "P x"
  using assms by (auto simp: returns_def safe_def)

section \<open>The system calls\<close>

text \<open>
  A call returns a value or fails with an error number. \<open>recv\<close> returns the octets it put into
  the buffer, none at the end of the stream; \<open>send\<close> and \<open>select\<close> return a count.
\<close>

datatype errno = EINTR | Errno nat

datatype 'a sys = Ret 'a | Fail errno

record 'w posix =
  recv_call :: "int \<Rightarrow> nat \<Rightarrow> 'w \<Rightarrow> u8 list sys \<times> 'w"
  send_call :: "int \<Rightarrow> u8 list \<Rightarrow> 'w \<Rightarrow> nat sys \<times> 'w"
  select_call :: "int \<Rightarrow> u32 \<times> u32 \<Rightarrow> 'w \<Rightarrow> nat sys \<times> 'w"
  fd_setsize :: int

text \<open>
  The documented contract, over two history functions of the world: \<open>rx w\<close> are the octets
  received so far on the descriptor, \<open>tx w\<close> those it accepted for sending.
\<close>

definition recv_ok :: "'w posix \<Rightarrow> int \<Rightarrow> ('w \<Rightarrow> u8 list) \<Rightarrow> ('w \<Rightarrow> u8 list) \<Rightarrow> bool" where
  "recv_ok net fd rx tx \<longleftrightarrow>
     (\<forall>n w. case recv_call net fd n w of
        (Ret bs, w') \<Rightarrow> length bs \<le> n \<and> rx w' = rx w @ bs \<and> tx w' = tx w
      | (Fail _, w') \<Rightarrow> rx w' = rx w \<and> tx w' = tx w)"

definition send_ok :: "'w posix \<Rightarrow> int \<Rightarrow> ('w \<Rightarrow> u8 list) \<Rightarrow> ('w \<Rightarrow> u8 list) \<Rightarrow> bool" where
  "send_ok net fd rx tx \<longleftrightarrow>
     (\<forall>bs w. case send_call net fd bs w of
        (Ret k, w') \<Rightarrow> k \<le> length bs \<and> tx w' = tx w @ take k bs \<and> rx w' = rx w
      | (Fail _, w') \<Rightarrow> tx w' = tx w \<and> rx w' = rx w)"

definition select_ok :: "'w posix \<Rightarrow> int \<Rightarrow> ('w \<Rightarrow> u8 list) \<Rightarrow> ('w \<Rightarrow> u8 list) \<Rightarrow> bool" where
  "select_ok net fd rx tx \<longleftrightarrow>
     (\<forall>t w. rx (snd (select_call net (fd + 1) t w)) = rx w \<and> tx (snd (select_call net (fd + 1) t w)) = tx w) \<and>
     0 \<le> fd \<and> fd < fd_setsize net"

definition link_ok :: "'w posix \<Rightarrow> int \<Rightarrow> ('w \<Rightarrow> u8 list) \<Rightarrow> ('w \<Rightarrow> u8 list) \<Rightarrow> bool" where
  "link_ok net fd rx tx \<longleftrightarrow> recv_ok net fd rx tx \<and> send_ok net fd rx tx \<and> select_ok net fd rx tx"

text \<open>The peer takes whatever is sent.\<close>

definition never_refuses :: "'w posix \<Rightarrow> int \<Rightarrow> bool" where
  "never_refuses net fd \<longleftrightarrow>
     (\<forall>bs w. bs \<noteq> [] \<longrightarrow> (case fst (send_call net fd bs w) of Ret k \<Rightarrow> 0 < k | Fail e \<Rightarrow> e = EINTR))"

text \<open>No call is interrupted by signals without end.\<close>

definition interrupts_end :: "'w posix \<Rightarrow> int \<Rightarrow> bool" where
  "interrupts_end net fd \<longleftrightarrow>
     wf {(w', w). (\<exists>n. recv_call net fd n w = (Fail EINTR, w')) \<or>
                  (\<exists>bs. send_call net fd bs w = (Fail EINTR, w'))}"

section \<open>The transfer loops\<close>

text \<open>The octets \<open>recv\<close> writes at \<open>&buf[off]\<close>, and those \<open>send\<close> reads there.\<close>

definition store_octets :: "mem \<Rightarrow> nat \<Rightarrow> u8 list \<Rightarrow> mem option" where
  "store_octets buf off bs =
     (if off + length bs \<le> length buf then Some (overwrite buf off (octets bs)) else None)"

definition load_octets :: "mem \<Rightarrow> nat \<Rightarrow> nat \<Rightarrow> u8 list option" where
  "load_octets buf off n =
     (let cells = take n (drop off buf)
      in if off + n \<le> length buf \<and> None \<notin> set cells then Some (map the cells) else None)"

text \<open>The buffer argument of \<open>read_exact\<close> is \<open>&buf[off]\<close>; the return code is 1, 0 or -1.\<close>

partial_function (option) read_loop ::
    "'w posix \<Rightarrow> int \<Rightarrow> nat \<Rightarrow> nat \<Rightarrow> nat \<Rightarrow> mem \<Rightarrow> 'w \<Rightarrow> (int \<times> mem \<times> 'w) run option" where
  "read_loop net fd off n got buf w =
     (if got < n then
        (case recv_call net fd (n - got) w of
           (Ret bs, w) \<Rightarrow>
             if bs = [] then Some (Done (0, buf, w))
             else checked (store_octets buf (off + got) bs)
               (\<lambda>buf. read_loop net fd off n (got + length bs) buf w)
         | (Fail e, w) \<Rightarrow>
             if e = EINTR then read_loop net fd off n got buf w
             else Some (Done (-1, buf, w)))
      else Some (Done (1, buf, w)))"

definition read_exact ::
    "'w posix \<Rightarrow> int \<Rightarrow> mem \<Rightarrow> nat \<Rightarrow> nat \<Rightarrow> 'w \<Rightarrow> (int \<times> mem \<times> 'w) run option" where
  "read_exact net fd buf off n w = read_loop net fd off n 0 buf w"

partial_function (option) write_loop ::
    "'w posix \<Rightarrow> int \<Rightarrow> mem \<Rightarrow> nat \<Rightarrow> nat \<Rightarrow> 'w \<Rightarrow> (int \<times> 'w) run option" where
  "write_loop net fd buf n sent w =
     (if sent < n then
        checked (load_octets buf sent (n - sent)) (\<lambda>bs.
          (case send_call net fd bs w of
             (Ret k, w) \<Rightarrow>
               if k = 0 then Some (Done (-1, w)) else write_loop net fd buf n (sent + k) w
           | (Fail e, w) \<Rightarrow>
               if e = EINTR then write_loop net fd buf n sent w else Some (Done (-1, w))))
      else Some (Done (1, w)))"

definition write_all :: "'w posix \<Rightarrow> int \<Rightarrow> mem \<Rightarrow> nat \<Rightarrow> 'w \<Rightarrow> (int \<times> 'w) run option" where
  "write_all net fd buf n w = write_loop net fd buf n 0 w"

section \<open>Accesses\<close>

lemma load_octets_prefix:
  assumes "off + n \<le> length bs"
  shows "load_octets (octets bs @ rest) off n = Some (take n (drop off bs))"
proof -
  have "take n (drop off (octets bs @ rest)) = octets (take n (drop off bs))"
    using assms by (simp add: octets_take octets_drop)
  then show ?thesis
    using assms by (auto simp: load_octets_def octets_def)
qed

lemma length_store: "store_octets buf off bs = Some buf' \<Longrightarrow> length buf' = length buf"
  by (auto simp: store_octets_def split: if_splits)

section \<open>What the loops transfer\<close>

lemma recv_okD:
  assumes "recv_ok net fd rx tx" and "recv_call net fd n w = (r, w')"
  shows "tx w' = tx w" and "r = Fail e \<Longrightarrow> rx w' = rx w"
    and "r = Ret bs \<Longrightarrow> length bs \<le> n \<and> rx w' = rx w @ bs"
proof -
  have "case recv_call net fd n w of
        (Ret bs, w') \<Rightarrow> length bs \<le> n \<and> rx w' = rx w @ bs \<and> tx w' = tx w
      | (Fail _, w') \<Rightarrow> rx w' = rx w \<and> tx w' = tx w"
    using assms(1) by (simp add: recv_ok_def)
  then show "tx w' = tx w" and "r = Fail e \<Longrightarrow> rx w' = rx w"
    and "r = Ret bs \<Longrightarrow> length bs \<le> n \<and> rx w' = rx w @ bs"
    using assms(2) by (auto split: sys.splits)
qed

lemma send_okD:
  assumes "send_ok net fd rx tx" and "send_call net fd bs w = (r, w')"
  shows "rx w' = rx w" and "r = Fail e \<Longrightarrow> tx w' = tx w"
    and "r = Ret k \<Longrightarrow> k \<le> length bs \<and> tx w' = tx w @ take k bs"
proof -
  have "case send_call net fd bs w of
        (Ret k, w') \<Rightarrow> k \<le> length bs \<and> tx w' = tx w @ take k bs \<and> rx w' = rx w
      | (Fail _, w') \<Rightarrow> tx w' = tx w \<and> rx w' = rx w"
    using assms(1) by (simp add: send_ok_def)
  then show "rx w' = rx w" and "r = Fail e \<Longrightarrow> tx w' = tx w"
    and "r = Ret k \<Longrightarrow> k \<le> length bs \<and> tx w' = tx w @ take k bs"
    using assms(2) by (auto split: sys.splits)
qed

text \<open>
  The result of reading: what was received is in the buffer from the offset on, it is all that
  was asked for when the code is 1 and less than that otherwise.
\<close>

definition read_post ::
    "('w \<Rightarrow> u8 list) \<Rightarrow> ('w \<Rightarrow> u8 list) \<Rightarrow> nat \<Rightarrow> nat \<Rightarrow> mem \<Rightarrow> 'w \<Rightarrow> int \<times> mem \<times> 'w \<Rightarrow> bool" where
  "read_post rx tx off n buf w x = (case x of (rc, buf', w') \<Rightarrow>
     tx w' = tx w \<and> rc \<in> {1, 0, -1} \<and>
     (\<exists>c. rx w' = rx w @ c \<and> buf' = overwrite buf off (octets c) \<and> length c \<le> n \<and>
       (rc = 1 \<longleftrightarrow> length c = n)))"

lemma read_loop_body:
  assumes link: "recv_ok net fd rx tx" and "got \<le> n" and "off + n \<le> length buf"
    and rec: "\<And>got buf w r. got \<le> n \<Longrightarrow> off + n \<le> length buf \<Longrightarrow> f got buf w = Some r \<Longrightarrow>
      \<exists>x. r = Done x \<and> read_post rx tx (off + got) (n - got) buf w x"
    and body: "(if got < n then
        (case recv_call net fd (n - got) w of
           (Ret bs, w) \<Rightarrow>
             if bs = [] then Some (Done (0, buf, w))
             else checked (store_octets buf (off + got) bs) (\<lambda>buf. f (got + length bs) buf w)
         | (Fail e, w) \<Rightarrow> if e = EINTR then f got buf w else Some (Done (-1, buf, w)))
      else Some (Done (1, buf, w))) = Some r"
  shows "\<exists>x. r = Done x \<and> read_post rx tx (off + got) (n - got) buf w x"
proof (cases "got < n")
  case False
  then show ?thesis
    using body assms(2) by (auto simp: read_post_def)
next
  case more: True
  obtain ans w' where call: "recv_call net fd (n - got) w = (ans, w')"
    by fastforce
  note io = recv_okD [OF link call]
  show ?thesis
  proof (cases ans)
    case (Fail e)
    then consider "e = EINTR" "f got buf w' = Some r" | "r = Done (-1, buf, w')"
      using body call more by (auto split: if_splits)
    then show ?thesis
    proof cases
      case 1
      then show ?thesis
        using rec [OF assms(2,3) 1(2)] io(1,2) Fail by (auto simp: read_post_def)
    next
      case 2
      then show ?thesis
        using io(1,2) Fail more by (auto simp: read_post_def)
    qed
  next
    case (Ret bs)
    show ?thesis
    proof (cases "bs = []")
      case True
      then show ?thesis
        using body call more Ret io by (auto simp: read_post_def)
    next
      case False
      let ?b = "overwrite buf (off + got) (octets bs)"
      have len: "got + length bs \<le> n" "length ?b = length buf"
        using io(3) [OF Ret] more assms(3) by auto
      then have "f (got + length bs) ?b w' = Some r"
        using body call more Ret False assms(3) by (simp add: store_octets_def)
      from rec [OF len(1) _ this] obtain rc c w'' where r: "r = Done (rc, overwrite ?b (off + (got + length bs)) (octets c), w'')"
          "tx w'' = tx w'" "rc \<in> {1, 0, -1}" "rx w'' = rx w' @ c" "length c \<le> n - (got + length bs)"
          "rc = 1 \<longleftrightarrow> length c = n - (got + length bs)"
        using assms(3) len(2) by (auto simp: read_post_def)
      moreover have "overwrite ?b (off + (got + length bs)) (octets c) = overwrite buf (off + got) (octets (bs @ c))"
        using len assms(3) by (subst overwrite_overwrite) (simp_all add: octets_append)
      ultimately show ?thesis
        using io(1) io(3) [OF Ret] len(1) unfolding read_post_def
        by (intro exI [of _ "(rc, overwrite ?b (off + (got + length bs)) (octets c), w'')"])
          (auto intro!: exI [of _ "bs @ c"])
    qed
  qed
qed

lemma read_loop_safe:
  assumes "recv_ok net fd rx tx" and "got \<le> n" and "off + n \<le> length buf"
  shows "safe (read_loop net fd off n got buf w) (read_post rx tx (off + got) (n - got) buf w)"
proof -
  let ?P = "\<lambda>net fd off n got buf w r. recv_ok net fd rx tx \<longrightarrow> got \<le> n \<longrightarrow> off + n \<le> length buf \<longrightarrow>
    (\<exists>x. r = Done x \<and> read_post rx tx (off + got) (n - got) buf w x)"
  have "?P net fd off n got buf w r" if "read_loop net fd off n got buf w = Some r" for r
  proof (rule read_loop.raw_induct [where P = ?P, OF _ that], intro impI)
    fix f net fd off n got buf w r
    assume rec: "\<And>net fd off n got buf w r. f net fd off n got buf w = Some r \<Longrightarrow> ?P net fd off n got buf w r"
      and body: "(if got < n then
          (case recv_call net fd (n - got) w of
             (Ret bs, w) \<Rightarrow>
               if bs = [] then Some (Done (0, buf, w))
               else checked (store_octets buf (off + got) bs) (\<lambda>buf. f net fd off n (got + length bs) buf w)
           | (Fail e, w) \<Rightarrow>
               if e = EINTR then f net fd off n got buf w else Some (Done (-1, buf, w)))
        else Some (Done (1, buf, w))) = Some r"
      and "recv_ok net fd rx tx" "got \<le> n" "off + n \<le> length buf"
    then show "\<exists>x. r = Done x \<and> read_post rx tx (off + got) (n - got) buf w x"
      by (intro read_loop_body [where f = "f net fd off n", OF _ _ _ _ body]) blast+
  qed
  then show ?thesis
    using assms by (auto simp: safe_def)
qed

text \<open>
  The result of writing \<open>bs\<close>: a prefix was accepted for sending, all of it when the code is 1.
\<close>

definition write_post ::
    "('w \<Rightarrow> u8 list) \<Rightarrow> ('w \<Rightarrow> u8 list) \<Rightarrow> u8 list \<Rightarrow> 'w \<Rightarrow> int \<times> 'w \<Rightarrow> bool" where
  "write_post rx tx bs w x = (case x of (rc, w') \<Rightarrow>
     rx w' = rx w \<and> rc \<in> {1, -1} \<and>
     (\<exists>lost. tx w' @ lost = tx w @ bs \<and> (rc = 1 \<longleftrightarrow> lost = [])))"

lemma write_loop_body:
  assumes link: "send_ok net fd rx tx" and "sent \<le> length bs"
    and rec: "\<And>sent w r. sent \<le> length bs \<Longrightarrow> f sent w = Some r \<Longrightarrow>
      \<exists>x. r = Done x \<and> write_post rx tx (drop sent bs) w x"
    and body: "(if sent < length bs then
        checked (load_octets (octets bs @ rest) sent (length bs - sent)) (\<lambda>out.
          (case send_call net fd out w of
             (Ret k, w) \<Rightarrow> if k = 0 then Some (Done (-1, w)) else f (sent + k) w
           | (Fail e, w) \<Rightarrow> if e = EINTR then f sent w else Some (Done (-1, w))))
      else Some (Done (1, w))) = Some r"
  shows "\<exists>x. r = Done x \<and> write_post rx tx (drop sent bs) w x"
proof (cases "sent < length bs")
  case False
  then show ?thesis
    using body by (auto simp: write_post_def)
next
  case more: True
  obtain ans w' where call: "send_call net fd (drop sent bs) w = (ans, w')"
    by fastforce
  note io = send_okD [OF link call]
  have load: "load_octets (octets bs @ rest) sent (length bs - sent) = Some (drop sent bs)"
    using load_octets_prefix [of sent "length bs - sent" bs rest] more by simp
  show ?thesis
  proof (cases ans)
    case (Fail e)
    then have "(if e = EINTR then f sent w' else Some (Done (-1, w'))) = Some r"
      using body call more by (simp add: load)
    then consider "f sent w' = Some r" | "r = Done (-1, w')"
      by (metis option.inject)
    then show ?thesis
    proof cases
      case 1
      then show ?thesis
        using rec [OF assms(2) 1] io(1,2) Fail by (auto simp: write_post_def)
    next
      case 2
      then show ?thesis
        using io(1,2) Fail more by (auto simp: write_post_def)
    qed
  next
    case (Ret k)
    show ?thesis
    proof (cases "k = 0")
      case True
      then show ?thesis
        using body call more load Ret io by (auto simp: write_post_def)
    next
      case False
      then have "f (sent + k) w' = Some r"
        using body call more load Ret by simp
      moreover have "sent + k \<le> length bs"
        using io(3) [OF Ret] more by auto
      ultimately obtain x where "r = Done x" "write_post rx tx (drop (sent + k) bs) w' x"
        using rec by blast
      moreover have "drop sent bs = take k (drop sent bs) @ drop (sent + k) bs"
        by (metis add.commute append_take_drop_id drop_drop)
      ultimately show ?thesis
        using io(1) io(3) [OF Ret] by (auto simp: write_post_def)
    qed
  qed
qed

lemma write_loop_safe:
  assumes "send_ok net fd rx tx" and "sent \<le> length bs"
  shows "safe (write_loop net fd (octets bs @ rest) (length bs) sent w) (write_post rx tx (drop sent bs) w)"
proof -
  let ?P = "\<lambda>net fd buf n sent w r. send_ok net fd rx tx \<longrightarrow> sent \<le> n \<longrightarrow>
    (\<forall>bs rest. buf = octets bs @ rest \<longrightarrow> n = length bs \<longrightarrow>
      (\<exists>x. r = Done x \<and> write_post rx tx (drop sent bs) w x))"
  have "?P net fd (octets bs @ rest) (length bs) sent w r"
    if "write_loop net fd (octets bs @ rest) (length bs) sent w = Some r" for r
  proof (rule write_loop.raw_induct [where P = ?P, OF _ that], intro impI allI)
    fix f net fd buf n sent w r bs rest
    assume rec: "\<And>net fd buf n sent w r. f net fd buf n sent w = Some r \<Longrightarrow> ?P net fd buf n sent w r"
      and body: "(if sent < n then
          checked (load_octets buf sent (n - sent)) (\<lambda>out.
            (case send_call net fd out w of
               (Ret k, w) \<Rightarrow> if k = 0 then Some (Done (-1, w)) else f net fd buf n (sent + k) w
             | (Fail e, w) \<Rightarrow> if e = EINTR then f net fd buf n sent w else Some (Done (-1, w))))
        else Some (Done (1, w))) = Some r"
      and "send_ok net fd rx tx" "sent \<le> n" and buf: "buf = octets bs @ rest" "n = length bs"
    then show "\<exists>x. r = Done x \<and> write_post rx tx (drop sent bs) w x"
      by (intro write_loop_body [where f = "f net fd (octets bs @ rest) (length bs)", OF _ _ _ body [unfolded buf]])
        (auto simp: buf)
  qed
  then show ?thesis
    using assms by (auto simp: safe_def)
qed

lemma read_exact_safe:
  "recv_ok net fd rx tx \<Longrightarrow> off + n \<le> length buf \<Longrightarrow>
   safe (read_exact net fd buf off n w) (read_post rx tx off n buf w)"
  using read_loop_safe [of net fd rx tx 0 n off buf w] by (simp add: read_exact_def)

lemma write_all_safe:
  "send_ok net fd rx tx \<Longrightarrow>
   safe (write_all net fd (octets bs @ rest) (length bs) w) (write_post rx tx bs w)"
  using write_loop_safe [of net fd rx tx 0 bs rest w] by (simp add: write_all_def)

text \<open>To a peer that takes everything, everything is written.\<close>

lemma load_octets_length: "load_octets buf off n = Some bs \<Longrightarrow> length bs = n"
  by (auto simp: load_octets_def Let_def split: if_splits)

lemma write_loop_accepted:
  assumes "never_refuses net fd" and "write_loop net fd buf n sent w = Some (Done (rc, w'))"
  shows "rc = 1"
proof -
  let ?P = "\<lambda>net fd (buf :: mem) (n :: nat) (sent :: nat) (w :: 'a) r.
    never_refuses net fd \<longrightarrow> (\<forall>rc w'. r = Done (rc, w') \<longrightarrow> rc = 1)"
  have "?P net fd buf n sent w (Done (rc, w'))"
  proof (rule write_loop.raw_induct [where P = ?P, OF _ assms(2)], intro impI allI)
    fix f net fd buf n sent and w :: 'a and r rc w'
    assume rec: "\<And>net fd buf n sent w r. f net fd buf n sent w = Some r \<Longrightarrow> ?P net fd buf n sent w r"
      and body: "(if sent < n then
        checked (load_octets buf sent (n - sent)) (\<lambda>bs.
          (case send_call net fd bs w of
             (Ret k, w) \<Rightarrow> if k = 0 then Some (Done (-1, w)) else f net fd buf n (sent + k) w
           | (Fail e, w) \<Rightarrow>
               if e = EINTR then f net fd buf n sent w else Some (Done (-1, w))))
      else Some (Done (1, w))) = Some r"
      and net: "never_refuses net fd" and r: "r = Done (rc, w')"
    show "rc = 1"
    proof (cases "sent < n \<and> load_octets buf sent (n - sent) \<noteq> None")
      case False
      then show ?thesis
        using body r by (auto split: if_splits)
    next
      case True
      then obtain bs where bs: "load_octets buf sent (n - sent) = Some bs"
        by blast
      obtain x w1 where s: "send_call net fd bs w = (x, w1)"
        by fastforce
      have "bs \<noteq> []"
        using load_octets_length [OF bs] True by auto
      then have "case x of Ret k \<Rightarrow> 0 < k | Fail e \<Rightarrow> e = EINTR"
        using net s unfolding never_refuses_def by (metis fst_conv)
      then obtain k where "f net fd buf n k w1 = Some r"
        using body True bs s by (cases x) auto
      from rec [OF this] show ?thesis
        using net r by blast
    qed
  qed
  then show ?thesis
    using assms(1) by simp
qed

section \<open>When the loops return\<close>

text \<open>A read or write returns unless signals interrupt it without end.\<close>

lemma read_loop_returns:
  assumes link: "recv_ok net fd rx tx" and ends: "interrupts_end net fd"
  shows "returns (read_loop net fd off n got buf w)"
proof (induction "n - got" arbitrary: got buf w rule: less_induct)
  case less
  have wf: "wf {(w', w). \<exists>n. recv_call net fd n w = (Fail EINTR, w')}"
    using ends unfolding interrupts_end_def by (rule wf_subset) auto
  show ?case
  proof (induction w rule: wf_induct_rule [OF wf])
    case (1 w)
    show ?case
    proof (cases "got < n")
      case False
      then show ?thesis
        by (simp add: read_loop.simps)
    next
      case True
      obtain ans w' where call: "recv_call net fd (n - got) w = (ans, w')"
        by fastforce
      show ?thesis
      proof (cases ans)
        case (Fail e)
        then show ?thesis
          using True call 1 by (subst read_loop.simps) auto
      next
        case (Ret bs)
        then have "returns (read_loop net fd off n (got + length bs) buf' w')" if "bs \<noteq> []" for buf'
          using True that by (intro less) (simp add: diff_less_mono2)
        then show ?thesis
          using True call Ret by (subst read_loop.simps) (auto simp: checked_def split: option.split)
      qed
    qed
  qed
qed

lemma write_loop_returns:
  assumes ends: "interrupts_end net fd"
  shows "returns (write_loop net fd buf n sent w)"
proof (induction "n - sent" arbitrary: sent w rule: less_induct)
  case less
  have wf: "wf {(w', w). \<exists>bs. send_call net fd bs w = (Fail EINTR, w')}"
    using ends unfolding interrupts_end_def by (rule wf_subset) auto
  show ?case
  proof (induction w rule: wf_induct_rule [OF wf])
    case (1 w)
    show ?case
    proof (cases "sent < n \<and> load_octets buf sent (n - sent) \<noteq> None")
      case False
      then show ?thesis
        by (auto simp: write_loop.simps checked_def)
    next
      case True
      then obtain bs where load: "load_octets buf sent (n - sent) = Some bs" and "sent < n"
        by blast
      obtain ans w' where call: "send_call net fd bs w = (ans, w')"
        by fastforce
      show ?thesis
      proof (cases ans)
        case (Fail e)
        then show ?thesis
          using \<open>sent < n\<close> load call 1 by (subst write_loop.simps) auto
      next
        case (Ret k)
        then have "returns (write_loop net fd buf n (sent + k) w')" if "k \<noteq> 0"
          using \<open>sent < n\<close> that by (intro less) simp
        then show ?thesis
          using \<open>sent < n\<close> load call Ret by (subst write_loop.simps) auto
      qed
    qed
  qed
qed

lemma read_exact_returns:
  "recv_ok net fd rx tx \<Longrightarrow> interrupts_end net fd \<Longrightarrow> returns (read_exact net fd buf off n w)"
  unfolding read_exact_def by (rule read_loop_returns)

lemma write_all_returns: "interrupts_end net fd \<Longrightarrow> returns (write_all net fd buf n w)"
  unfolding write_all_def by (rule write_loop_returns)

section \<open>What the calls can do to the world\<close>

text \<open>A relation on worlds that every transfer call keeps is kept by the loops.\<close>

definition call_closed :: "'w posix \<Rightarrow> int \<Rightarrow> ('w \<Rightarrow> 'w \<Rightarrow> bool) \<Rightarrow> bool" where
  "call_closed net fd R \<longleftrightarrow> reflp R \<and> transp R \<and>
     (\<forall>n w. R w (snd (recv_call net fd n w))) \<and> (\<forall>bs w. R w (snd (send_call net fd bs w)))"

lemma call_closedD:
  assumes "call_closed net fd R"
  shows "R w w" and "R u v \<Longrightarrow> R v w \<Longrightarrow> R u w"
    and "recv_call net fd n w = (r, w') \<Longrightarrow> R w w'" and "send_call net fd bs w = (r', w') \<Longrightarrow> R w w'"
  using assms unfolding call_closed_def by (metis reflpD transpE snd_conv)+

lemma read_loop_keeps:
  assumes "call_closed net fd R" and "read_loop net fd off n got buf w = Some (Done (rc, buf', w'))"
  shows "R w w'"
proof -
  let ?P = "\<lambda>net fd (off :: nat) (n :: nat) (got :: nat) (buf :: mem) w r. call_closed net fd R \<longrightarrow>
    (\<forall>rc (buf' :: mem) w'. r = Done (rc :: int, buf', w') \<longrightarrow> R w w')"
  have "?P net fd off n got buf w r" if "read_loop net fd off n got buf w = Some r" for r
  proof (rule read_loop.raw_induct [where P = ?P, OF _ that], intro impI allI)
    fix f net fd off n got buf w r rc buf' w'
    assume rec: "\<And>net fd off n got buf w r. f net fd off n got buf w = Some r \<Longrightarrow> ?P net fd off n got buf w r"
      and body: "(if got < n then
          (case recv_call net fd (n - got) w of
             (Ret bs, w) \<Rightarrow>
               if bs = [] then Some (Done (0, buf, w))
               else checked (store_octets buf (off + got) bs) (\<lambda>buf. f net fd off n (got + length bs) buf w)
           | (Fail e, w) \<Rightarrow>
               if e = EINTR then f net fd off n got buf w else Some (Done (-1, buf, w)))
        else Some (Done (1, buf, w))) = Some r"
      and closed: "call_closed net fd R" and r: "r = Done (rc, buf', w')"
    obtain ans w1 where call: "recv_call net fd (n - got) w = (ans, w1)"
      by fastforce
    consider "w' = w" | "w' = w1" | got buf where "f net fd off n got buf w1 = Some r"
      using body r call by (auto simp: checked_def split: if_splits sys.splits option.splits)
    then show "R w w'"
    proof cases
      case 3
      then have "R w1 w'"
        using rec closed r by blast
      then show ?thesis
        using call_closedD(2,3) [OF closed] call by blast
    qed (use call_closedD(1,3) [OF closed] call in blast)+
  qed
  then show ?thesis
    using assms by simp
qed

lemma write_loop_keeps:
  assumes "call_closed net fd R" and "write_loop net fd buf n sent w = Some (Done (rc, w'))"
  shows "R w w'"
proof -
  let ?P = "\<lambda>net fd (buf :: mem) (n :: nat) (sent :: nat) w r. call_closed net fd R \<longrightarrow>
    (\<forall>rc w'. r = Done (rc :: int, w') \<longrightarrow> R w w')"
  have "?P net fd buf n sent w r" if "write_loop net fd buf n sent w = Some r" for r
  proof (rule write_loop.raw_induct [where P = ?P, OF _ that], intro impI allI)
    fix f net fd buf n sent w r rc w'
    assume rec: "\<And>net fd buf n sent w r. f net fd buf n sent w = Some r \<Longrightarrow> ?P net fd buf n sent w r"
      and body: "(if sent < n then
          checked (load_octets buf sent (n - sent)) (\<lambda>bs.
            (case send_call net fd bs w of
               (Ret k, w) \<Rightarrow> if k = 0 then Some (Done (-1, w)) else f net fd buf n (sent + k) w
             | (Fail e, w) \<Rightarrow> if e = EINTR then f net fd buf n sent w else Some (Done (-1, w))))
        else Some (Done (1, w))) = Some r"
      and closed: "call_closed net fd R" and r: "r = Done (rc, w')"
    consider "w' = w" | bs w1 ans where "send_call net fd bs w = (ans, w1)" "w' = w1"
      | bs w1 ans sent where "send_call net fd bs w = (ans, w1)" "f net fd buf n sent w1 = Some r"
      using body r by (auto simp: checked_def split: if_splits sys.splits option.splits prod.splits)
    then show "R w w'"
    proof cases
      case (3 bs w1 ans sent)
      then have "R w1 w'"
        using rec closed r by blast
      then show ?thesis
        using call_closedD(2,4) [OF closed] 3(1) by blast
    qed (use call_closedD(1,4) [OF closed] in blast)+
  qed
  then show ?thesis
    using assms by simp
qed

section \<open>A scripted socket\<close>

text \<open>
  A world that meets the contract: the answers of the calls are read off lists, a chunk that is
  longer than asked for is delivered in parts, the stream ends with its list, and what is sent
  beyond the list is accepted in full.
\<close>

record script =
  to_recv :: "u8 list sys list"
  to_send :: "nat sys list"
  to_select :: "nat sys list"
  log_rx :: "u8 list"
  log_tx :: "u8 list"

definition scripted_recv :: "int \<Rightarrow> nat \<Rightarrow> script \<Rightarrow> u8 list sys \<times> script" where
  "scripted_recv fd n w =
     (case to_recv w of
        [] \<Rightarrow> (Ret [], w)
      | Fail e # rest \<Rightarrow> (Fail e, w\<lparr> to_recv := rest \<rparr>)
      | Ret bs # rest \<Rightarrow> (Ret (take n bs),
          w\<lparr> to_recv := (if length bs \<le> n then rest else Ret (drop n bs) # rest),
             log_rx := log_rx w @ take n bs \<rparr>))"

definition scripted_send :: "int \<Rightarrow> u8 list \<Rightarrow> script \<Rightarrow> nat sys \<times> script" where
  "scripted_send fd bs w =
     (case to_send w of
        [] \<Rightarrow> (Ret (length bs), w\<lparr> log_tx := log_tx w @ bs \<rparr>)
      | Fail e # rest \<Rightarrow> (Fail e, w\<lparr> to_send := rest \<rparr>)
      | Ret k # rest \<Rightarrow> (Ret (min k (length bs)),
          w\<lparr> to_send := rest, log_tx := log_tx w @ take (min k (length bs)) bs \<rparr>))"

definition scripted_select :: "int \<Rightarrow> u32 \<times> u32 \<Rightarrow> script \<Rightarrow> nat sys \<times> script" where
  "scripted_select nfds t w =
     (case to_select w of [] \<Rightarrow> (Ret 1, w) | x # rest \<Rightarrow> (x, w\<lparr> to_select := rest \<rparr>))"

definition scripted :: "script posix" where
  "scripted = \<lparr> recv_call = scripted_recv, send_call = scripted_send,
     select_call = scripted_select, fd_setsize = 1024 \<rparr>"

lemma scripted_link_ok: "0 \<le> fd \<Longrightarrow> fd < 1024 \<Longrightarrow> link_ok scripted fd log_rx log_tx"
  by (auto simp: link_ok_def recv_ok_def send_ok_def select_ok_def scripted_def scripted_recv_def
      scripted_send_def scripted_select_def split: list.split sys.split)

lemma scripted_interrupts_end: "interrupts_end scripted fd"
  unfolding interrupts_end_def
  by (rule wf_subset [OF wf_measure [of "\<lambda>w. length (to_recv w) + length (to_send w)"]])
    (auto simp: scripted_def scripted_recv_def scripted_send_def
      split: list.split_asm sys.split_asm)

lemma call_closed_scripted:
  assumes "reflp R" and "transp R" and "\<And>fd n w. R w (snd (scripted_recv fd n w))"
    and "\<And>fd bs w. R w (snd (scripted_send fd bs w))"
  shows "call_closed scripted fd R"
  using assms by (simp add: call_closed_def scripted_def)

section \<open>Properties\<close>

text \<open>
  Reading exactly \<open>n\<close> octets stays inside a buffer with room for them and returns whatever
  the chunks the socket delivers, unless signals interrupt it for ever. What it received is
  written to the buffer in order and nowhere else, it never receives more than \<open>n\<close>, and it
  reports success exactly when it received all of them.
\<close>

theorem read_exact_transfers:
  assumes "recv_ok net fd rx tx" and "interrupts_end net fd" and "off + n \<le> length buf"
  shows "\<exists>rc w' c. read_exact net fd buf off n w = Some (Done (rc, overwrite buf off (octets c), w')) \<and>
    rx w' = rx w @ c \<and> tx w' = tx w \<and> length c \<le> n \<and> (rc = 1 \<longleftrightarrow> length c = n) \<and> rc \<in> {1, 0, -1}"
  using read_exact_returns [OF assms(1,2), of buf off n w] read_exact_safe [OF assms(1,3), of w]
  by (rule returns_safe_Done) (auto simp: read_post_def)

lemma read_exact_transfers_witness:
  "\<exists>rc w' c. read_exact scripted 4 (replicate 8 None) 2 3
      \<lparr> to_recv = [Fail EINTR, Ret [1], Ret [2, 3, 4]], to_send = [], to_select = [], log_rx = [], log_tx = [] \<rparr>
      = Some (Done (rc, overwrite (replicate 8 None) 2 (octets c), w')) \<and> log_rx w' = c \<and> length c \<le> 3"
proof -
  have "recv_ok scripted 4 log_rx log_tx"
    using scripted_link_ok [of 4] by (simp add: link_ok_def)
  from read_exact_transfers [OF this scripted_interrupts_end, of 2 3 "replicate 8 None"] show ?thesis
    by fastforce
qed

end
