(* ===== verification/Sim.thy ===== *)
theory Sim
  imports Posix_Link Obsw_Step
begin

text \<open>
  The host runner \<open>sim/obc_sim.c\<close> above the socket: framing of telecommands by the length
  field of the primary header, draining of the downlink queue, and the select loop that turns
  timeouts into minor cycles and received packets into telecommands. The specification of a
  session is \<open>sp_session\<close>: after every stimulus all queued packets leave and the queue is empty.
\<close>

section \<open>The code\<close>

text \<open>
  \<open>packet\<close> and \<open>len\<close> are the local variables; they keep their values from one packet to the
  next. The log line reads the octets 7 and 8 of the packet that was sent.
\<close>

partial_function (option) drain_loop ::
    "'w posix \<Rightarrow> int \<Rightarrow> mem \<Rightarrow> nat option \<Rightarrow> obsw \<Rightarrow> 'w \<Rightarrow> (int \<times> obsw \<times> 'w) run option" where
  "drain_loop net fd packet len s w =
     (if tm_queue_count (tmq s) > 0 then
        checked (tm_queue_pop (Some packet) (length packet) (Some len) (tmq s)) (\<lambda>(st, buf, out, q).
          if st \<noteq> PUS_OK then Some (Done (0, s\<lparr> tmq := q \<rparr>, w))
          else checked (do { packet \<leftarrow> buf; l \<leftarrow> out; n \<leftarrow> l; Some (packet, n) }) (\<lambda>(packet, n).
            run_bind (write_all net fd packet n w) (\<lambda>(rc, w).
              if rc < 0 then Some (Done (-1, s\<lparr> tmq := q \<rparr>, w))
              else checked (do { _ \<leftarrow> rd8 packet 7; rd8 packet 8 }) (\<lambda>_.
                drain_loop net fd packet (Some n) (s\<lparr> tmq := q \<rparr>) w))))
      else Some (Done (0, s, w)))"

definition drain_downlink :: "'w posix \<Rightarrow> int \<Rightarrow> obsw \<Rightarrow> 'w \<Rightarrow> (int \<times> obsw \<times> 'w) run option" where
  "drain_downlink net fd s w = drain_loop net fd (replicate PUS_MAX_PACKET_SIZE None) None s w"

text \<open>The return code, the buffer and \<open>*out_len\<close> after the call.\<close>

definition receive_tc ::
    "'w posix \<Rightarrow> int \<Rightarrow> mem \<Rightarrow> nat \<Rightarrow> nat option \<Rightarrow> 'w \<Rightarrow> (int \<times> mem \<times> nat option \<times> 'w) run option" where
  "receive_tc net fd buf cap out_len w =
     run_bind (read_exact net fd buf 0 CCSDS_PRIMARY_HEADER_LEN w) (\<lambda>(rc, buf, w).
       if rc \<le> 0 then Some (Done (rc, buf, out_len, w))
       else checked (ccsds_unpack_primary (Some buf) CCSDS_PRIMARY_HEADER_LEN (Some None)) (\<lambda>(_, out).
         checked (do { hdr \<leftarrow> out; hdr }) (\<lambda>hdr.
           let total = ccsds_total_length (Some hdr) in
           if total > cap \<or> total \<le> CCSDS_PRIMARY_HEADER_LEN then
             Some (Done (1, buf, Some CCSDS_PRIMARY_HEADER_LEN, w))
           else run_bind (read_exact net fd buf CCSDS_PRIMARY_HEADER_LEN (total - CCSDS_PRIMARY_HEADER_LEN) w)
             (\<lambda>(rc, buf, w).
               if rc \<le> 0 then Some (Done (rc, buf, out_len, w))
               else Some (Done (1, buf, Some total, w))))))"

text \<open>
  The part of a turn of the loop between \<open>select\<close> and the draining, and the whole turn. The
  first component of the result says whether the loop goes on.
\<close>

definition serve_ready ::
    "'w posix \<Rightarrow> int \<Rightarrow> nat \<Rightarrow> mem \<Rightarrow> nat option \<Rightarrow> obsw \<Rightarrow> 'w
     \<Rightarrow> (bool \<times> mem \<times> nat option \<times> obsw \<times> 'w) run option" where
  "serve_ready net fd ready buf len s w =
     (if ready = 0 then checked (obc_tick s) (\<lambda>(_, s). Some (Done (True, buf, len, s, w)))
      else run_bind (receive_tc net fd buf (length buf) len w) (\<lambda>(rc, buf, len, w).
        if rc \<le> 0 then Some (Done (False, buf, len, s, w))
        else checked len (\<lambda>n.
          checked (obc_process_tc (Some buf) n s) (\<lambda>(_, s). Some (Done (True, buf, len, s, w))))))"

definition serve_turn ::
    "'w posix \<Rightarrow> int \<Rightarrow> u32 \<Rightarrow> mem \<Rightarrow> nat option \<Rightarrow> obsw \<Rightarrow> 'w
     \<Rightarrow> (bool \<times> mem \<times> nat option \<times> obsw \<times> 'w) run option" where
  "serve_turn net fd tick_ms buf len s w =
     guarded (0 \<le> fd \<and> fd < fd_setsize net)
       (case select_call net (fd + 1) (tick_ms div 1000, (tick_ms mod 1000) * 1000) w of
          (Fail e, w) \<Rightarrow> Some (Done (e = EINTR, buf, len, s, w))
        | (Ret ready, w) \<Rightarrow>
            run_bind (serve_ready net fd ready buf len s w) (\<lambda>(go, buf, len, s, w).
              if \<not> go then Some (Done (False, buf, len, s, w))
              else run_bind (drain_downlink net fd s w) (\<lambda>(rc, s, w).
                Some (Done (0 \<le> rc, buf, len, s, w)))))"

partial_function (option) serve_loop ::
    "'w posix \<Rightarrow> int \<Rightarrow> u32 \<Rightarrow> mem \<Rightarrow> nat option \<Rightarrow> obsw \<Rightarrow> 'w \<Rightarrow> (obsw \<times> 'w) run option" where
  "serve_loop net fd tick_ms buf len s w =
     run_bind (serve_turn net fd tick_ms buf len s w) (\<lambda>(go, buf, len, s, w).
       if go then serve_loop net fd tick_ms buf len s w else Some (Done (s, w)))"

definition serve_client ::
    "'w posix \<Rightarrow> int \<Rightarrow> u32 \<Rightarrow> obsw \<Rightarrow> 'w \<Rightarrow> (obsw \<times> 'w) run option" where
  "serve_client net fd tick_ms s w =
     checked (obc_init s) (\<lambda>(_, s).
       run_bind (drain_downlink net fd s w) (\<lambda>(rc, s, w).
         if rc < 0 then Some (Done (s, w))
         else serve_loop net fd tick_ms (replicate PUS_MAX_PACKET_SIZE None) None s w))"

section \<open>Frames\<close>

text \<open>
  A frame is what the driver hands over as one telecommand: the octets the length field
  announces, or the primary header alone when they do not fit the buffer.
\<close>

definition announced :: "u8 list \<Rightarrow> nat" where
  "announced bs = 6 + unat (of_be16 (bs ! 4) (bs ! 5)) + 1"

definition is_frame :: "u8 list \<Rightarrow> bool" where
  "is_frame bs \<longleftrightarrow> 6 \<le> length bs \<and> length bs = (if announced bs \<le> 256 then announced bs else 6)"

lemma announced_append: "6 \<le> length bs \<Longrightarrow> announced (bs @ cs) = announced bs"
  by (simp add: announced_def nth_append)

lemma announced_ge: "7 \<le> announced bs"
  by (simp add: announced_def)

lemma is_frame_bounds: "is_frame bs \<Longrightarrow> 6 \<le> length bs \<and> length bs \<le> 256"
  by (auto simp: is_frame_def split: if_splits)

text \<open>No frame is a proper prefix of another, so a stream splits into frames in one way only.\<close>

lemma frame_prefix:
  assumes "is_frame p" and "is_frame (p @ q)"
  shows "q = []"
proof -
  have "announced (p @ q) = announced p"
    using assms(1) by (simp add: is_frame_def announced_append)
  then have "length (p @ q) = length p"
    using assms by (simp add: is_frame_def)
  then show ?thesis by simp
qed

definition incomplete :: "u8 list \<Rightarrow> bool" where
  "incomplete bs \<longleftrightarrow> (\<forall>p. is_frame p \<longrightarrow> \<not> prefix p bs)"

lemma incomplete_short: "length bs < 6 \<Longrightarrow> incomplete bs"
  by (auto simp: incomplete_def dest!: is_frame_bounds prefix_length_le)

lemma incomplete_body:
  assumes "6 \<le> length bs" and "announced bs \<le> 256" and "length bs < announced bs"
  shows "incomplete bs"
  unfolding incomplete_def
proof (intro allI impI notI)
  fix p
  assume p: "is_frame p" and "prefix p bs"
  then obtain q where "bs = p @ q"
    by (auto simp: prefix_def)
  moreover have "6 \<le> length p"
    using p by (simp add: is_frame_def)
  ultimately show False
    using p assms by (simp add: is_frame_def announced_append)
qed

section \<open>Draining\<close>

text \<open>The octets of a queue of messages on the wire.\<close>

definition wire :: "tm_msg list \<Rightarrow> u8 list" where
  "wire ms = concat (map tm_encode ms)"

lemma wire_Cons [simp]: "wire (m # ms) = tm_encode m @ wire ms"
  by (simp add: wire_def)

lemma wire_Nil [simp]: "wire [] = []"
  by (simp add: wire_def)

text \<open>
  Draining sends the queued packets in order and empties the queue, unless the socket refuses
  an octet; then a proper prefix was sent.
\<close>

definition drain_post ::
    "('w \<Rightarrow> u8 list) \<Rightarrow> ('w \<Rightarrow> u8 list) \<Rightarrow> obsw \<Rightarrow> 'w \<Rightarrow> int \<times> obsw \<times> 'w \<Rightarrow> bool" where
  "drain_post rx tx s w x = (case x of (rc, s', w') \<Rightarrow>
     obsw_inv s' \<and> (reachable s \<longrightarrow> reachable s') \<and> rx w' = rx w \<and> rc \<in> {0, -1} \<and>
     (\<exists>lost. tx w' @ lost = tx w @ wire (sp_queue (obsw_abs s)) \<and> (rc = 0 \<longleftrightarrow> lost = [])) \<and>
     (rc = 0 \<longrightarrow> obsw_abs s' = (obsw_abs s)\<lparr> sp_queue := [] \<rparr>))"

text \<open>One packet leaves: what \<open>tm_queue_pop\<close> does to the buffer and to the whole state.\<close>

lemma drain_pop:
  assumes inv: "obsw_inv s" and pos: "0 < s_count (tmq s)" and len: "length packet = 256"
  obtains m q bs rest where
    "tm_queue_pop (Some packet) (length packet) (Some out) (tmq s)
       = Some (PUS_OK, Some (octets bs @ rest), Some (Some (length bs)), q)"
    and "bs = tm_encode m" and "21 \<le> length bs" and "length (octets bs @ rest) = 256"
    and "obsw_inv (s\<lparr> tmq := q \<rparr>)" and "reachable s \<longrightarrow> reachable (s\<lparr> tmq := q \<rparr>)"
    and "sp_queue (obsw_abs s) = m # sp_queue (obsw_abs (s\<lparr> tmq := q \<rparr>))"
    and "obsw_abs (s\<lparr> tmq := q \<rparr>) = (obsw_abs s)\<lparr> sp_queue := sp_queue (obsw_abs (s\<lparr> tmq := q \<rparr>)) \<rparr>"
proof -
  have q: "tmq_inv (tmq s)"
    using inv by (simp add: obsw_inv_def)
  have "tmq_list (tmq s) \<noteq> []"
    using pos by (metis length_tmq_list list.size(3) less_irrefl)
  then obtain p ps where list: "tmq_list (tmq s) = p # ps"
    by (cases "tmq_list (tmq s)") auto
  have len_p: "length p \<le> 256"
    using tmq_list_lengths [OF q, of p] list by simp
  obtain p' q' where pop: "queue_pop (tmq s) = Some (p', q')" "obsw_inv (s\<lparr> tmq := q' \<rparr>)"
      "obsw_abs (s\<lparr> tmq := q' \<rparr>) = sp_step Downlink (obsw_abs s)"
      "p' = (case sp_queue (obsw_abs s) of [] \<Rightarrow> None | m # _ \<Rightarrow> Some (tm_encode m))"
    using queue_pop_cases [OF inv] by blast
  have q': "q' = popped (tmq s)" "p' = Some p"
    using pop(1) queue_pop_nonempty [OF q list] by simp_all
  then obtain m ms where m: "sp_queue (obsw_abs s) = m # ms" "p = tm_encode m"
    using pop(4) by (auto split: list.splits)
  have "tm_queue_pop (Some packet) (length packet) (Some out) (tmq s)
      = Some (PUS_OK, Some (octets p @ drop (length p) packet), Some (Some (length p)), q')"
    using tm_queue_pop_nonempty [OF q list, of 256 packet out] len len_p q'(1) by (simp add: overwrite_0)
  moreover have "reachable s \<longrightarrow> reachable (s\<lparr> tmq := q' \<rparr>)"
    using reachable_step [OF _ obsw_step.downlink [OF pop(1)]] by blast
  ultimately show ?thesis
    using m pop(2,3) len len_p by (intro that [of p "drop (length p) packet" q' m]) (simp_all add: sp_step_def)
qed

lemma drain_loop_body:
  assumes link: "link_ok net fd rx tx" and inv: "obsw_inv s" and len: "length packet = 256"
    and rec: "\<And>packet len s w. obsw_inv s \<Longrightarrow> length packet = 256 \<Longrightarrow> safe (f packet len s w) (drain_post rx tx s w)"
  shows "safe (if tm_queue_count (tmq s) > 0 then
        checked (tm_queue_pop (Some packet) (length packet) (Some out) (tmq s)) (\<lambda>(st, buf, out, q).
          if st \<noteq> PUS_OK then Some (Done (0, s\<lparr> tmq := q \<rparr>, w))
          else checked (do { packet \<leftarrow> buf; l \<leftarrow> out; n \<leftarrow> l; Some (packet, n) }) (\<lambda>(packet, n).
            run_bind (write_all net fd packet n w) (\<lambda>(rc, w).
              if rc < 0 then Some (Done (-1, s\<lparr> tmq := q \<rparr>, w))
              else checked (do { _ \<leftarrow> rd8 packet 7; rd8 packet 8 }) (\<lambda>_.
                f packet (Some n) (s\<lparr> tmq := q \<rparr>) w))))
      else Some (Done (0, s, w))) (drain_post rx tx s w)"
proof (cases "0 < s_count (tmq s)")
  case False
  then have "sp_queue (obsw_abs s) = []"
    by (simp add: obsw_abs_def tmq_list_def)
  then show ?thesis
    using False inv by (simp add: tm_queue_count_def drain_post_def)
next
  case True
  obtain m q bs rest where pop: "tm_queue_pop (Some packet) (length packet) (Some out) (tmq s)
       = Some (PUS_OK, Some (octets bs @ rest), Some (Some (length bs)), q)"
    and bs: "bs = tm_encode m" "21 \<le> length bs" "length (octets bs @ rest) = 256"
    and s': "obsw_inv (s\<lparr> tmq := q \<rparr>)" "reachable s \<longrightarrow> reachable (s\<lparr> tmq := q \<rparr>)"
      "sp_queue (obsw_abs s) = m # sp_queue (obsw_abs (s\<lparr> tmq := q \<rparr>))"
      "obsw_abs (s\<lparr> tmq := q \<rparr>) = (obsw_abs s)\<lparr> sp_queue := sp_queue (obsw_abs (s\<lparr> tmq := q \<rparr>)) \<rparr>"
    by (rule drain_pop [OF inv True len])
  let ?s = "s\<lparr> tmq := q \<rparr>" and ?p = "octets bs @ rest"
  have send: "send_ok net fd rx tx"
    using link by (simp add: link_ok_def)
  have rd: "rd8 ?p 7 = Some (bs ! 7)" "rd8 ?p 8 = Some (bs ! 8)"
    using bs(2) by (simp_all add: rd8_prefix)
  have "safe (run_bind (write_all net fd ?p (length bs) w) (\<lambda>(rc, w).
      if rc < 0 then Some (Done (-1, ?s, w)) else f ?p (Some (length bs)) ?s w)) (drain_post rx tx s w)"
  proof (rule safe_bind [OF write_all_safe [OF send]], clarsimp, intro conjI impI)
    fix rc w'
    assume wp: "write_post rx tx bs w (rc, w')"
    {
      assume "rc < 0"
      then obtain lost where "tx w' @ lost = tx w @ bs" "lost \<noteq> []" "rx w' = rx w"
        using wp by (auto simp: write_post_def)
      then show "drain_post rx tx s w (- 1, ?s, w')"
        using s' bs(1) by (auto simp: drain_post_def intro!: exI [of _ "lost @ wire (sp_queue (obsw_abs ?s))"])
    next
      assume "\<not> rc < 0"
      then have io: "tx w' = tx w @ bs" "rx w' = rx w"
        using wp by (auto simp: write_post_def)
      have queue: "(obsw_abs ?s)\<lparr> sp_queue := [] \<rparr> = (obsw_abs s)\<lparr> sp_queue := [] \<rparr>"
        by (subst s'(4)) simp
      show "safe (f ?p (Some (length bs)) ?s w') (drain_post rx tx s w)"
      proof (rule safe_mono [OF rec [OF s'(1) bs(3)]])
        fix x
        assume "drain_post rx tx ?s w' x"
        then show "drain_post rx tx s w x"
          using io s'(2,3) bs(1) by (auto simp: drain_post_def queue)
      qed
    }
  qed
  then show ?thesis
    using True by (simp add: tm_queue_count_def pop rd cong: if_cong)
qed

lemma drain_downlink_safe:
  assumes "link_ok net fd rx tx" and "obsw_inv s"
  shows "safe (drain_downlink net fd s w) (drain_post rx tx s w)"
proof -
  let ?P = "\<lambda>net fd (packet :: mem) (len :: nat option) s w r. link_ok net fd rx tx \<longrightarrow> obsw_inv s \<longrightarrow> length packet = 256 \<longrightarrow>
    safe (Some r) (drain_post rx tx s w)"
  have "?P net fd (replicate 256 None) None s w r" if "drain_loop net fd (replicate 256 None) None s w = Some r" for r
  proof (rule drain_loop.raw_induct [where P = ?P, OF _ that], intro impI)
    fix f net fd packet len s w r
    assume rec: "\<And>net fd packet len s w r. f net fd packet len s w = Some r \<Longrightarrow> ?P net fd packet len s w r"
      and body: "(if tm_queue_count (tmq s) > 0 then
        checked (tm_queue_pop (Some packet) (length packet) (Some len) (tmq s)) (\<lambda>(st, buf, out, q).
          if st \<noteq> PUS_OK then Some (Done (0, s\<lparr> tmq := q \<rparr>, w))
          else checked (do { packet \<leftarrow> buf; l \<leftarrow> out; n \<leftarrow> l; Some (packet, n) }) (\<lambda>(packet, n).
            run_bind (write_all net fd packet n w) (\<lambda>(rc, w).
              if rc < 0 then Some (Done (-1, s\<lparr> tmq := q \<rparr>, w))
              else checked (do { _ \<leftarrow> rd8 packet 7; rd8 packet 8 }) (\<lambda>_.
                f net fd packet (Some n) (s\<lparr> tmq := q \<rparr>) w))))
      else Some (Done (0, s, w))) = Some r"
      and pre: "link_ok net fd rx tx" "obsw_inv s" "length packet = 256"
    have "safe (f net fd packet len s w) (drain_post rx tx s w)" if "obsw_inv s" "length packet = 256" for packet len s w
      using rec pre(1) that by (auto simp: safe_def)
    from drain_loop_body [OF pre, of "f net fd" len w, OF this] show "safe (Some r) (drain_post rx tx s w)"
      unfolding body .
  qed
  then show ?thesis
    using assms by (auto simp: safe_def drain_downlink_def)
qed

text \<open>If the socket takes whatever it is given, draining never fails.\<close>

lemma drain_loop_accepted:
  assumes "never_refuses net fd" and "drain_loop net fd packet len s w = Some (Done (rc, s', w'))"
  shows "rc = 0"
proof -
  let ?P = "\<lambda>net fd (packet :: mem) (len :: nat option) (s :: obsw) (w :: 'a) r.
    never_refuses net fd \<longrightarrow> (\<forall>rc s' w'. r = Done (rc, s', w') \<longrightarrow> rc = 0)"
  have "?P net fd packet len s w (Done (rc, s', w'))"
  proof (rule drain_loop.raw_induct [where P = ?P, OF _ assms(2)], intro impI allI)
    fix f net fd packet len s and w :: 'a and r rc s' w'
    assume rec: "\<And>net fd packet len s w r. f net fd packet len s w = Some r \<Longrightarrow> ?P net fd packet len s w r"
      and body: "(if tm_queue_count (tmq s) > 0 then
        checked (tm_queue_pop (Some packet) (length packet) (Some len) (tmq s)) (\<lambda>(st, buf, out, q).
          if st \<noteq> PUS_OK then Some (Done (0, s\<lparr> tmq := q \<rparr>, w))
          else checked (do { packet \<leftarrow> buf; l \<leftarrow> out; n \<leftarrow> l; Some (packet, n) }) (\<lambda>(packet, n).
            run_bind (write_all net fd packet n w) (\<lambda>(rc, w).
              if rc < 0 then Some (Done (-1, s\<lparr> tmq := q \<rparr>, w))
              else checked (do { _ \<leftarrow> rd8 packet 7; rd8 packet 8 }) (\<lambda>_.
                f net fd packet (Some n) (s\<lparr> tmq := q \<rparr>) w))))
      else Some (Done (0, s, w))) = Some r"
      and net: "never_refuses net fd" and r: "r = Done (rc, s', w')"
    have "\<not> k < 0" if "write_all net fd buf n w = Some (Done (k, w1))" for buf n k w1
      using write_loop_accepted [OF net] that by (fastforce simp: write_all_def)
    then show "rc = 0"
      using body r rec net
      by (auto simp: Done_rules split: if_splits prod.splits)
  qed
  then show ?thesis
    using assms(1) by simp
qed

lemma drain_downlink_accepted:
  assumes "link_ok net fd rx tx" and "obsw_inv s"
  shows "safe (drain_downlink net fd s w)
    (\<lambda>(rc, s', w'). drain_post rx tx s w (rc, s', w') \<and> (never_refuses net fd \<longrightarrow> rc = 0))"
  using drain_downlink_safe [OF assms, of w] drain_loop_accepted [of net fd]
  unfolding safe_def drain_downlink_def by fastforce

section \<open>Receiving\<close>

definition receive_post ::
    "('w \<Rightarrow> u8 list) \<Rightarrow> ('w \<Rightarrow> u8 list) \<Rightarrow> 'w \<Rightarrow> int \<times> mem \<times> nat option \<times> 'w \<Rightarrow> bool" where
  "receive_post rx tx w x = (case x of (rc, buf', out', w') \<Rightarrow>
     tx w' = tx w \<and> length buf' = 256 \<and> rc \<le> 1 \<and>
     (\<exists>c. rx w' = rx w @ c \<and>
       (if rc \<le> 0 then incomplete c
        else is_frame c \<and> out' = Some (length c) \<and> (\<exists>rest. buf' = octets c @ rest))))"

lemma total_length_header: "ccsds_total_length (Some (header_of bs)) = announced bs"
  by (simp add: ccsds_total_length_def header_of_def header_of_words_def announced_def)

text \<open>The octets behind a header that fits, read into the buffer behind it.\<close>

lemma receive_body_safe:
  assumes link: "recv_ok net fd rx tx" and len: "length buf = 256" and six: "length c = 6"
    and small: "announced c \<le> 256" and w1: "rx w1 = rx w @ c" "tx w1 = tx w"
  shows "safe (run_bind (read_exact net fd (octets c @ drop 6 buf) 6 (announced c - 6) w1) (\<lambda>(rc, buf, w).
      if rc \<le> 0 then Some (Done (rc, buf, out_len, w)) else Some (Done (1, buf, Some (announced c), w))))
    (receive_post rx tx w)"
proof (rule safe_bind [OF read_exact_safe [OF link]])
  let ?buf = "octets c @ drop 6 buf" and ?n = "announced c - 6"
  show "6 + ?n \<le> length ?buf"
    using small six len announced_ge [of c] by simp
  fix y
  assume "read_post rx tx 6 ?n ?buf w1 y"
  then obtain rc w2 d where y: "y = (rc, overwrite ?buf 6 (octets d), w2)"
    and d: "tx w2 = tx w1" "rx w2 = rx w1 @ d" "length d \<le> ?n" "rc = 1 \<longleftrightarrow> length d = ?n" "rc \<in> {1, 0, -1}"
    by (auto simp: read_post_def)
  have buf: "overwrite ?buf 6 (octets d) = octets (c @ d) @ drop (6 + length d) buf"
    using six by (simp add: overwrite_def octets_append add.commute)
  have ann: "announced (c @ d) = announced c"
    using six by (simp add: announced_append)
  have "incomplete (c @ d)" if "length d \<noteq> ?n"
    using six that d(3) small ann announced_ge [of c] by (intro incomplete_body) simp_all
  moreover have "is_frame (c @ d)" if "length d = ?n"
    using six that ann small announced_ge [of c] by (simp add: is_frame_def)
  moreover have "length (overwrite ?buf 6 (octets d)) = 256"
    using six d(3) small len announced_ge [of c] by simp
  ultimately show "safe (case y of (rc, buf, w) \<Rightarrow>
      if rc \<le> 0 then Some (Done (rc, buf, out_len, w)) else Some (Done (1, buf, Some (announced c), w)))
    (receive_post rx tx w)"
    using y w1 d six announced_ge [of c] buf
    by (cases "length d = ?n") (auto simp: receive_post_def)
qed

lemma receive_tc_safe:
  assumes link: "recv_ok net fd rx tx" and len: "length buf = 256"
  shows "safe (receive_tc net fd buf 256 out_len w) (receive_post rx tx w)"
  unfolding receive_tc_def
proof (rule safe_bind [OF read_exact_safe [OF link]])
  show "0 + 6 \<le> length buf"
    using len by simp
  fix x
  assume "read_post rx tx 0 6 buf w x"
  then obtain rc w1 c where x: "x = (rc, octets c @ drop (length c) buf, w1)"
    and c: "tx w1 = tx w" "rx w1 = rx w @ c" "length c \<le> 6" "rc = 1 \<longleftrightarrow> length c = 6" "rc \<in> {1, 0, -1}"
    by (auto simp: read_post_def overwrite_0)
  let ?buf = "octets c @ drop (length c) buf"
  show "safe (case x of (rc, buf, w) \<Rightarrow>
       if rc \<le> 0 then Some (Done (rc, buf, out_len, w))
       else checked (ccsds_unpack_primary (Some buf) 6 (Some None)) (\<lambda>(_, out).
         checked (out \<bind> (\<lambda>hdr. hdr)) (\<lambda>hdr.
           let total = ccsds_total_length (Some hdr) in
           if total > 256 \<or> total \<le> 6 then Some (Done (1, buf, Some 6, w))
           else run_bind (read_exact net fd buf 6 (total - 6) w)
             (\<lambda>(rc, buf, w).
               if rc \<le> 0 then Some (Done (rc, buf, out_len, w))
               else Some (Done (1, buf, Some total, w)))))) (receive_post rx tx w)"
  proof (cases "length c = 6")
    case False
    then have "rc \<le> 0" and "incomplete c"
      using c(3-5) by (auto intro: incomplete_short)
    then show ?thesis
      using x c(1,2,3) len by (simp add: receive_post_def)
  next
    case True
    then have rc: "rc = 1"
      using c(4) by simp
    have unpack: "ccsds_unpack_primary (Some ?buf) 6 (Some None) = Some (PUS_OK, Some (Some (header_of c)))"
      using True by (intro ccsds_unpack_primary_prefix) simp_all
    show ?thesis
    proof (cases "announced c \<le> 256")
      case False
      then have "is_frame c"
        using True by (simp add: is_frame_def)
      then show ?thesis
        using False x rc c(1,2) True len
        by (auto simp: unpack [unfolded True] total_length_header Let_def receive_post_def)
    next
      case small: True
      let ?n = "announced c - 6"
      have "safe (run_bind (read_exact net fd ?buf 6 ?n w1) (\<lambda>(rc, buf, w).
          if rc \<le> 0 then Some (Done (rc, buf, out_len, w)) else Some (Done (1, buf, Some (announced c), w))))
        (receive_post rx tx w)"
        using receive_body_safe [OF link len True small c(2,1)] True by simp
      then show ?thesis
        using small x rc announced_ge [of c] True by (simp add: unpack [unfolded True] total_length_header Let_def not_le cong: if_cong)
    qed
  qed
qed

section \<open>Sessions\<close>

text \<open>What the driver does with one stimulus, on the abstract side: all queued packets leave.\<close>

definition sp_serve :: "stimulus \<Rightarrow> spec \<Rightarrow> u8 list \<times> spec" where
  "sp_serve x a = (let b = sp_step x a in (wire (sp_queue b), b\<lparr> sp_queue := [] \<rparr>))"

primrec sp_session :: "stimulus list \<Rightarrow> spec \<Rightarrow> u8 list \<times> spec" where
  "sp_session [] a = ([], a)"
| "sp_session (x # xs) a =
     (let (sent, b) = sp_serve x a; (sent', c) = sp_session xs b in (sent @ sent', c))"

text \<open>The stimuli of a session after the start, and the octets received for them.\<close>

primrec driver_stimulus :: "stimulus \<Rightarrow> bool" where
  "driver_stimulus Start = False"
| "driver_stimulus Tick = True"
| "driver_stimulus (Telecommand bs) = is_frame bs"
| "driver_stimulus Downlink = False"

primrec taken :: "stimulus \<Rightarrow> u8 list" where
  "taken Start = []"
| "taken Tick = []"
| "taken (Telecommand bs) = bs"
| "taken Downlink = []"

lemma sp_session_append:
  "sp_session (xs @ ys) a =
     (fst (sp_session xs a) @ fst (sp_session ys (snd (sp_session xs a))), snd (sp_session ys (snd (sp_session xs a))))"
  by (induction xs arbitrary: a) (simp_all add: case_prod_unfold Let_def)

text \<open>\<open>q\<close> says that the socket never refuses an octet; then nothing is lost.\<close>

definition session_post ::
    "bool \<Rightarrow> ('w \<Rightarrow> u8 list) \<Rightarrow> ('w \<Rightarrow> u8 list) \<Rightarrow> obsw \<Rightarrow> 'w \<Rightarrow> bool \<Rightarrow> obsw \<Rightarrow> 'w \<Rightarrow> bool" where
  "session_post q rx tx s w go s' w' \<longleftrightarrow> obsw_inv s' \<and> (reachable s \<longrightarrow> reachable s') \<and>
     (\<exists>xs left lost. list_all driver_stimulus xs \<and>
       rx w' = rx w @ concat (map taken xs) @ left \<and> incomplete left \<and>
       tx w' @ lost = tx w @ fst (sp_session xs (obsw_abs s)) \<and>
       (lost = [] \<longrightarrow> obsw_abs s' = snd (sp_session xs (obsw_abs s))) \<and>
       (left = [] \<or> lost = []) \<and> (q \<longrightarrow> lost = []) \<and> (go \<longrightarrow> left = [] \<and> lost = []))"

lemma incomplete_Nil [simp]: "incomplete []"
  by (simp add: incomplete_short)

lemma session_post_idle:
  "obsw_inv s \<Longrightarrow> rx w' = rx w \<Longrightarrow> tx w' = tx w \<Longrightarrow> session_post q rx tx s w go s w'"
  unfolding session_post_def by (intro conjI exI [of _ "[]"]) simp_all

lemma session_post_broken:
  "obsw_inv s \<Longrightarrow> rx w' = rx w @ c \<Longrightarrow> incomplete c \<Longrightarrow> tx w' = tx w \<Longrightarrow> session_post q rx tx s w False s w'"
  unfolding session_post_def by (intro conjI exI [of _ "[]"] exI [of _ c]) simp_all

lemma session_post_trans:
  assumes "session_post q rx tx s w True s1 w1" and "session_post q rx tx s1 w1 go s2 w2"
  shows "session_post q rx tx s w go s2 w2"
proof -
  obtain xs where xs: "list_all driver_stimulus xs" "rx w1 = rx w @ concat (map taken xs)"
      "tx w1 = tx w @ fst (sp_session xs (obsw_abs s))" "obsw_abs s1 = snd (sp_session xs (obsw_abs s))"
    using assms(1) by (auto simp: session_post_def)
  obtain ys left lost where ys: "list_all driver_stimulus ys"
      "rx w2 = rx w1 @ concat (map taken ys) @ left" "incomplete left"
      "tx w2 @ lost = tx w1 @ fst (sp_session ys (obsw_abs s1))"
      "lost = [] \<longrightarrow> obsw_abs s2 = snd (sp_session ys (obsw_abs s1))"
      "left = [] \<or> lost = []" "q \<longrightarrow> lost = []" "go \<longrightarrow> left = [] \<and> lost = []"
    using assms(2) by (auto simp: session_post_def)
  have "obsw_inv s2" "reachable s \<longrightarrow> reachable s2"
    using assms by (auto simp: session_post_def)
  then show ?thesis
    using xs ys unfolding session_post_def
    by (intro conjI exI [of _ "xs @ ys"] exI [of _ left] exI [of _ lost]) (simp_all add: sp_session_append)
qed

section \<open>The loop\<close>

text \<open>One stimulus and the draining after it.\<close>

lemma stimulus_drained:
  assumes link: "link_ok net fd rx tx" and inv: "obsw_inv s" and step: "obsw_step s x s1"
    and stim: "driver_stimulus x" and w1: "rx w1 = rx w @ taken x" "tx w1 = tx w"
  shows "safe (run_bind (drain_downlink net fd s1 w1) (\<lambda>(rc, s, w). Some (Done (0 \<le> rc, buf, len, s, w))))
    (\<lambda>(go, b, _, s', w'). b = buf \<and> session_post (never_refuses net fd) rx tx s w go s' w')"
proof -
  have s1: "obsw_inv s1" "obsw_abs s1 = sp_step x (obsw_abs s)" "reachable s \<longrightarrow> reachable s1"
    using obsw_step_refines [OF inv step] reachable_step [OF _ step] by simp_all
  show ?thesis
  proof (rule safe_bind [OF drain_downlink_accepted [OF link s1(1)]], clarsimp)
    fix rc s' w'
    assume "drain_post rx tx s1 w1 (rc, s', w')" and never: "never_refuses net fd \<longrightarrow> rc = 0"
    then obtain lost where "obsw_inv s'" "reachable s \<longrightarrow> reachable s'" "rx w' = rx w @ taken x"
        "tx w' @ lost = tx w @ fst (sp_session [x] (obsw_abs s))" "rc = 0 \<longleftrightarrow> lost = []" "rc \<in> {0, -1}"
        "lost = [] \<longrightarrow> obsw_abs s' = snd (sp_session [x] (obsw_abs s))"
      using s1 w1 by (auto simp: drain_post_def sp_serve_def Let_def)
    then show "session_post (never_refuses net fd) rx tx s w (0 \<le> rc) s' w'"
      using stim never unfolding session_post_def
      by (intro conjI exI [of _ "[x]"] exI [of _ "[]"] exI [of _ lost]) auto
  qed
qed

text \<open>What happened between \<open>select\<close> and the draining: one stimulus, or the stream broke off.\<close>

definition ready_post ::
    "('w \<Rightarrow> u8 list) \<Rightarrow> ('w \<Rightarrow> u8 list) \<Rightarrow> obsw \<Rightarrow> 'w \<Rightarrow> bool \<times> mem \<times> nat option \<times> obsw \<times> 'w \<Rightarrow> bool" where
  "ready_post rx tx s w x = (case x of (go, buf, len, s', w') \<Rightarrow>
     length buf = 256 \<and> tx w' = tx w \<and>
     (if go then \<exists>x. obsw_step s x s' \<and> driver_stimulus x \<and> rx w' = rx w @ taken x
      else s' = s \<and> (\<exists>c. rx w' = rx w @ c \<and> incomplete c)))"

lemma serve_ready_safe:
  assumes link: "recv_ok net fd rx tx" and inv: "obsw_inv s" and len: "length buf = 256"
  shows "safe (serve_ready net fd ready buf out s w) (ready_post rx tx s w)"
proof (cases "ready = 0")
  case True
  obtain s1 where tick: "obc_tick s = Some ((), s1)"
    using refinesE [OF obc_tick_refines [OF inv]] by auto
  then show ?thesis
    using True len obsw_step.tick [OF tick] by (auto simp: serve_ready_def ready_post_def intro!: exI [of _ Tick])
next
  case False
  have "safe (run_bind (receive_tc net fd buf 256 out w) (\<lambda>(rc, buf, len, w).
      if rc \<le> 0 then Some (Done (False, buf, len, s, w))
      else checked len (\<lambda>n. checked (obc_process_tc (Some buf) n s) (\<lambda>(_, s). Some (Done (True, buf, len, s, w))))))
    (ready_post rx tx s w)"
  proof (rule safe_bind [OF receive_tc_safe [OF link len]], clarify)
    fix rc b l w2
    assume post: "receive_post rx tx w (rc, b, l, w2)"
    show "safe (if rc \<le> 0 then Some (Done (False, b, l, s, w2))
        else checked l (\<lambda>n. checked (obc_process_tc (Some b) n s) (\<lambda>(_, s). Some (Done (True, b, l, s, w2)))))
      (ready_post rx tx s w)"
    proof (cases "rc \<le> 0")
      case True
      then show ?thesis
        using post by (auto simp: receive_post_def ready_post_def)
    next
      case False
      then obtain c rest where c: "is_frame c" "l = Some (length c)" "b = octets c @ rest" "length b = 256"
          "rx w2 = rx w @ c" "tx w2 = tx w"
        using post by (auto simp: receive_post_def)
      obtain st s1 where proc: "obc_process_tc (Some (octets c @ rest)) (length c) s = Some (st, s1)"
        using refinesE [OF obc_process_tc_refines [OF inv, of c rest]] by blast
      then have "\<exists>x. obsw_step s x s1 \<and> driver_stimulus x \<and> rx w2 = rx w @ taken x"
        using obsw_step.telecommand [OF proc] c(1,5) by (intro exI [of _ "Telecommand c"]) simp
      then show ?thesis
        using False c proc by (simp add: ready_post_def)
    qed
  qed
  then show ?thesis
    using False len by (simp add: serve_ready_def)
qed

definition turn_post ::
    "bool \<Rightarrow> ('w \<Rightarrow> u8 list) \<Rightarrow> ('w \<Rightarrow> u8 list) \<Rightarrow> obsw \<Rightarrow> 'w \<Rightarrow> bool \<times> mem \<times> nat option \<times> obsw \<times> 'w \<Rightarrow> bool" where
  "turn_post q rx tx s w x = (case x of (go, buf, len, s', w') \<Rightarrow>
     length buf = 256 \<and> session_post q rx tx s w go s' w')"

lemma serve_turn_safe:
  assumes link: "link_ok net fd rx tx" and inv: "obsw_inv s" and len: "length buf = 256"
  shows "safe (serve_turn net fd tick_ms buf out s w) (turn_post (never_refuses net fd) rx tx s w)"
proof -
  have recv: "recv_ok net fd rx tx" and fd: "0 \<le> fd" "fd < fd_setsize net"
    using link by (simp_all add: link_ok_def select_ok_def)
  obtain ans w1 where sel: "select_call net (fd + 1) (tick_ms div 1000, (tick_ms mod 1000) * 1000) w = (ans, w1)"
    by fastforce
  then have w1: "rx w1 = rx w" "tx w1 = tx w"
    using link unfolding link_ok_def select_ok_def by (metis snd_conv)+
  show ?thesis
  proof (cases ans)
    case (Fail e)
    then show ?thesis
      using fd sel w1 inv len by (simp add: serve_turn_def turn_post_def session_post_idle)
  next
    case (Ret ready)
    have "safe (run_bind (serve_ready net fd ready buf out s w1) (\<lambda>(go, buf, len, s, w).
          if \<not> go then Some (Done (False, buf, len, s, w))
          else run_bind (drain_downlink net fd s w) (\<lambda>(rc, s, w). Some (Done (0 \<le> rc, buf, len, s, w)))))
        (turn_post (never_refuses net fd) rx tx s w)"
    proof (rule safe_bind [OF serve_ready_safe [OF recv inv len]], clarify)
      fix go b l s1 w2
      assume post: "ready_post rx tx s w1 (go, b, l, s1, w2)"
      show "safe (if \<not> go then Some (Done (False, b, l, s1, w2))
          else run_bind (drain_downlink net fd s1 w2) (\<lambda>(rc, s, w). Some (Done (0 \<le> rc, b, l, s, w))))
        (turn_post (never_refuses net fd) rx tx s w)"
      proof (cases go)
        case False
        then show ?thesis
          using post inv w1 by (auto simp: ready_post_def turn_post_def intro: session_post_broken)
      next
        case True
        then obtain x where "obsw_step s x s1" "driver_stimulus x" "rx w2 = rx w @ taken x" "tx w2 = tx w" "length b = 256"
          using post w1 by (auto simp: ready_post_def)
        then show ?thesis
          using True stimulus_drained [OF link inv, of x s1 w2 w b l]
          by (simp, elim safe_mono) (auto simp: turn_post_def)
      qed
    qed
    then show ?thesis
      using fd sel Ret by (simp add: serve_turn_def)
  qed
qed

lemma serve_loop_safe:
  assumes "link_ok net fd rx tx" and "obsw_inv s" and "length buf = 256"
  shows "safe (serve_loop net fd tick_ms buf len s w) (\<lambda>(s', w'). session_post (never_refuses net fd) rx tx s w False s' w')"
proof -
  let ?P = "\<lambda>net fd (tick_ms :: u32) buf (len :: nat option) s w r. link_ok net fd rx tx \<longrightarrow> obsw_inv s \<longrightarrow> length buf = 256 \<longrightarrow>
    safe (Some r) (\<lambda>(s', w'). session_post (never_refuses net fd) rx tx s w False s' w')"
  have "?P net fd tick_ms buf len s w r" if "serve_loop net fd tick_ms buf len s w = Some r" for r
  proof (rule serve_loop.raw_induct [where P = ?P, OF _ that], intro impI)
    fix f net fd tick_ms buf len s w r
    assume rec: "\<And>net fd tick_ms buf len s w r. f net fd tick_ms buf len s w = Some r \<Longrightarrow> ?P net fd tick_ms buf len s w r"
      and body: "run_bind (serve_turn net fd tick_ms buf len s w) (\<lambda>(go, buf, len, s, w).
          if go then f net fd tick_ms buf len s w else Some (Done (s, w))) = Some r"
      and pre: "link_ok net fd rx tx" "obsw_inv s" "length buf = 256"
    have f: "safe (f net fd tick_ms buf len s w) (\<lambda>(s', w'). session_post (never_refuses net fd) rx tx s w False s' w')"
      if "obsw_inv s" "length buf = 256" for buf len s w
      using rec pre(1) that by (auto simp: safe_def)
    have "safe (run_bind (serve_turn net fd tick_ms buf len s w) (\<lambda>(go, buf, len, s, w).
          if go then f net fd tick_ms buf len s w else Some (Done (s, w))))
        (\<lambda>(s', w'). session_post (never_refuses net fd) rx tx s w False s' w')"
    proof (rule safe_bind [OF serve_turn_safe [OF pre]], clarify)
      fix go b l s1 w1
      assume "turn_post (never_refuses net fd) rx tx s w (go, b, l, s1, w1)"
      then have b: "length b = 256" and sp: "session_post (never_refuses net fd) rx tx s w go s1 w1"
        by (simp_all add: turn_post_def)
      then have inv: "obsw_inv s1"
        by (simp add: session_post_def)
      show "safe (if go then f net fd tick_ms b l s1 w1 else Some (Done (s1, w1)))
        (\<lambda>(s', w'). session_post (never_refuses net fd) rx tx s w False s' w')"
      proof (cases go)
        case True
        then show ?thesis
          using sp f [OF inv b, of l w1] by (simp, elim safe_mono) (auto intro: session_post_trans)
      next
        case False
        then show ?thesis
          using sp by simp
      qed
    qed
    then show "safe (Some r) (\<lambda>(s', w'). session_post (never_refuses net fd) rx tx s w False s' w')"
      unfolding body .
  qed
  then show ?thesis
    using assms by (auto simp: safe_def)
qed

lemma obc_init_step:
  assumes "obsw_inv s"
  obtains s1 where "obc_init s = Some ((), s1)" and "obsw_inv s1" and "obsw_abs s1 = sp_boot"
    and "s = power_on \<or> reachable s \<longrightarrow> reachable s1"
proof -
  obtain s1 where s1: "obc_init s = Some ((), s1)" "obsw_inv s1" "obsw_abs s1 = sp_boot"
    using refinesE [OF obc_init_refines [OF assms]] by auto
  have step: "obsw_step s Start s1"
    using s1(1) by (rule obsw_step.start)
  have "obsw_run power_on [Start] s1" if "s = power_on"
    using step that by (auto simp: obsw_run_simps)
  then have "s = power_on \<or> reachable s \<longrightarrow> reachable s1"
    using step reachable_step unfolding reachable_def by blast
  then show ?thesis
    using s1 by (rule that [rotated -1])
qed

lemma sp_serve_Start [simp]:
  "sp_serve Start a = (wire (sp_queue sp_boot), sp_boot\<lparr> sp_queue := [] \<rparr>)"
  by (simp add: sp_serve_def sp_step_def Let_def)

definition client_post ::
    "bool \<Rightarrow> ('w \<Rightarrow> u8 list) \<Rightarrow> ('w \<Rightarrow> u8 list) \<Rightarrow> obsw \<Rightarrow> 'w \<Rightarrow> obsw \<times> 'w \<Rightarrow> bool" where
  "client_post q rx tx s w x = (case x of (s', w') \<Rightarrow>
     obsw_inv s' \<and> (s = power_on \<or> reachable s \<longrightarrow> reachable s') \<and>
     (\<exists>xs left lost. list_all driver_stimulus xs \<and>
       rx w' = rx w @ concat (map taken xs) @ left \<and> incomplete left \<and>
       tx w' @ lost = tx w @ fst (sp_session (Start # xs) (obsw_abs s)) \<and>
       (lost = [] \<longrightarrow> obsw_abs s' = snd (sp_session (Start # xs) (obsw_abs s))) \<and> (q \<longrightarrow> lost = [])))"

lemma serve_client_safe:
  assumes link: "link_ok net fd rx tx" and inv: "obsw_inv s"
  shows "safe (serve_client net fd tick_ms s w) (client_post (never_refuses net fd) rx tx s w)"
proof -
  obtain s1 where s1: "obc_init s = Some ((), s1)" "obsw_inv s1" "obsw_abs s1 = sp_boot"
    "s = power_on \<or> reachable s \<longrightarrow> reachable s1"
    by (rule obc_init_step [OF inv])
  have serve: "sp_session (Start # xs) (obsw_abs s)
      = (wire (sp_queue sp_boot) @ fst (sp_session xs (sp_boot\<lparr> sp_queue := [] \<rparr>)),
         snd (sp_session xs (sp_boot\<lparr> sp_queue := [] \<rparr>)))" for xs
    by (simp add: case_prod_unfold Let_def)
  have "safe (run_bind (drain_downlink net fd s1 w) (\<lambda>(rc, s, w).
      if rc < 0 then Some (Done (s, w)) else serve_loop net fd tick_ms (replicate 256 None) None s w))
    (client_post (never_refuses net fd) rx tx s w)"
  proof (rule safe_bind [OF drain_downlink_accepted [OF link s1(2)]], clarify)
    fix rc s2 w2
    assume post: "drain_post rx tx s1 w (rc, s2, w2)" and never: "never_refuses net fd \<longrightarrow> rc = 0"
    show "safe (if rc < 0 then Some (Done (s2, w2)) else serve_loop net fd tick_ms (replicate 256 None) None s2 w2)
      (client_post (never_refuses net fd) rx tx s w)"
    proof (cases "rc < 0")
      case True
      then obtain lost where "obsw_inv s2" "s = power_on \<or> reachable s \<longrightarrow> reachable s2" "rx w2 = rx w"
          "tx w2 @ lost = tx w @ wire (sp_queue sp_boot)" "lost \<noteq> []"
        using post s1(3,4) by (auto simp: drain_post_def)
      then show ?thesis
        using True never unfolding client_post_def
        by (auto intro!: exI [of _ "[]"] exI [of _ lost])
    next
      case False
      then have s2: "obsw_inv s2" "s = power_on \<or> reachable s \<longrightarrow> reachable s2" "rx w2 = rx w"
          "tx w2 = tx w @ wire (sp_queue sp_boot)" "obsw_abs s2 = sp_boot\<lparr> sp_queue := [] \<rparr>"
        using post s1(3,4) by (auto simp: drain_post_def)
      have "safe (serve_loop net fd tick_ms (replicate 256 None) None s2 w2) (client_post (never_refuses net fd) rx tx s w)"
      proof (rule safe_mono [OF serve_loop_safe [OF link s2(1)]], simp, clarify)
        fix s' w'
        assume "session_post (never_refuses net fd) rx tx s2 w2 False s' w'"
        then show "client_post (never_refuses net fd) rx tx s w (s', w')"
          using s2 unfolding session_post_def client_post_def serve by fastforce
      qed
      then show ?thesis
        using False by simp
    qed
  qed
  then show ?thesis
    by (simp add: serve_client_def s1(1))
qed

section \<open>Every turn returns\<close>

lemma drain_loop_returns:
  assumes ends: "interrupts_end net fd"
  shows "returns (drain_loop net fd packet len s w)"
proof (induction "s_count (tmq s)" arbitrary: packet len s w rule: less_induct)
  case less
  show ?case
  proof (cases "0 < s_count (tmq s)")
    case False
    then show ?thesis
      by (simp add: drain_loop.simps tm_queue_count_def)
  next
    case True
    show ?thesis
    proof (cases "tm_queue_pop (Some packet) (length packet) (Some len) (tmq s)")
      case None
      then show ?thesis
        using True by (simp add: drain_loop.simps tm_queue_count_def)
    next
      case (Some r)
      obtain st buf out q where r: "r = (st, buf, out, q)"
        by (rule prod_cases4)
      have dec: "s_count q < s_count (tmq s)" if "st = PUS_OK"
        using Some r True that by (auto simp: tm_queue_pop_def bind_eq_Some_conv split: if_splits)
      have rec: "returns (drain_loop net fd p n (s\<lparr> tmq := q \<rparr>) w)" if "st = PUS_OK" for p n w
        using dec [OF that] by (intro less) simp
      have "returns (checked (do { packet \<leftarrow> buf; l \<leftarrow> out; n \<leftarrow> l; Some (packet, n) }) (\<lambda>(packet, n).
            run_bind (write_all net fd packet n w) (\<lambda>(rc, w).
              if rc < 0 then Some (Done (-1, s\<lparr> tmq := q \<rparr>, w))
              else checked (do { _ \<leftarrow> rd8 packet 7; rd8 packet 8 }) (\<lambda>_.
                drain_loop net fd packet (Some n) (s\<lparr> tmq := q \<rparr>) w))))" if "st = PUS_OK"
        unfolding checked_def
        by (auto split: option.split intro!: returns_bind write_all_returns [OF ends] rec [OF that])
      then show ?thesis
        using True Some r by (subst drain_loop.simps) (simp add: tm_queue_count_def)
    qed
  qed
qed

lemma receive_tc_returns:
  assumes "recv_ok net fd rx tx" and "interrupts_end net fd"
  shows "returns (receive_tc net fd buf cap out w)"
  unfolding receive_tc_def checked_def Let_def
  by (auto split: option.split intro!: returns_bind read_exact_returns [OF assms])

lemma serve_turn_returns:
  assumes "link_ok net fd rx tx" and "interrupts_end net fd"
  shows "returns (serve_turn net fd tick_ms buf out s w)"
proof -
  have "recv_ok net fd rx tx"
    using assms(1) by (simp add: link_ok_def)
  then show ?thesis
    unfolding serve_turn_def serve_ready_def checked_def drain_downlink_def guarded_def
    by (auto split: option.split sys.split prod.split
        intro!: returns_bind receive_tc_returns [OF _ assms(2)] drain_loop_returns [OF assms(2)])
qed

section \<open>When a session ends\<close>

lemma drain_loop_keeps:
  assumes closed: "call_closed net fd R"
  shows "drain_loop net fd packet len s w = Some (Done (rc, s', w')) \<Longrightarrow> R w w'"
proof (induction "s_count (tmq s)" arbitrary: packet len s w rule: less_induct)
  case less
  show ?case
  proof (cases "0 < s_count (tmq s)")
    case False
    then show ?thesis
      using less.prems call_closedD(1) [OF closed] by (simp add: drain_loop.simps tm_queue_count_def)
  next
    case True
    let ?send = "\<lambda>q (packet, n). run_bind (write_all net fd packet n w) (\<lambda>(rc, w).
        if rc < 0 then Some (Done (-1, s\<lparr> tmq := q \<rparr>, w))
        else checked (do { _ \<leftarrow> rd8 packet 7; rd8 packet 8 }) (\<lambda>_.
          drain_loop net fd packet (Some n) (s\<lparr> tmq := q \<rparr>) w))"
    obtain st buf out q where pop: "tm_queue_pop (Some packet) (length packet) (Some len) (tmq s) = Some (st, buf, out, q)"
      and res: "(if st \<noteq> PUS_OK then Some (Done (0, s\<lparr> tmq := q \<rparr>, w))
          else checked (do { packet \<leftarrow> buf; l \<leftarrow> out; n \<leftarrow> l; Some (packet, n) }) (?send q)) = Some (Done (rc, s', w'))"
      using less.prems True unfolding drain_loop.simps [of net fd packet len s w]
      by (simp add: tm_queue_count_def checked_Done) blast
    have "\<exists>packet n rc1 w1. write_all net fd packet n w = Some (Done (rc1, w1)) \<and>
          (w' = w1 \<or> drain_loop net fd packet (Some n) (s\<lparr> tmq := q \<rparr>) w1 = Some (Done (rc, s', w')))"
      if st: "st = PUS_OK"
    proof -
      obtain packet n where "?send q (packet, n) = Some (Done (rc, s', w'))"
        using res st by (auto simp: checked_Done)
      then obtain rc1 w1 where "write_all net fd packet n w = Some (Done (rc1, w1))"
        and "w' = w1 \<or> drain_loop net fd packet (Some n) (s\<lparr> tmq := q \<rparr>) w1 = Some (Done (rc, s', w'))"
        by (simp add: run_bind_Done) (auto simp: checked_Done split: if_splits)
      then show ?thesis
        by blast
    qed
    then have "st \<noteq> PUS_OK \<and> w' = w \<or> st = PUS_OK \<and> (\<exists>packet n rc1 w1. write_all net fd packet n w = Some (Done (rc1, w1)) \<and>
          (w' = w1 \<or> drain_loop net fd packet (Some n) (s\<lparr> tmq := q \<rparr>) w1 = Some (Done (rc, s', w'))))"
      using res by (cases "st = PUS_OK") simp_all
    then consider "w' = w" | packet n rc1 w1 where "write_all net fd packet n w = Some (Done (rc1, w1))" "w' = w1"
      | packet n rc1 w1 where "st = PUS_OK" "write_all net fd packet n w = Some (Done (rc1, w1))"
          "drain_loop net fd packet (Some n) (s\<lparr> tmq := q \<rparr>) w1 = Some (Done (rc, s', w'))"
      by blast
    then show ?thesis
    proof cases
      case 1
      then show ?thesis
        using call_closedD(1) [OF closed] by simp
    next
      case 2
      then show ?thesis
        using write_loop_keeps [OF closed] by (simp add: write_all_def)
    next
      case 3
      then have "s_count q < s_count (tmq s)"
        using pop True by (auto simp: tm_queue_pop_def bind_eq_Some_conv split: if_splits)
      then have "R w1 w'"
        using less.hyps [of "s\<lparr> tmq := q \<rparr>"] 3(3) by simp
      moreover have "R w w1"
        using write_loop_keeps [OF closed] 3(2) by (simp add: write_all_def)
      ultimately show ?thesis
        using call_closedD(2) [OF closed] by blast
    qed
  qed
qed

lemma receive_tc_keeps:
  assumes closed: "call_closed net fd R"
    and "receive_tc net fd buf cap out w = Some (Done (rc, buf', out', w'))"
  shows "R w w'"
proof -
  have read: "R w w'" if "read_exact net fd buf off n w = Some (Done (rc, buf', w'))" for buf off n w rc buf' w'
    using read_loop_keeps [OF closed] that by (simp add: read_exact_def)
  obtain rc1 buf1 w1 where one: "read_exact net fd buf 0 6 w = Some (Done (rc1, buf1, w1))"
    and "w' = w1 \<or> (\<exists>buf n rc buf'. read_exact net fd buf 6 n w1 = Some (Done (rc, buf', w')))"
    using assms(2) unfolding receive_tc_def Let_def
    by (auto simp: Done_rules split: if_splits)
  then show ?thesis
    using read call_closedD(2) [OF closed] by blast
qed

text \<open>
  \<open>budget w\<close> bounds what is still to come at \<open>w\<close>: the octets the peer will send, the timeouts
  of \<open>select\<close> and its interruptions.
\<close>

definition peer_finite :: "'w posix \<Rightarrow> int \<Rightarrow> ('w \<Rightarrow> u8 list) \<Rightarrow> ('w \<Rightarrow> nat) \<Rightarrow> bool" where
  "peer_finite net fd rx budget \<longleftrightarrow>
     call_closed net fd (\<lambda>w w'. budget w' + length (rx w') \<le> budget w + length (rx w)) \<and>
     (\<forall>t w. case select_call net (fd + 1) t w of
        (Ret n, w') \<Rightarrow> (if n = 0 then budget w' < budget w else budget w' \<le> budget w)
      | (Fail e, w') \<Rightarrow> (if e = EINTR then budget w' < budget w else True))"

lemma peer_spends:
  "peer_finite net fd rx budget \<Longrightarrow>
   call_closed net fd (\<lambda>w w'. budget w' + length (rx w') \<le> budget w + length (rx w))"
  by (simp add: peer_finite_def)

lemma drain_downlink_spends:
  assumes link: "link_ok net fd rx tx" and inv: "obsw_inv s" and peer: "peer_finite net fd rx budget"
    and drain: "drain_downlink net fd s w = Some (Done (rc, s', w'))"
  shows "budget w' \<le> budget w"
proof -
  have "rx w' = rx w"
    using drain_downlink_safe [OF link inv, of w] drain by (auto simp: safe_def drain_post_def)
  moreover have "budget w' + length (rx w') \<le> budget w + length (rx w)"
    using drain_loop_keeps [OF peer_spends [OF peer]] drain unfolding drain_downlink_def by blast
  ultimately show ?thesis
    by simp
qed

text \<open>What is received is spent.\<close>

lemma serve_ready_spends:
  assumes recv: "recv_ok net fd rx tx" and len: "length buf = 256" and peer: "peer_finite net fd rx budget"
    and ready: "serve_ready net fd ready buf out s w = Some (Done (True, b, l, s', w'))"
  shows "if ready = 0 then w' = w else budget w' < budget w"
proof (cases "ready = 0")
  case True
  then show ?thesis
    using ready by (auto simp: serve_ready_def Done_rules)
next
  case False
  then obtain rc b1 l1 where tc: "receive_tc net fd buf (length buf) out w = Some (Done (rc, b1, l1, w'))" "\<not> rc \<le> 0"
    using ready by (auto simp: serve_ready_def Done_rules split: if_splits)
  then obtain c where c: "rx w' = rx w @ c" "is_frame c"
    using receive_tc_safe [OF recv len, of out w] len by (auto simp: safe_def receive_post_def)
  have "budget w' + length (rx w') \<le> budget w + length (rx w)"
    using receive_tc_keeps [OF peer_spends [OF peer]] tc(1) by blast
  then show ?thesis
    using False c is_frame_bounds [OF c(2)] by simp
qed

lemma serve_turn_spends:
  assumes link: "link_ok net fd rx tx" and inv: "obsw_inv s" and len: "length buf = 256"
    and peer: "peer_finite net fd rx budget"
    and turn: "serve_turn net fd tick_ms buf out s w = Some (Done (True, buf', out', s', w'))"
  shows "budget w' < budget w"
proof -
  have recv: "recv_ok net fd rx tx" and fd: "0 \<le> fd" "fd < fd_setsize net"
    using link by (simp_all add: link_ok_def select_ok_def)
  obtain ans w1 where sel: "select_call net (fd + 1) (tick_ms div 1000, (tick_ms mod 1000) * 1000) w = (ans, w1)"
    by fastforce
  have pf: "case (ans, w1) of
        (Ret n, w') \<Rightarrow> (if n = 0 then budget w' < budget w else budget w' \<le> budget w)
      | (Fail e, w') \<Rightarrow> (if e = EINTR then budget w' < budget w else True)"
    unfolding sel [symmetric] by (rule spec [OF spec [OF conjunct2 [OF peer [unfolded peer_finite_def]]]])
  show ?thesis
  proof (cases ans)
    case (Fail e)
    then show ?thesis
      using turn fd sel pf by (simp add: serve_turn_def split: if_splits)
  next
    case (Ret ready)
    have "run_bind (serve_ready net fd ready buf out s w1) (\<lambda>(go, buf, len, s, w).
        if \<not> go then Some (Done (False, buf, len, s, w))
        else run_bind (drain_downlink net fd s w) (\<lambda>(rc, s, w). Some (Done (0 \<le> rc, buf, len, s, w))))
      = Some (Done (True, buf', out', s', w'))"
      using turn fd sel Ret by (simp add: serve_turn_def)
    then obtain b l s1 w2 rc where ready: "serve_ready net fd ready buf out s w1 = Some (Done (True, b, l, s1, w2))"
      and drain: "drain_downlink net fd s1 w2 = Some (Done (rc, s', w'))"
      by (simp add: run_bind_Done) (auto split: if_splits simp: run_bind_Done)
    have "ready_post rx tx s w1 (True, b, l, s1, w2)"
      using serve_ready_safe [OF recv inv len, of ready out w1] ready by (auto simp: safe_def)
    then have "obsw_inv s1"
      using obsw_step_refines [OF inv] by (auto simp: ready_post_def)
    then have "budget w' \<le> budget w2"
      using drain_downlink_spends [OF link _ peer drain] by simp
    then show ?thesis
      using serve_ready_spends [OF recv len peer ready] pf Ret by (simp split: if_splits)
  qed
qed

lemma serve_loop_returns:
  assumes link: "link_ok net fd rx tx" and ends: "interrupts_end net fd" and peer: "peer_finite net fd rx budget"
    and "obsw_inv s" and "length buf = 256"
  shows "returns (serve_loop net fd tick_ms buf out s w)"
  using assms(4,5)
proof (induction "budget w" arbitrary: buf out s w rule: less_induct)
  case less
  have "returns (serve_turn net fd tick_ms buf out s w)"
    using link ends by (rule serve_turn_returns)
  moreover have "safe (serve_turn net fd tick_ms buf out s w) (turn_post (never_refuses net fd) rx tx s w)"
    using link less.prems by (rule serve_turn_safe)
  ultimately obtain go b l s1 w1 where turn: "serve_turn net fd tick_ms buf out s w = Some (Done (go, b, l, s1, w1))"
    and "turn_post (never_refuses net fd) rx tx s w (go, b, l, s1, w1)"
    by (rule returns_safe_Done) auto
  then have "obsw_inv s1" "length b = 256"
    by (auto simp: turn_post_def session_post_def)
  then have "returns (serve_loop net fd tick_ms b l s1 w1)" if go
    using serve_turn_spends [OF link less.prems peer] turn that by (intro less.hyps) simp_all
  then show ?case
    by (subst serve_loop.simps) (simp add: turn)
qed

lemma serve_client_returns:
  assumes "link_ok net fd rx tx" and "interrupts_end net fd" and "peer_finite net fd rx budget" and "obsw_inv s"
  shows "returns (serve_client net fd tick_ms s w)"
proof -
  obtain s1 where s1: "obc_init s = Some ((), s1)" "obsw_inv s1"
    using obc_init_step [OF assms(4)] by blast
  have "returns (run_bind (drain_downlink net fd s1 w) (\<lambda>(rc, s, w).
      if rc < 0 then Some (Done (s, w)) else serve_loop net fd tick_ms (replicate 256 None) None s w))"
  proof (rule returns_bind)
    show "returns (drain_downlink net fd s1 w)"
      unfolding drain_downlink_def using assms(2) by (rule drain_loop_returns)
    fix x
    assume x: "drain_downlink net fd s1 w = Some (Done x)"
    then have "obsw_inv (fst (snd x))"
      using drain_downlink_safe [OF assms(1) s1(2), of w] by (auto simp: safe_def drain_post_def)
    then show "returns (case x of (rc, s, w) \<Rightarrow>
        if rc < 0 then Some (Done (s, w)) else serve_loop net fd tick_ms (replicate 256 None) None s w)"
      using serve_loop_returns [OF assms(1-3)] by (auto split: prod.split)
  qed
  then show ?thesis
    by (simp add: serve_client_def s1(1))
qed

text \<open>The scripted socket is such a peer.\<close>

definition script_budget :: "script \<Rightarrow> nat" where
  "script_budget w = sum_list (map (\<lambda>a. case a of Ret bs \<Rightarrow> length bs | Fail _ \<Rightarrow> 0) (to_recv w)) + length (to_select w)"

lemma scripted_peer_finite: "peer_finite scripted fd log_rx script_budget"
  unfolding peer_finite_def
proof (intro conjI call_closed_scripted)
  show "reflp (\<lambda>w w'. script_budget w' + length (log_rx w') \<le> script_budget w + length (log_rx w))"
    by (simp add: reflp_def)
  show "transp (\<lambda>w w'. script_budget w' + length (log_rx w') \<le> script_budget w + length (log_rx w))"
    by (rule transpI) linarith
qed (auto simp: scripted_def scripted_recv_def scripted_send_def scripted_select_def script_budget_def
    split: list.split sys.split)

section \<open>Streams\<close>

lemma frames_unique:
  assumes "list_all is_frame fs" and "list_all is_frame gs" and "incomplete l" and "incomplete m"
    and "concat fs @ l = concat gs @ m"
  shows "fs = gs \<and> l = m"
  using assms
proof (induction fs arbitrary: gs)
  case Nil
  then show ?case
    by (cases gs) (auto simp: incomplete_def prefix_def)
next
  case (Cons f fs)
  show ?case
  proof (cases gs)
    case Nil
    then show ?thesis
      using Cons.prems by (auto simp: incomplete_def prefix_def)
  next
    case gs: (Cons g gs')
    have eq: "f @ concat fs @ l = g @ concat gs' @ m"
      using Cons.prems(5) gs by simp
    then have "f = g"
      using Cons.prems(1,2) gs frame_prefix by (auto simp: append_eq_append_conv2)
    then show ?thesis
      using Cons.IH [of gs'] Cons.prems eq gs by simp
  qed
qed

text \<open>The telecommands among the stimuli.\<close>

definition telecommands :: "stimulus list \<Rightarrow> u8 list list" where
  "telecommands xs = filter (\<lambda>bs. bs \<noteq> []) (map taken xs)"

lemma concat_telecommands: "concat (telecommands xs) = concat (map taken xs)"
  by (induction xs) (auto simp: telecommands_def)

lemma telecommands_frames: "list_all driver_stimulus xs \<Longrightarrow> list_all is_frame (telecommands xs)"
proof (induction xs)
  case (Cons x xs)
  then show ?case by (cases x) (auto simp: telecommands_def is_frame_def)
qed (simp add: telecommands_def)

section \<open>Properties\<close>

text \<open>
  C18: A session of the host runner refines the specification. Whatever a socket does within its
  contract, serving a client never reaches undefined behaviour; and when the session is over,
  the octets received are the frames handed to the application, in order, followed by less than
  a frame, and the octets sent are those the specification emits for these telecommands and
  some number of minor cycles between them, all of them unless the socket refuses an octet.
\<close>

theorem serve_client_refines:
  assumes "link_ok net fd rx tx" and "obsw_inv s"
  shows "serve_client net fd tick_ms s w \<noteq> Some Undefined \<and>
    (\<forall>s' w'. serve_client net fd tick_ms s w = Some (Done (s', w')) \<longrightarrow>
      (s = power_on \<or> reachable s \<longrightarrow> reachable s') \<and>
      (\<exists>xs left lost. list_all driver_stimulus xs \<and>
        rx w' = rx w @ concat (telecommands xs) @ left \<and> incomplete left \<and>
        tx w' @ lost = tx w @ fst (sp_session (Start # xs) (obsw_abs s)) \<and>
        (lost = [] \<longrightarrow> obsw_abs s' = snd (sp_session (Start # xs) (obsw_abs s))) \<and>
        (never_refuses net fd \<longrightarrow> lost = [])))"
proof (intro conjI allI impI)
  show "serve_client net fd tick_ms s w \<noteq> Some Undefined"
    using serve_client_safe [OF assms] by (rule safe_not_undefined)
  fix s' w'
  assume "serve_client net fd tick_ms s w = Some (Done (s', w'))"
  then have post: "client_post (never_refuses net fd) rx tx s w (s', w')"
    using serve_client_safe [OF assms, of tick_ms w] by (simp add: safe_def)
  then show "s = power_on \<or> reachable s \<Longrightarrow> reachable s'"
    by (simp add: client_post_def)
  show "\<exists>xs left lost. list_all driver_stimulus xs \<and>
        rx w' = rx w @ concat (telecommands xs) @ left \<and> incomplete left \<and>
        tx w' @ lost = tx w @ fst (sp_session (Start # xs) (obsw_abs s)) \<and>
        (lost = [] \<longrightarrow> obsw_abs s' = snd (sp_session (Start # xs) (obsw_abs s))) \<and>
        (never_refuses net fd \<longrightarrow> lost = [])"
    using post unfolding client_post_def concat_telecommands by simp
qed

text \<open>A client that sends a truncated header, after a timeout and an interruption.\<close>

definition example_script :: script where
  "example_script = \<lparr> to_recv = [Fail EINTR, Ret [0x18, 0x0C]], to_send = [Ret 3],
     to_select = [Ret 0, Fail EINTR], log_rx = [], log_tx = [] \<rparr>"

lemma serve_client_refines_witness:
  "\<exists>s' w' xs left lost. serve_client scripted 4 100 power_on example_script = Some (Done (s', w')) \<and>
     reachable s' \<and> log_rx w' = concat (telecommands xs) @ left \<and> incomplete left \<and>
     log_tx w' @ lost = fst (sp_session (Start # xs) (obsw_abs power_on))"
proof -
  have link: "link_ok scripted 4 log_rx log_tx"
    by (rule scripted_link_ok) simp_all
  have "returns (serve_client scripted 4 100 power_on example_script)"
    by (rule serve_client_returns [OF link scripted_interrupts_end scripted_peer_finite obsw_inv_power_on])
  then obtain r where r: "serve_client scripted 4 100 power_on example_script = Some r"
    by (auto simp: returns_def)
  moreover have "r \<noteq> Undefined"
    using serve_client_refines [OF link obsw_inv_power_on, of 100 example_script] r by auto
  ultimately obtain s' w' where "serve_client scripted 4 100 power_on example_script = Some (Done (s', w'))"
    by (cases r) auto
  moreover have "log_rx example_script = []" "log_tx example_script = []"
    by (simp_all add: example_script_def)
  ultimately show ?thesis
    using serve_client_refines [OF link obsw_inv_power_on, of 100 example_script] by fastforce
qed

text \<open>
  A session ends, and without undefined behaviour, when the peer sends finitely many octets,
  stays silent for finitely many timeouts and signals do not interrupt a call for ever.
\<close>

theorem serve_client_ends:
  assumes "link_ok net fd rx tx" and "interrupts_end net fd" and "peer_finite net fd rx budget" and "obsw_inv s"
  shows "\<exists>s' w'. serve_client net fd tick_ms s w = Some (Done (s', w')) \<and> obsw_inv s'"
proof (rule returns_safe_Done [OF serve_client_returns [OF assms] serve_client_safe [OF assms(1,4)]])
  fix x
  assume "serve_client net fd tick_ms s w = Some (Done x)" "client_post (never_refuses net fd) rx tx s w x"
  then show ?thesis
    by (cases x) (simp add: client_post_def)
qed

lemma serve_client_ends_witness:
  "\<exists>s' w'. serve_client scripted 4 100 power_on example_script = Some (Done (s', w')) \<and> obsw_inv s'"
  using scripted_link_ok [of 4]
  by (intro serve_client_ends [OF _ scripted_interrupts_end scripted_peer_finite obsw_inv_power_on]) simp

text \<open>
  C20: Framing. If the stream continues with a packet that is as long as its length field says and
  fits the buffer of 256 octets, then receiving a telecommand returns whatever the chunks are, and
  either delivers exactly that packet at the start of the buffer with its length, and takes
  nothing else from the stream, or reports that the stream broke off inside it. (A packet that
  does not fit is not discarded, see oversized_packet_not_discarded.)
\<close>

theorem receive_tc_frames:
  assumes "recv_ok net fd rx tx" and "interrupts_end net fd" and "length buf = 256"
    and "length p = announced p" and "length p \<le> 256"
  shows "\<exists>rc buf' out' w' c. receive_tc net fd buf 256 out w = Some (Done (rc, buf', out', w')) \<and>
    rx w' = rx w @ c \<and> tx w' = tx w \<and>
    (\<forall>stream. prefix c (p @ stream) \<longrightarrow>
      (if rc = 1 then c = p \<and> out' = Some (length p) \<and> take (length p) buf' = octets p
       else rc \<le> 0 \<and> strict_prefix c p))"
proof (rule returns_safe_Done [OF receive_tc_returns [OF assms(1,2)] receive_tc_safe [OF assms(1,3)]])
  have p: "is_frame p"
    using assms(4,5) announced_ge [of p] by (simp add: is_frame_def)
  fix x
  assume x: "receive_tc net fd buf 256 out w = Some (Done x)" "receive_post rx tx w x"
  obtain rc buf' out' w' where [simp]: "x = (rc, buf', out', w')"
    by (rule prod_cases4)
  obtain c where c: "rx w' = rx w @ c" "tx w' = tx w" "rc \<le> 1"
      "if rc \<le> 0 then incomplete c
       else is_frame c \<and> out' = Some (length c) \<and> (\<exists>rest. buf' = octets c @ rest)"
    using x(2) by (auto simp: receive_post_def)
  have "if rc = 1 then c = p \<and> out' = Some (length p) \<and> take (length p) buf' = octets p
       else rc \<le> 0 \<and> strict_prefix c p" if "prefix c (p @ stream)" for stream
  proof (cases "rc \<le> 0")
    case True
    then have "\<not> prefix p c"
      using c(4) p by (simp add: incomplete_def)
    moreover have "prefix c p \<or> prefix p c"
      using prefix_same_cases [OF that, of p] by simp
    ultimately show ?thesis
      using True by (auto simp: strict_prefix_def)
  next
    case False
    then have "is_frame c" "out' = Some (length c)" and buf: "\<exists>rest. buf' = octets c @ rest"
      using c(4) by simp_all
    moreover have "prefix c p \<or> prefix p c"
      using prefix_same_cases [OF that, of p] by simp
    ultimately have "c = p"
      using p frame_prefix by (auto simp: prefix_def)
    then show ?thesis
      using False c(3) \<open>out' = Some (length c)\<close> buf by auto
  qed
  then show ?thesis
    using x(1) c(1,2) by auto
qed

lemma receive_tc_frames_witness:
  "let p = [0x18, 0x0C, 0xC0, 0, 0, 1, 7, 7];
       w = \<lparr> to_recv = [Ret [0x18, 0x0C, 0xC0], Fail EINTR, Ret [0, 0, 1, 7, 7, 9]], to_send = [], to_select = [],
         log_rx = [], log_tx = [] \<rparr>
   in \<exists>rc buf' out' w' c. receive_tc scripted 4 (replicate 256 None) 256 None w = Some (Done (rc, buf', out', w')) \<and>
     log_rx w' = c \<and> (prefix c (p @ [9]) \<longrightarrow> rc = 1 \<longrightarrow> c = p)"
proof -
  let ?p = "[0x18, 0x0C, 0xC0, 0, 0, 1, 7, 7] :: u8 list"
  let ?w = "\<lparr> to_recv = [Ret [0x18, 0x0C, 0xC0], Fail EINTR, Ret [0, 0, 1, 7, 7, 9]], to_send = [], to_select = [],
         log_rx = [], log_tx = [] \<rparr> :: script"
  have p: "length ?p = announced ?p" "length ?p \<le> 256"
    by (simp_all add: announced_def of_be16_def)
  have link: "recv_ok scripted 4 log_rx log_tx"
    using scripted_link_ok [of 4] by (simp add: link_ok_def)
  have len: "length (replicate 256 None :: mem) = 256"
    by simp
  obtain rc buf' out' w' c where
    "receive_tc scripted 4 (replicate 256 None) 256 None ?w = Some (Done (rc, buf', out', w'))" "log_rx w' = log_rx ?w @ c"
    and frame: "\<forall>stream. prefix c (?p @ stream) \<longrightarrow>
      (if rc = 1 then c = ?p \<and> out' = Some (length ?p) \<and> take (length ?p) buf' = octets ?p
       else rc \<le> 0 \<and> strict_prefix c ?p)"
    using receive_tc_frames [OF link scripted_interrupts_end len p, of None ?w] by blast
  moreover have "prefix c (?p @ [9]) \<longrightarrow> rc = 1 \<longrightarrow> c = ?p"
    using spec [OF frame, of "[9]"] by presburger
  ultimately show ?thesis
    unfolding Let_def by (intro exI [of _ rc] exI [of _ buf'] exI [of _ out'] exI [of _ w'] exI [of _ c]) simp
qed

text \<open>
  Draining returns and never reaches undefined behaviour; it sends the queued packets octet
  for octet in the order of the queue and leaves the queue empty and the rest of the application
  as it was. It fails exactly when the socket refused an octet, and then a proper prefix of the
  queued octets was sent.
\<close>

theorem drain_downlink_order:
  assumes "link_ok net fd rx tx" and "interrupts_end net fd" and "obsw_inv s"
  shows "\<exists>rc s' w' lost. drain_downlink net fd s w = Some (Done (rc, s', w')) \<and> obsw_inv s' \<and>
    tx w' @ lost = tx w @ concat (map tm_encode (sp_queue (obsw_abs s))) \<and> rx w' = rx w \<and>
    (if rc = 0 then lost = [] \<and> obsw_abs s' = (obsw_abs s)\<lparr> sp_queue := [] \<rparr> else rc = -1 \<and> lost \<noteq> [])"
proof -
  have "returns (drain_downlink net fd s w)"
    unfolding drain_downlink_def using assms(2) by (rule drain_loop_returns)
  then obtain x where "drain_downlink net fd s w = Some (Done x)" "drain_post rx tx s w x"
    using drain_downlink_safe [OF assms(1,3)] by (rule returns_safe_Done)
  then show ?thesis
    by (cases x) (auto simp: drain_post_def wire_def)
qed

lemma drain_downlink_order_witness:
  "\<exists>rc s' w'. drain_downlink scripted 4 power_on example_script = Some (Done (rc, s', w')) \<and>
     log_rx w' = log_rx example_script"
  using drain_downlink_order [OF scripted_link_ok [of 4] scripted_interrupts_end obsw_inv_power_on, of example_script]
  by auto

text \<open>
  A packet whose length field announces more than the buffer holds is not discarded: only its
  header is. The octets behind it are read as the next packet, so a well-formed telecommand in
  the user data of such a packet reaches the application as a telecommand of its own.
\<close>

theorem oversized_packet_not_discarded:
  assumes "link_ok net fd rx tx" and "obsw_inv s"
    and "serve_client net fd tick_ms s w = Some (Done (s', w'))" and "rx w' = rx w @ h @ p"
    and "length h = 6" and "256 < announced h" and "is_frame p"
  shows "\<exists>xs lost. telecommands xs = [h, p] \<and>
    tx w' @ lost = tx w @ fst (sp_session (Start # xs) (obsw_abs s)) \<and>
    (lost = [] \<longrightarrow> obsw_abs s' = snd (sp_session (Start # xs) (obsw_abs s)))"
proof -
  have "client_post (never_refuses net fd) rx tx s w (s', w')"
    using serve_client_safe [OF assms(1,2), of tick_ms w] assms(3) by (simp add: safe_def)
  then obtain xs left lost where xs: "list_all driver_stimulus xs"
    and rx: "rx w' = rx w @ concat (telecommands xs) @ left" "incomplete left"
    and tx: "tx w' @ lost = tx w @ fst (sp_session (Start # xs) (obsw_abs s))"
      "lost = [] \<longrightarrow> obsw_abs s' = snd (sp_session (Start # xs) (obsw_abs s))"
    unfolding client_post_def concat_telecommands by auto
  have "is_frame h"
    using assms(5,6) by (simp add: is_frame_def)
  then have "telecommands xs = [h, p]"
    using frames_unique [OF telecommands_frames [OF xs], of "[h, p]" left "[]"] assms(4,7) rx by simp
  then show ?thesis
    using tx by blast
qed

end
