(* ===== verification/Sim_Main.thy ===== *)
theory Sim_Main
  imports Sim
begin

text \<open>
  The program around the sessions, \<open>main\<close> of \<open>sim/obc_sim.c\<close>: its options, the listening
  socket and the loop that serves one client after the other with the same application state.
  Output to the terminal is left out, and \<open>SIGPIPE\<close> is ignored by the program, so that a
  broken connection is an ordinary failure of \<open>send\<close>.
\<close>

section \<open>Options\<close>

text \<open>
  \<open>atoi\<close> of the C library: white space, a sign, decimal digits. The result is undefined (here
  \<open>None\<close>) when it does not fit an \<open>int\<close>.
\<close>

definition is_space :: "char \<Rightarrow> bool" where
  "is_space c \<longleftrightarrow> c = CHR '' '' \<or> 9 \<le> (of_char c :: nat) \<and> (of_char c :: nat) \<le> 13"

definition is_digit :: "char \<Rightarrow> bool" where
  "is_digit c \<longleftrightarrow> 48 \<le> (of_char c :: nat) \<and> (of_char c :: nat) \<le> 57"

definition decimal :: "string \<Rightarrow> int" where
  "decimal cs = foldl (\<lambda>n c. 10 * n + (of_char c - 48)) 0 (takeWhile is_digit cs)"

definition signed_decimal :: "string \<Rightarrow> int" where
  "signed_decimal cs =
     (case cs of
        [] \<Rightarrow> 0
      | c # cs' \<Rightarrow> if c = CHR ''-'' then - decimal cs' else if c = CHR ''+'' then decimal cs' else decimal cs)"

definition atoi :: "string \<Rightarrow> int option" where
  "atoi cs =
     (let v = signed_decimal (dropWhile is_space cs)
      in if - (2 ^ 31) \<le> v \<and> v < 2 ^ 31 then Some v else None)"

record sim_options =
  opt_port :: int
  opt_tick_ms :: u32
  opt_verbose :: bool

definition default_options :: sim_options where
  "default_options = \<lparr> opt_port = 12345, opt_tick_ms = OBC_TICK_PERIOD_MS, opt_verbose = True \<rparr>"

text \<open>The arguments after the program name; \<open>Done None\<close> is the usage message and exit code 2.\<close>

fun parse_args :: "string list \<Rightarrow> sim_options \<Rightarrow> sim_options option run" where
  "parse_args [] opts = Done (Some opts)"
| "parse_args (a # rest) opts =
     (if a = ''--port'' \<and> rest \<noteq> [] then
        (case atoi (hd rest) of
           None \<Rightarrow> Undefined
         | Some v \<Rightarrow> parse_args (tl rest) (opts\<lparr> opt_port := v \<rparr>))
      else if a = ''--tick-ms'' \<and> rest \<noteq> [] then
        (case atoi (hd rest) of
           None \<Rightarrow> Undefined
         | Some v \<Rightarrow> parse_args (tl rest) (opts\<lparr> opt_tick_ms := word_of_int v \<rparr>))
      else if a = ''--quiet'' then parse_args rest (opts\<lparr> opt_verbose := False \<rparr>)
      else Done None)"

section \<open>The server\<close>

datatype sockopt = SO_REUSEADDR | TCP_NODELAY

record 'w server =
  connection :: "'w posix"
  socket_call :: "'w \<Rightarrow> int sys \<times> 'w"
  setsockopt_call :: "int \<Rightarrow> sockopt \<Rightarrow> 'w \<Rightarrow> 'w"
  bind_call :: "int \<Rightarrow> u16 \<Rightarrow> 'w \<Rightarrow> unit sys \<times> 'w"
  listen_call :: "int \<Rightarrow> nat \<Rightarrow> 'w \<Rightarrow> unit sys \<times> 'w"
  accept_call :: "int \<Rightarrow> 'w \<Rightarrow> int sys \<times> 'w"
  close_call :: "int \<Rightarrow> 'w \<Rightarrow> 'w"

partial_function (option) accept_loop ::
    "'w server \<Rightarrow> int \<Rightarrow> u32 \<Rightarrow> obsw \<Rightarrow> 'w \<Rightarrow> (int \<times> obsw \<times> 'w) run option" where
  "accept_loop sv listen_fd tick_ms s w =
     (case accept_call sv listen_fd w of
        (Fail e, w) \<Rightarrow>
          if e = EINTR then accept_loop sv listen_fd tick_ms s w
          else Some (Done (0, s, close_call sv listen_fd w))
      | (Ret fd, w) \<Rightarrow>
          run_bind (serve_client (connection sv) fd tick_ms s (setsockopt_call sv fd TCP_NODELAY w))
            (\<lambda>(s, w). accept_loop sv listen_fd tick_ms s (close_call sv fd w)))"

definition sim_main :: "'w server \<Rightarrow> string list \<Rightarrow> obsw \<Rightarrow> 'w \<Rightarrow> (int \<times> obsw \<times> 'w) run option" where
  "sim_main sv args s w =
     (case parse_args args default_options of
        Undefined \<Rightarrow> Some Undefined
      | Done None \<Rightarrow> Some (Done (2, s, w))
      | Done (Some opts) \<Rightarrow>
          (case socket_call sv w of
             (Fail _, w) \<Rightarrow> Some (Done (1, s, w))
           | (Ret listen_fd, w) \<Rightarrow>
               (case bind_call sv listen_fd (word_of_int (opt_port opts))
                       (setsockopt_call sv listen_fd SO_REUSEADDR w) of
                  (Fail _, w) \<Rightarrow> Some (Done (1, s, close_call sv listen_fd w))
                | (Ret _, w) \<Rightarrow>
                    (case listen_call sv listen_fd 1 w of
                       (Fail _, w) \<Rightarrow> Some (Done (1, s, close_call sv listen_fd w))
                     | (Ret _, w) \<Rightarrow> accept_loop sv listen_fd (opt_tick_ms opts) s w))))"

text \<open>Every accepted descriptor is a socket within its contract.\<close>

definition server_ok :: "'w server \<Rightarrow> bool" where
  "server_ok sv \<longleftrightarrow> (\<forall>listen_fd w fd w'. accept_call sv listen_fd w = (Ret fd, w') \<longrightarrow>
     (\<exists>rx tx. link_ok (connection sv) fd rx tx))"

section \<open>Numbers of at most nine characters are in range\<close>

lemma foldl_decimal_bounds:
  "0 \<le> n \<Longrightarrow> list_all is_digit cs \<Longrightarrow>
   0 \<le> foldl (\<lambda>n c. 10 * n + (of_char c - 48)) n cs \<and>
   foldl (\<lambda>n c. 10 * n + (of_char c - 48)) (n :: int) cs < (n + 1) * 10 ^ length cs"
proof (induction cs arbitrary: n)
  case Nil
  then show ?case by simp
next
  case (Cons c cs)
  have "48 \<le> (of_char c :: nat)" "(of_char c :: nat) \<le> 57"
    using Cons.prems(2) by (simp_all add: is_digit_def)
  then have d: "48 \<le> (of_char c :: int)" "(of_char c :: int) \<le> 57"
    by (metis of_nat_le_iff of_nat_numeral of_nat_of_char)+
  let ?n = "10 * n + (of_char c - 48)"
  have ih: "0 \<le> foldl (\<lambda>n c. 10 * n + (of_char c - 48)) ?n cs \<and>
      foldl (\<lambda>n c. 10 * n + (of_char c - 48)) ?n cs < (?n + 1) * 10 ^ length cs"
    using Cons.prems d(1) by (intro Cons.IH) simp_all
  have "(10 * n + of_char c - 47) * 10 ^ length cs \<le> (10 * (n + 1)) * 10 ^ length cs"
    using d(2) by (intro mult_right_mono) simp_all
  also have "\<dots> = (n + 1) * (10 * 10 ^ length cs)"
    by (simp only: mult.assoc mult.left_commute)
  finally have le: "(10 * n + of_char c - 47) * 10 ^ length cs \<le> (n + 1) * (10 * 10 ^ length cs)" .
  have "foldl (\<lambda>n c. 10 * n + (of_char c - 48)) ?n cs < (10 * n + of_char c - 47) * 10 ^ length cs"
    using ih by simp
  from less_le_trans [OF this le] show ?case
    using ih by simp
qed

lemma decimal_bounds: "length cs \<le> 9 \<Longrightarrow> 0 \<le> decimal cs \<and> decimal cs < 10 ^ 9"
proof -
  assume "length cs \<le> 9"
  then have "length (takeWhile is_digit cs) \<le> 9"
    using length_takeWhile_le order_trans by blast
  then have "(10 :: int) ^ length (takeWhile is_digit cs) \<le> 10 ^ 9"
    by (intro power_increasing) simp_all
  moreover have "list_all is_digit (takeWhile is_digit cs)"
    by (auto simp: list_all_iff dest: set_takeWhileD)
  ultimately show ?thesis
    unfolding decimal_def using foldl_decimal_bounds [of 0 "takeWhile is_digit cs"] by simp
qed

lemma atoi_short:
  assumes "length cs \<le> 9"
  shows "\<exists>v. atoi cs = Some v \<and> \<bar>v\<bar> < 10 ^ 9"
proof -
  have "length (dropWhile is_space cs) \<le> 9"
    using assms length_dropWhile_le order_trans by blast
  then have "\<bar>signed_decimal (dropWhile is_space cs)\<bar> < 10 ^ 9"
    using decimal_bounds by (auto simp: signed_decimal_def split: list.splits)
  then show ?thesis
    by (simp add: atoi_def Let_def abs_if split: if_splits)
qed

lemma parse_args_defined:
  "\<forall>a \<in> set args. length a \<le> 9 \<Longrightarrow> \<exists>r. parse_args args opts = Done r"
proof (induction args opts rule: parse_args.induct)
  case (2 a rest opts)
  show ?case
  proof (cases rest)
    case Nil
    then show ?thesis by simp
  next
    case (Cons b rest')
    then obtain v where "atoi b = Some v"
      using 2(4) atoi_short [of b] by auto
    then show ?thesis
      using 2 Cons by auto
  qed
qed simp

section \<open>Where the options are undefined\<close>

definition takes_number :: "string \<Rightarrow> bool" where
  "takes_number a \<longleftrightarrow> a \<in> {''--port'', ''--tick-ms''}"

text \<open>After well-formed options, a number for \<open>--port\<close> or \<open>--tick-ms\<close> that does not fit an \<open>int\<close>.\<close>

definition number_out_of_range :: "string list \<Rightarrow> bool" where
  "number_out_of_range args \<longleftrightarrow>
     (\<exists>pre opt number post. args = pre @ opt # number # post \<and> takes_number opt \<and>
        (\<exists>opts. parse_args pre default_options = Done (Some opts)) \<and>
        signed_decimal (dropWhile is_space number) \<notin> {- (2 ^ 31)..<2 ^ 31})"

lemma atoi_None: "atoi cs = None \<longleftrightarrow> signed_decimal (dropWhile is_space cs) \<notin> {- (2 ^ 31)..<2 ^ 31}"
  by (auto simp: atoi_def Let_def)

text \<open>The parser, one option at a time.\<close>

definition with_option :: "string \<Rightarrow> int \<Rightarrow> sim_options \<Rightarrow> sim_options" where
  "with_option a v opts =
     (if a = ''--port'' then opts\<lparr> opt_port := v \<rparr> else opts\<lparr> opt_tick_ms := word_of_int v \<rparr>)"

lemma parse_args_number:
  "takes_number a \<Longrightarrow> parse_args (a # number # rest) opts =
     (case atoi number of None \<Rightarrow> Undefined | Some v \<Rightarrow> parse_args rest (with_option a v opts))"
  by (cases "a = ''--port''"; cases "atoi number") (simp_all add: takes_number_def with_option_def)

lemma parse_args_other:
  "\<not> takes_number a \<or> rest = [] \<Longrightarrow> parse_args (a # rest) opts =
     (if a = ''--quiet'' then parse_args rest (opts\<lparr> opt_verbose := False \<rparr>) else Done None)"
  by (cases "rest = []") (simp_all add: takes_number_def)

declare parse_args.simps(2) [simp del]

lemma options_cases:
  obtains "args = []" | a number rest where "args = a # number # rest" "takes_number a"
  | a rest where "args = a # rest" "\<not> takes_number a \<or> rest = []"
  by (cases args; cases "tl args"; cases "takes_number (hd args)") auto

lemma parse_args_append:
  "parse_args pre opts = Done (Some opts') \<Longrightarrow> parse_args (pre @ args) opts = parse_args args opts'"
proof (induction pre arbitrary: opts rule: length_induct)
  case (1 pre)
  have IH: "parse_args rest o' = Done (Some opts') \<Longrightarrow> parse_args (rest @ args) o' = parse_args args opts'"
    if "length rest < length pre" for rest o'
    using "1.IH" that by blast
  show ?case
  proof (cases rule: options_cases [of pre])
    case 1
    then show ?thesis
      using "1.prems" by simp
  next
    case (2 a number rest)
    then obtain v where "atoi number = Some v" "parse_args rest (with_option a v opts) = Done (Some opts')"
      using "1.prems" by (auto simp: parse_args_number split: option.splits)
    then show ?thesis
      using IH [of rest] 2 by (simp add: parse_args_number)
  next
    case (3 a rest)
    then have quiet: "a = ''--quiet''" "parse_args rest (opts\<lparr> opt_verbose := False \<rparr>) = Done (Some opts')"
      using "1.prems" by (simp_all add: parse_args_other split: if_splits)
    moreover have "\<not> takes_number a"
      unfolding quiet(1) by (simp add: takes_number_def)
    ultimately show ?thesis
      using IH [of rest] 3 by (simp add: parse_args_other)
  qed
qed

lemma parse_args_undefined_at:
  "parse_args args opts = Undefined \<Longrightarrow>
   \<exists>pre opt number post opts'. args = pre @ opt # number # post \<and> takes_number opt \<and>
     parse_args pre opts = Done (Some opts') \<and> atoi number = None"
proof (induction args arbitrary: opts rule: length_induct)
  case (1 args)
  have IH: "parse_args rest o' = Undefined \<Longrightarrow>
      \<exists>pre opt number post opts'. rest = pre @ opt # number # post \<and> takes_number opt \<and>
        parse_args pre o' = Done (Some opts') \<and> atoi number = None"
    if "length rest < length args" for rest o'
    using "1.IH" that by blast
  show ?case
  proof (cases rule: options_cases [of args])
    case 1
    then show ?thesis
      using "1.prems" by simp
  next
    case (2 a number rest)
    show ?thesis
    proof (cases "atoi number")
      case None
      then show ?thesis
        using 2 by (intro exI [of _ "[]"] exI [of _ a] exI [of _ number] exI [of _ rest] exI [of _ opts]) simp
    next
      case (Some v)
      then have "parse_args rest (with_option a v opts) = Undefined"
        using "1.prems" 2 by (simp add: parse_args_number)
      from IH [OF _ this] obtain pre opt n post opts' where "rest = pre @ opt # n # post" "takes_number opt"
          "parse_args pre (with_option a v opts) = Done (Some opts')" "atoi n = None"
        unfolding 2(1) by fastforce
      then show ?thesis
        using 2 Some by (intro exI [of _ "a # number # pre"] exI [of _ opt] exI [of _ n] exI [of _ post] exI [of _ opts']) (simp add: parse_args_number)
    qed
  next
    case (3 a rest)
    then have quiet: "a = ''--quiet''" "parse_args rest (opts\<lparr> opt_verbose := False \<rparr>) = Undefined"
      using "1.prems" by (simp_all add: parse_args_other split: if_splits)
    from IH [OF _ this(2)] obtain pre opt n post opts' where "rest = pre @ opt # n # post" "takes_number opt"
        "parse_args pre (opts\<lparr> opt_verbose := False \<rparr>) = Done (Some opts')" "atoi n = None"
      unfolding 3(1) by fastforce
    moreover have "\<not> takes_number a"
      unfolding quiet(1) by (simp add: takes_number_def)
    ultimately show ?thesis
      using 3 quiet(1) by (intro exI [of _ "a # pre"] exI [of _ opt] exI [of _ n] exI [of _ post] exI [of _ opts']) (simp add: parse_args_other)
  qed
qed

lemma parse_args_undefined: "parse_args args default_options = Undefined \<longleftrightarrow> number_out_of_range args"
proof
  assume "parse_args args default_options = Undefined"
  from parse_args_undefined_at [OF this] show "number_out_of_range args"
    unfolding number_out_of_range_def atoi_None by (elim exE conjE) (intro exI conjI)
next
  assume "number_out_of_range args"
  then obtain pre opt number post opts where a: "args = pre @ opt # number # post" "takes_number opt"
      "parse_args pre default_options = Done (Some opts)" "atoi number = None"
    unfolding number_out_of_range_def atoi_None [symmetric] by (elim exE conjE) (rule that)
  show "parse_args args default_options = Undefined"
    unfolding a(1) parse_args_append [OF a(3)] using a(2,4) by (simp add: parse_args_number)
qed

lemma short_arguments_in_range: "\<forall>a \<in> set args. length a \<le> 9 \<Longrightarrow> \<not> number_out_of_range args"
  using parse_args_defined [of args default_options] unfolding parse_args_undefined [symmetric] by auto

section \<open>Safety of the server\<close>

definition main_post :: "obsw \<Rightarrow> int \<times> obsw \<times> 'w \<Rightarrow> bool" where
  "main_post s x = (case x of (rc, s', w') \<Rightarrow>
     rc \<in> {0, 1, 2} \<and> obsw_inv s' \<and> (s = power_on \<or> reachable s \<longrightarrow> s' = power_on \<or> reachable s') \<and>
     (rc \<noteq> 0 \<longrightarrow> s' = s))"

definition accept_post :: "obsw \<Rightarrow> int \<times> obsw \<times> 'w \<Rightarrow> bool" where
  "accept_post s x = (case x of (rc, s', w') \<Rightarrow>
     rc = 0 \<and> obsw_inv s' \<and> (s = power_on \<or> reachable s \<longrightarrow> s' = power_on \<or> reachable s'))"

lemma accept_loop_safe:
  assumes "server_ok sv" and "obsw_inv s"
  shows "safe (accept_loop sv listen_fd tick_ms s w) (accept_post s)"
proof -
  let ?P = "\<lambda>sv (listen_fd :: int) (tick_ms :: u32) s w r. server_ok sv \<longrightarrow> obsw_inv s \<longrightarrow>
    safe (Some r) (accept_post s)"
  have "?P sv listen_fd tick_ms s w r" if "accept_loop sv listen_fd tick_ms s w = Some r" for r
  proof (rule accept_loop.raw_induct [where P = ?P, OF _ that], intro impI)
    fix f sv listen_fd tick_ms s w r
    assume rec: "\<And>sv listen_fd tick_ms s w r. f sv listen_fd tick_ms s w = Some r \<Longrightarrow> ?P sv listen_fd tick_ms s w r"
      and body: "(case accept_call sv listen_fd w of
          (Fail e, w) \<Rightarrow>
            if e = EINTR then f sv listen_fd tick_ms s w
            else Some (Done (0, s, close_call sv listen_fd w))
        | (Ret fd, w) \<Rightarrow>
            run_bind (serve_client (connection sv) fd tick_ms s (setsockopt_call sv fd TCP_NODELAY w))
              (\<lambda>(s, w). f sv listen_fd tick_ms s (close_call sv fd w))) = Some r"
      and sv: "server_ok sv" and inv: "obsw_inv s"
    have f: "safe (f sv listen_fd tick_ms s w) (accept_post s)" if "obsw_inv s" for s w
      using rec sv that by (auto simp: safe_def)
    obtain ans w1 where acc: "accept_call sv listen_fd w = (ans, w1)"
      by fastforce
    show "safe (Some r) (accept_post s)"
    proof (cases ans)
      case (Fail e)
      then show ?thesis
        using body acc f [OF inv, of w1] inv by (auto simp: accept_post_def split: if_splits)
    next
      case (Ret fd)
      obtain rx tx where link: "link_ok (connection sv) fd rx tx"
        using sv acc Ret unfolding server_ok_def by blast
      have "safe (run_bind (serve_client (connection sv) fd tick_ms s (setsockopt_call sv fd TCP_NODELAY w1))
          (\<lambda>(s, w). f sv listen_fd tick_ms s (close_call sv fd w))) (accept_post s)"
      proof (rule safe_bind [OF serve_client_safe [OF link inv]], clarify)
        fix s1 w2
        assume "client_post (never_refuses (connection sv) fd) rx tx s (setsockopt_call sv fd TCP_NODELAY w1) (s1, w2)"
        then have s1: "obsw_inv s1" "s = power_on \<or> reachable s \<longrightarrow> reachable s1"
          by (simp_all add: client_post_def)
        show "safe (f sv listen_fd tick_ms s1 (close_call sv fd w2)) (accept_post s)"
          by (rule safe_mono [OF f [OF s1(1)]]) (use s1(2) in \<open>auto simp: accept_post_def\<close>)
      qed
      then show ?thesis
        using body acc Ret by simp
    qed
  qed
  then show ?thesis
    using assms by (auto simp: safe_def)
qed

section \<open>Properties\<close>

text \<open>
  C38: Where the program is undefined. Whatever the network does within its contract, and however many
  clients are served one after the other, the program reaches undefined behaviour exactly when
  its command line gives a port or a tick length that does not fit an int: atoi is undefined
  there, and the program does not check. With any other command line it never does; when it
  exits, its code is 0, 1 or 2, and the application was left in a reachable state, untouched when
  the code is not 0.
\<close>

theorem sim_main_undefined_iff:
  assumes "server_ok sv"
  shows "(sim_main sv args power_on w = Some Undefined \<longleftrightarrow> number_out_of_range args) \<and>
    (\<forall>rc s' w'. sim_main sv args power_on w = Some (Done (rc, s', w')) \<longrightarrow>
      rc \<in> {0, 1, 2} \<and> (s' = power_on \<or> reachable s') \<and> (rc \<noteq> 0 \<longrightarrow> s' = power_on))"
proof (cases "parse_args args default_options")
  case Undefined
  then show ?thesis
    by (simp add: sim_main_def flip: parse_args_undefined)
next
  case (Done p)
  have loop: "safe (accept_loop sv listen_fd tick_ms power_on w) (main_post power_on)" for listen_fd tick_ms w
    by (rule safe_mono [OF accept_loop_safe [OF assms obsw_inv_power_on]])
      (auto simp: accept_post_def main_post_def)
  have "safe (sim_main sv args power_on w) (main_post power_on)"
    using loop obsw_inv_power_on unfolding sim_main_def Done
    by (auto simp: main_post_def split: option.split prod.split sys.split)
  moreover have "\<not> number_out_of_range args"
    using Done by (simp flip: parse_args_undefined)
  ultimately show ?thesis
    by (auto simp: safe_def main_post_def)
qed

text \<open>A server whose only client is the example script.\<close>

definition scripted_server :: "script server" where
  "scripted_server = \<lparr> connection = scripted, socket_call = \<lambda>w. (Ret 3, w),
     setsockopt_call = \<lambda>fd opt w. w, bind_call = \<lambda>fd port w. (Ret (), w),
     listen_call = \<lambda>fd n w. (Ret (), w),
     accept_call = \<lambda>fd w. (if to_recv w = [] then Fail (Errno 22) else Ret 4, w),
     close_call = \<lambda>fd w. w \<rparr>"

lemma scripted_server_ok: "server_ok scripted_server"
  using scripted_link_ok [of 4] by (auto simp: server_ok_def scripted_server_def)

lemma sim_main_undefined_iff_witness:
  "sim_main scripted_server [''--tick-ms'', ''50'', ''--quiet''] power_on example_script \<noteq> Some Undefined \<and>
   sim_main scripted_server [''--quiet'', ''--port'', ''99999999999''] power_on example_script = Some Undefined"
proof
  have "\<not> number_out_of_range [''--tick-ms'', ''50'', ''--quiet'']"
    by (rule short_arguments_in_range) simp
  then show "sim_main scripted_server [''--tick-ms'', ''50'', ''--quiet''] power_on example_script \<noteq> Some Undefined"
    using sim_main_undefined_iff [OF scripted_server_ok] by blast
  have "parse_args [''--quiet'', ''--port'', ''99999999999''] default_options = Undefined"
    by code_simp
  then show "sim_main scripted_server [''--quiet'', ''--port'', ''99999999999''] power_on example_script = Some Undefined"
    using sim_main_undefined_iff [OF scripted_server_ok] unfolding parse_args_undefined by blast
qed

end
