(* ===== verification/Gsw_Packets.thy ===== *)
theory Gsw_Packets
  imports Pus_Tc Pus_Tm
begin

text \<open>
  The packet layer of the Python ground segment, \<open>tests/integration/gsw/packets.py\<close>, which was
  written from the interface document and not from the flight code: the checksum, the
  telecommand encoder \<open>build_tc\<close> and the telemetry decoder \<open>parse_tm\<close>. A Python integer is an
  \<open>int\<close>, without a width; a \<open>bytes\<close> object is a list of octets; an exception is the left
  injection of its class, without its message text. The theorems say that the two independent
  implementations of the packet formats agree.
\<close>

section \<open>Python values\<close>

datatype py_error = ValueError | OverflowError | IndexError | StructError

type_synonym 'a py = "py_error + 'a"

definition py_bind :: "'a py \<Rightarrow> ('a \<Rightarrow> 'b py) \<Rightarrow> 'b py" where
  "py_bind m f = (case m of Inl e \<Rightarrow> Inl e | Inr x \<Rightarrow> f x)"

lemma py_bind_simps [simp]: "py_bind (Inl e) f = Inl e" "py_bind (Inr x) f = f x"
  by (simp_all add: py_bind_def)

text \<open>\<open>xs[i]\<close> and the slice \<open>xs[i:j]\<close>; a negative bound counts from the end.\<close>

definition py_position :: "'a list \<Rightarrow> int \<Rightarrow> int" where
  "py_position xs i = (if i < 0 then i + int (length xs) else i)"

definition py_index :: "'a list \<Rightarrow> int \<Rightarrow> 'a py" where
  "py_index xs i =
     (let k = py_position xs i
      in if 0 \<le> k \<and> k < int (length xs) then Inr (xs ! nat k) else Inl IndexError)"

definition py_slice :: "'a list \<Rightarrow> int \<Rightarrow> int \<Rightarrow> 'a list" where
  "py_slice xs i j =
     (let a = nat (py_position xs i); b = nat (py_position xs j) in take (b - a) (drop a xs))"

text \<open>\<open>bytearray.append(v)\<close>, \<open>v.to_bytes(n, "big")\<close> and \<open>int.from_bytes(bs, "big")\<close>.\<close>

definition py_append :: "u8 list \<Rightarrow> int \<Rightarrow> u8 list py" where
  "py_append bs v = (if 0 \<le> v \<and> v < 256 then Inr (bs @ [word_of_int v]) else Inl ValueError)"

primrec be_octets :: "nat \<Rightarrow> int \<Rightarrow> u8 list" where
  "be_octets 0 v = []"
| "be_octets (Suc n) v = be_octets n (v div 256) @ [word_of_int v]"

definition to_bytes :: "nat \<Rightarrow> int \<Rightarrow> u8 list py" where
  "to_bytes n v = (if 0 \<le> v \<and> v < 256 ^ n then Inr (be_octets n v) else Inl OverflowError)"

definition from_bytes :: "u8 list \<Rightarrow> int" where
  "from_bytes bs = foldl (\<lambda>v b. v * 256 + uint b) 0 bs"

section \<open>The code\<close>

abbreviation (input) GSW_APID :: int where "GSW_APID \<equiv> 0x00C"
abbreviation (input) GSW_PUS_VERSION_C :: int where "GSW_PUS_VERSION_C \<equiv> 2"
abbreviation (input) GSW_PRIMARY_HEADER_LEN :: int where "GSW_PRIMARY_HEADER_LEN \<equiv> 6"
abbreviation (input) GSW_TC_SEC_HEADER_LEN :: int where "GSW_TC_SEC_HEADER_LEN \<equiv> 5"
abbreviation (input) GSW_TM_SEC_HEADER_LEN :: int where "GSW_TM_SEC_HEADER_LEN \<equiv> 13"
abbreviation (input) GSW_CRC_LEN :: int where "GSW_CRC_LEN \<equiv> 2"
abbreviation (input) GSW_SEQ_FLAG_UNSEGMENTED :: int where "GSW_SEQ_FLAG_UNSEGMENTED \<equiv> 3"
abbreviation (input) GSW_ACK_ACCEPTANCE :: int where "GSW_ACK_ACCEPTANCE \<equiv> 0x1"
abbreviation (input) GSW_ACK_COMPLETION :: int where "GSW_ACK_COMPLETION \<equiv> 0x8"

text \<open>The body of the inner loop, the inner loop with \<open>n\<close> turns left, and the checksum.\<close>

definition gsw_crc_shift :: "int \<Rightarrow> int" where
  "gsw_crc_shift crc =
     (if crc AND 0x8000 \<noteq> 0 then (push_bit 1 crc XOR 0x1021) AND 0xFFFF else push_bit 1 crc AND 0xFFFF)"

primrec gsw_crc_shifts :: "nat \<Rightarrow> int \<Rightarrow> int" where
  "gsw_crc_shifts 0 crc = crc"
| "gsw_crc_shifts (Suc n) crc = gsw_crc_shifts n (gsw_crc_shift crc)"

definition gsw_crc16_ccitt :: "u8 list \<Rightarrow> int" where
  "gsw_crc16_ccitt bs = foldl (\<lambda>crc b. gsw_crc_shifts 8 (crc XOR push_bit 8 (uint b))) 0xFFFF bs"

text \<open>The parameters of \<open>build_tc\<close>; those with a default in the source have it in \<open>tc_call\<close>.\<close>

record tc_args =
  a_service :: int
  a_subtype :: int
  a_data :: "u8 list"
  a_ack :: int
  a_seq_count :: int
  a_apid :: int
  a_source_id :: int
  a_pus_version :: int
  a_ccsds_version :: int
  a_packet_type :: int
  a_sec_hdr_flag :: int
  a_declared_length :: "int option"
  a_valid_crc :: bool

definition tc_call :: "int \<Rightarrow> int \<Rightarrow> u8 list \<Rightarrow> tc_args" where
  "tc_call service subtype data = \<lparr>
     a_service = service, a_subtype = subtype, a_data = data,
     a_ack = GSW_ACK_ACCEPTANCE OR GSW_ACK_COMPLETION, a_seq_count = 0, a_apid = GSW_APID,
     a_source_id = 0x0101, a_pus_version = GSW_PUS_VERSION_C, a_ccsds_version = 0,
     a_packet_type = 1, a_sec_hdr_flag = 1, a_declared_length = None, a_valid_crc = True \<rparr>"

definition build_tc :: "tc_args \<Rightarrow> u8 list py" where
  "build_tc a =
     py_bind (py_append [] (push_bit 4 (a_pus_version a AND 0x0F) OR (a_ack a AND 0x0F))) (\<lambda>body.
     py_bind (py_append body (a_service a AND 0xFF)) (\<lambda>body.
     py_bind (py_append body (a_subtype a AND 0xFF)) (\<lambda>body.
     py_bind (to_bytes 2 (a_source_id a)) (\<lambda>src.
       let body = body @ src;
           body = body @ a_data a;
           total = GSW_PRIMARY_HEADER_LEN + int (length body) + GSW_CRC_LEN;
           length_field = (case a_declared_length a of
             None \<Rightarrow> total - GSW_PRIMARY_HEADER_LEN - 1 | Some n \<Rightarrow> n);
           word0 = push_bit 13 (a_ccsds_version a AND 0x07) OR push_bit 12 (a_packet_type a AND 0x01) OR
             push_bit 11 (a_sec_hdr_flag a AND 0x01) OR (a_apid a AND 0x07FF);
           word1 = push_bit 14 GSW_SEQ_FLAG_UNSEGMENTED OR (a_seq_count a AND 0x3FFF)
       in
       py_bind (to_bytes 2 word0) (\<lambda>w0.
       py_bind (to_bytes 2 word1) (\<lambda>w1.
       py_bind (to_bytes 2 (length_field AND 0xFFFF)) (\<lambda>dl.
         let packet = w0 @ w1 @ dl @ body;
             crc = gsw_crc16_ccitt packet;
             crc = (if \<not> a_valid_crc a then crc XOR 0x0001 else crc)
         in py_bind (to_bytes 2 crc) (\<lambda>trailer. Inr (packet @ trailer)))))))))"

record tm_packet =
  p_apid :: int
  p_seq_count :: int
  p_service :: int
  p_subtype :: int
  p_msg_counter :: int
  p_destination_id :: int
  p_time_coarse :: int
  p_time_fine :: int
  p_data :: "u8 list"
  p_raw :: "u8 list"

text \<open>The properties \<open>request_id\<close>, \<open>failure_code\<close>, \<open>event_id\<close> and \<open>event_aux\<close> of a packet.\<close>

definition p_request_id :: "tm_packet \<Rightarrow> int" where
  "p_request_id p = from_bytes (py_slice (p_data p) 0 4)"

definition p_failure_code :: "tm_packet \<Rightarrow> int" where
  "p_failure_code p = from_bytes (py_slice (p_data p) 4 6)"

definition p_event_id :: "tm_packet \<Rightarrow> int" where
  "p_event_id p = from_bytes (py_slice (p_data p) 0 2)"

definition p_event_aux :: "tm_packet \<Rightarrow> int" where
  "p_event_aux p = from_bytes (py_slice (p_data p) 2 4)"

definition parse_tm :: "u8 list \<Rightarrow> tm_packet py" where
  "parse_tm raw =
     (if int (length raw) < GSW_PRIMARY_HEADER_LEN + GSW_TM_SEC_HEADER_LEN + GSW_CRC_LEN then Inl ValueError
      else
        let word0 = from_bytes (py_slice raw 0 2);
            word1 = from_bytes (py_slice raw 2 4);
            length_field = from_bytes (py_slice raw 4 6)
        in
        if drop_bit 12 word0 AND 0x01 \<noteq> 0 then Inl ValueError
        else if GSW_PRIMARY_HEADER_LEN + length_field + 1 \<noteq> int (length raw) then Inl ValueError
        else if gsw_crc16_ccitt (py_slice raw 0 (- GSW_CRC_LEN)) \<noteq>
            from_bytes (py_slice raw (- GSW_CRC_LEN) (int (length raw))) then Inl ValueError
        else
          let off = GSW_PRIMARY_HEADER_LEN in
          py_bind (py_index raw off) (\<lambda>b.
            if drop_bit 4 (uint b) AND 0x0F \<noteq> GSW_PUS_VERSION_C then Inl ValueError
            else
              py_bind (py_index raw (off + 1)) (\<lambda>svc.
              py_bind (py_index raw (off + 2)) (\<lambda>sub.
                Inr \<lparr> p_apid = word0 AND 0x07FF, p_seq_count = word1 AND 0x3FFF,
                  p_service = uint svc, p_subtype = uint sub,
                  p_msg_counter = from_bytes (py_slice raw (off + 3) (off + 5)),
                  p_destination_id = from_bytes (py_slice raw (off + 5) (off + 7)),
                  p_time_coarse = from_bytes (py_slice raw (off + 7) (off + 11)),
                  p_time_fine = from_bytes (py_slice raw (off + 11) (off + 13)),
                  p_data = py_slice raw (off + GSW_TM_SEC_HEADER_LEN) (- GSW_CRC_LEN),
                  p_raw = raw \<rparr>))))"

section \<open>Python integers and words\<close>

lemma int_mask_consts:
  "(0x01 :: int) = mask 1" "(0x07 :: int) = mask 3" "(0x0F :: int) = mask 4" "(0xFF :: int) = mask 8"
  "(0x07FF :: int) = mask 11" "(0x3FFF :: int) = mask 14" "(0xFFFF :: int) = mask 16"
  by (simp_all add: mask_numeral)

lemma uint_word_of_int_small:
  "0 \<le> k \<Longrightarrow> k < 2 ^ LENGTH('a) \<Longrightarrow> uint (word_of_int k :: 'a::len word) = k"
  by (simp add: unsigned_of_int take_bit_eq_mod)

lemma be_octets_uint16: "be_octets 2 (uint w) = be16 w" for w :: u16
proof -
  have "uint w div 256 = uint (drop_bit 8 w)"
    by (simp add: drop_bit_eq_div uint_div_distrib)
  then show ?thesis
    by (simp only: numeral_2_eq_2 be_octets.simps be16_def) simp
qed

lemma to_bytes_uint16: "to_bytes 2 (uint w) = Inr (be16 w)" for w :: u16
  using unsigned_less [where 'a = int, of w]
  by (simp add: to_bytes_def be_octets_uint16)

lemma from_bytes_Nil [simp]: "from_bytes [] = 0"
  by (simp add: from_bytes_def)

lemma from_bytes_snoc [simp]: "from_bytes (bs @ [b]) = from_bytes bs * 256 + uint b"
  by (simp add: from_bytes_def)

text \<open>Two adjacent fields are read as the sum of their values.\<close>

lemma uint_adjacent:
  fixes x :: "'a::len word" and y :: "'b::len word"
  assumes "LENGTH('a) + LENGTH('b) \<le> LENGTH('c)"
  shows "uint (push_bit LENGTH('b) (ucast x) OR ucast y :: 'c::len word) = uint x * 2 ^ LENGTH('b) + uint y"
proof -
  have "uint (push_bit LENGTH('b) (ucast x) OR ucast y :: 'c word) = concat_bit LENGTH('b) (uint y) (uint x)"
    using assms bit_imp_le_length [of x] bit_imp_le_length [of y]
    by (intro bit_eqI) (fastforce simp: bit_simps bit_concat_bit_iff)
  moreover have "take_bit LENGTH('b) (uint y) = uint y"
    using unsigned_less [where 'a = int, of y] by (intro take_bit_int_eq_self) simp_all
  ultimately show ?thesis
    by (simp only: concat_bit_eq push_bit_eq_mult add.commute)
qed

lemma from_bytes_be16: "from_bytes [a, b] = uint (of_be16 a b)"
  using uint_adjacent [where 'c = 16, of a b] by (simp add: from_bytes_def of_be16_def)

lemma from_bytes_be32: "from_bytes [a, b, c, d] = uint (of_be32 a b c d)"
proof -
  have "of_be32 a b c d = push_bit 16 (ucast (of_be16 a b)) OR ucast (of_be16 c d)"
  proof (unfold of_be32_def of_be16_def, rule bit_word_eqI)
    fix n
    assume "n < LENGTH(32)"
    then consider "n < 8" | "8 \<le> n" "n < 16" | "16 \<le> n" "n < 24" | "24 \<le> n" "n < 32"
      by force
    then show "bit (push_bit 24 (ucast a) OR push_bit 16 (ucast b) OR push_bit 8 (ucast c) OR ucast d :: u32) n
        = bit (push_bit 16 (ucast (push_bit 8 (ucast a) OR ucast b :: u16))
            OR ucast (push_bit 8 (ucast c) OR ucast d :: u16) :: u32) n"
      using bit_imp_le_length [of b "n - 16"] bit_imp_le_length [of c "n - 8"] bit_imp_le_length [of d n]
      by cases (auto simp: bit_simps)
  qed
  then have "uint (of_be32 a b c d) = uint (of_be16 a b) * 65536 + uint (of_be16 c d)"
    using uint_adjacent [where 'c = 32, of "of_be16 a b" "of_be16 c d"] by simp
  then show ?thesis
    unfolding from_bytes_be16 [symmetric] by (simp add: from_bytes_def)
qed

lemma gsw_crc_shift_uint: "gsw_crc_shift (uint c) = uint (crc_shift c)"
proof -
  have t: "x AND 0xFFFF = take_bit 16 x" for x :: int
    by (simp add: take_bit_eq_mask mask_numeral)
  have "uint (c AND 0x8000) = uint c AND 0x8000"
    by (simp add: unsigned_and_eq)
  then have "uint c AND 0x8000 \<noteq> 0 \<longleftrightarrow> c AND 0x8000 \<noteq> 0"
    by (metis uint_0_iff)
  moreover have "take_bit 16 (push_bit 1 (uint c) XOR 0x1021) = uint (push_bit 1 c XOR 0x1021)"
    by (simp add: unsigned_xor_eq unsigned_push_bit_eq take_bit_xor del: push_bit_Suc push_bit_of_1 One_nat_def)
  ultimately show ?thesis
    by (simp only: gsw_crc_shift_def crc_shift_def t unsigned_push_bit_eq if_distrib [of uint]) simp
qed

lemma gsw_crc_shifts_uint: "gsw_crc_shifts n (uint c) = uint (crc_shifts n c)"
  by (induction n arbitrary: c) (simp_all add: gsw_crc_shift_uint)


lemma uint_push_8: "push_bit 8 (uint b) = uint (push_bit 8 (ucast b) :: u16)" for b :: u8
proof -
  have "uint (push_bit 8 (ucast b) :: u16) = take_bit 16 (push_bit 8 (uint b))"
    by (simp only: unsigned_push_bit_eq) (simp add: unsigned_ucast_eq take_bit_push_bit)
  also have "\<dots> = push_bit 8 (uint b)"
    using unsigned_less [where 'a = int, of b] by (simp add: take_bit_int_eq_self push_bit_eq_mult)
  finally show ?thesis ..
qed

lemma gsw_crc_uint: "gsw_crc16_ccitt bs = uint (crc16 bs)"
proof -
  have "foldl (\<lambda>crc b. gsw_crc_shifts 8 (crc XOR push_bit 8 (uint b))) (uint c) bs = uint (crc_from c bs)" for c
    by (induction bs arbitrary: c)
       (simp_all add: crc_from_Cons crc_octet_def gsw_crc_shifts_uint uint_push_8 del: gsw_crc_shifts.simps push_bit_Suc
         flip: unsigned_xor_eq)
  from this [of CRC16_SEED] show ?thesis
    by (simp add: gsw_crc16_ccitt_def)
qed

text \<open>Slices with bounds inside the string.\<close>

lemma py_slice_from_start:
  "0 \<le> i \<Longrightarrow> 0 \<le> j \<Longrightarrow> py_slice xs i j = take (nat j - nat i) (drop (nat i) xs)"
  by (simp add: py_slice_def py_position_def Let_def)

lemma py_slice_to_end:
  "0 \<le> i \<Longrightarrow> 0 < k \<Longrightarrow> k \<le> int (length xs) \<Longrightarrow>
   py_slice xs i (- k) = take (length xs - nat k - nat i) (drop (nat i) xs)"
  by (simp add: py_slice_def py_position_def Let_def nat_diff_distrib' add.commute [of "- k"])

lemma py_slice_last:
  "0 < k \<Longrightarrow> k \<le> int (length xs) \<Longrightarrow> py_slice xs (- k) (int (length xs)) = drop (length xs - nat k) xs"
  by (simp add: py_slice_def py_position_def Let_def nat_diff_distrib' add.commute [of "- k"])

lemma take_2_drop: "i + 2 \<le> length xs \<Longrightarrow> take 2 (drop i xs) = [xs ! i, xs ! (i + 1)]"
  by (intro nth_equalityI) (auto simp: less_2_cases_iff)

lemma take_4_drop:
  "i + 4 \<le> length xs \<Longrightarrow> take 4 (drop i xs) = [xs ! i, xs ! (i + 1), xs ! (i + 2), xs ! (i + 3)]"
  by (intro nth_equalityI) (auto simp: less_Suc_eq numeral_eq_Suc nth_Cons split: nat.splits)

lemma py_index_in: "0 \<le> i \<Longrightarrow> i < int (length xs) \<Longrightarrow> py_index xs i = Inr (xs ! nat i)"
  by (simp add: py_index_def py_position_def Let_def)

section \<open>The telemetry decoder\<close>

text \<open>The packets it accepts, and the fields it returns, by the header of the flight code.\<close>

definition tm_wellformed :: "u8 list \<Rightarrow> bool" where
  "tm_wellformed bs \<longleftrightarrow>
     21 \<le> length bs \<and> length bs = 7 + unat (data_length (header_of bs)) \<and> crc16 bs = 0 \<and>
     packet_type (header_of bs) = 0 \<and> drop_bit 4 (bs ! 6) = 2"

definition tm_fields :: "u8 list \<Rightarrow> tm_packet" where
  "tm_fields bs = \<lparr>
     p_apid = uint (apid (header_of bs)), p_seq_count = uint (seq_count (header_of bs)),
     p_service = uint (bs ! 7), p_subtype = uint (bs ! 8),
     p_msg_counter = uint (of_be16 (bs ! 9) (bs ! 10)),
     p_destination_id = uint (of_be16 (bs ! 11) (bs ! 12)),
     p_time_coarse = uint (of_be32 (bs ! 13) (bs ! 14) (bs ! 15) (bs ! 16)),
     p_time_fine = uint (of_be16 (bs ! 17) (bs ! 18)),
     p_data = take (length bs - 21) (drop 19 bs), p_raw = bs \<rparr>"

lemma and_one_bit: "drop_bit n x AND 1 = 0 \<longleftrightarrow> \<not> bit x n" for x :: int
  by (simp add: and_one_eq even_drop_bit_iff_not_bit mod2_eq_if)

lemma packet_type_header_of: "packet_type (header_of bs) = 0 \<longleftrightarrow> \<not> bit (of_be16 (bs ! 0) (bs ! 1)) 12"
proof
  assume "packet_type (header_of bs) = 0"
  then have "\<not> bit (packet_type (header_of bs)) 0"
    by simp
  then show "\<not> bit (of_be16 (bs ! 0) (bs ! 1)) 12"
    by (simp add: header_of_def header_of_words_def bit_simps)
next
  assume "\<not> bit (of_be16 (bs ! 0) (bs ! 1)) 12"
  then show "packet_type (header_of bs) = 0"
    by (intro bit_word_eqI) (auto simp: header_of_def header_of_words_def bit_simps bit_1_iff intro: gr0I)
qed

text \<open>The slices and masks of the decoder, on at least 21 octets.\<close>

lemma version_nibble: "drop_bit 4 (uint b) AND 0x0F = 2 \<longleftrightarrow> drop_bit 4 b = 2" for b :: u8
proof -
  have "take_bit 8 (uint b) = uint b"
    using unsigned_less [where 'a = int, of b] by (simp add: take_bit_int_eq_self)
  then have "drop_bit 4 (uint b) AND 0x0F = uint (drop_bit 4 b AND 0x0F)"
    by (simp add: unsigned_and_eq unsigned_drop_bit_eq)
  also have "\<dots> = 2 \<longleftrightarrow> drop_bit 4 b = 2"
    by (simp add: drop_bit_4_u8 word_uint_eq_iff)
  finally show ?thesis .
qed

lemma raw_checksum:
  assumes "21 \<le> length raw"
  shows "gsw_crc16_ccitt (py_slice raw 0 (- 2)) = from_bytes (py_slice raw (- 2) (int (length raw))) \<longleftrightarrow> crc16 raw = 0"
proof -
  have "drop (length raw - 2) raw = [raw ! (length raw - 2), raw ! (length raw - 1)]"
    using assms by (intro nth_equalityI) (auto simp: less_2_cases_iff)
  then show ?thesis
    using assms crc_ok_residue [of raw]
    by (simp add: py_slice_to_end gsw_crc_uint py_slice_last from_bytes_be16 crc_ok_def flip: word_uint_eq_iff)
qed

lemma raw_fields:
  assumes "21 \<le> length raw"
  shows "from_bytes (py_slice raw 0 2) AND 0x07FF = uint (apid (header_of raw))"
    and "drop_bit 12 (from_bytes (py_slice raw 0 2)) AND 1 = 0 \<longleftrightarrow> packet_type (header_of raw) = 0"
    and "from_bytes (py_slice raw 2 4) AND 0x3FFF = uint (seq_count (header_of raw))"
    and "from_bytes (py_slice raw 4 6) = uint (data_length (header_of raw))"
    and "from_bytes (py_slice raw 9 11) = uint (of_be16 (raw ! 9) (raw ! 10))"
    and "from_bytes (py_slice raw 11 13) = uint (of_be16 (raw ! 11) (raw ! 12))"
    and "from_bytes (py_slice raw 17 19) = uint (of_be16 (raw ! 17) (raw ! 18))"
    and "from_bytes (py_slice raw 13 17) = uint (of_be32 (raw ! 13) (raw ! 14) (raw ! 15) (raw ! 16))"
    and "py_slice raw 19 (- 2) = take (length raw - 21) (drop 19 raw)"
proof -
  have two: "py_slice raw i (i + 2) = [raw ! nat i, raw ! (nat i + 1)]" if "0 \<le> i" "i \<le> 19" for i
    using that assms by (simp add: py_slice_from_start nat_add_distrib take_2_drop)
  show "from_bytes (py_slice raw 0 2) AND 0x07FF = uint (apid (header_of raw))"
    "from_bytes (py_slice raw 2 4) AND 0x3FFF = uint (seq_count (header_of raw))"
    "from_bytes (py_slice raw 4 6) = uint (data_length (header_of raw))"
    using two [of 0] two [of 2] two [of 4]
    by (simp_all add: from_bytes_be16 header_of_def header_of_words_def unsigned_and_eq)
  show "drop_bit 12 (from_bytes (py_slice raw 0 2)) AND 1 = 0 \<longleftrightarrow> packet_type (header_of raw) = 0"
    using two [of 0] by (simp add: and_one_bit packet_type_header_of from_bytes_be16 bit_uint_iff)
  show "from_bytes (py_slice raw 9 11) = uint (of_be16 (raw ! 9) (raw ! 10))"
    "from_bytes (py_slice raw 11 13) = uint (of_be16 (raw ! 11) (raw ! 12))"
    "from_bytes (py_slice raw 17 19) = uint (of_be16 (raw ! 17) (raw ! 18))"
    "from_bytes (py_slice raw 13 17) = uint (of_be32 (raw ! 13) (raw ! 14) (raw ! 15) (raw ! 16))"
    using two [of 9] two [of 11] two [of 17] assms
    by (simp_all add: from_bytes_be16 from_bytes_be32 py_slice_from_start take_4_drop)
  show "py_slice raw 19 (- 2) = take (length raw - 21) (drop 19 raw)"
    using assms by (simp add: py_slice_to_end)
qed

lemma parse_tm_eq: "parse_tm raw = (if tm_wellformed raw then Inr (tm_fields raw) else Inl ValueError)"
proof (cases "length raw < 21")
  case True
  then show ?thesis
    by (simp add: parse_tm_def tm_wellformed_def)
next
  case False
  then have len: "21 \<le> length raw" and long: "\<not> int (length raw) < 19 + 2"
    by simp_all
  have total: "6 + uint (data_length (header_of raw)) + 1 = int (length raw) \<longleftrightarrow>
      length raw = 7 + unat (data_length (header_of raw))"
    unfolding uint_nat by linarith
  have idx: "py_index raw 6 = Inr (raw ! 6)" "py_index raw (6 + 1) = Inr (raw ! 7)" "py_index raw (6 + 2) = Inr (raw ! 8)"
    using len by (simp_all add: py_index_in)
  have off: "(6 :: int) + 3 = 9" "(6 :: int) + 5 = 11" "(6 :: int) + 7 = 13" "(6 :: int) + 11 = 17" "(6 :: int) + 13 = 19"
    by simp_all
  have run: "parse_tm raw =
      (if packet_type (header_of raw) \<noteq> 0 then Inl ValueError
       else if length raw \<noteq> 7 + unat (data_length (header_of raw)) then Inl ValueError
       else if crc16 raw \<noteq> 0 then Inl ValueError
       else if drop_bit 4 (raw ! 6) \<noteq> 2 then Inl ValueError
       else Inr (tm_fields raw))"
    unfolding parse_tm_def Let_def idx py_bind_simps off raw_fields [OF len] total raw_checksum [OF len]
      version_nibble if_not_P [OF long] tm_fields_def ..
  show ?thesis
    using len unfolding run tm_wellformed_def by (auto simp del: One_nat_def)
qed

section \<open>The telecommand encoder\<close>

text \<open>The header it writes, its length field, and the octets between header and checksum.\<close>

definition length_field :: "tc_args \<Rightarrow> int" where
  "length_field a = (case a_declared_length a of None \<Rightarrow> int (length (a_data a)) + 6 | Some n \<Rightarrow> n)"

definition args_header :: "tc_args \<Rightarrow> ccsds_primary_header_t" where
  "args_header a = \<lparr>
     version = word_of_int (a_ccsds_version a AND 0x07), packet_type = word_of_int (a_packet_type a AND 0x01),
     sec_hdr_flag = word_of_int (a_sec_hdr_flag a AND 0x01), apid = word_of_int (a_apid a AND 0x07FF),
     seq_flags = 3, seq_count = word_of_int (a_seq_count a AND 0x3FFF),
     data_length = word_of_int (length_field a) \<rparr>"

definition args_packet :: "tc_args \<Rightarrow> u8 list" where
  "args_packet a = header_octets (args_header a) @
     [word_of_int (push_bit 4 (a_pus_version a AND 0x0F) OR (a_ack a AND 0x0F)),
      word_of_int (a_service a), word_of_int (a_subtype a)] @
     be16 (word_of_int (a_source_id a)) @ a_data a"

lemma and_mask_bounds: "0 \<le> k AND mask n" "k AND mask n < 2 ^ n" for k :: int
  by (simp_all add: take_bit_eq_mask [symmetric])

lemma word_of_int_and_mask:
  "(word_of_int (k AND mask n) :: 'a::len word) = word_of_int k AND mask n"
  by (rule bit_word_eqI) (simp add: bit_simps)

lemma word_of_int_and_mask_lt:
  "n < LENGTH('a) \<Longrightarrow> (word_of_int (k AND mask n) :: 'a::len word) < 2 ^ n"
  by (simp add: word_of_int_and_mask and_mask_lt)

lemma args_header_fits: "header_fits (args_header a)"
  using word_of_int_and_mask_lt [where 'a = 8, of 3] word_of_int_and_mask_lt [where 'a = 8, of 1]
    word_of_int_and_mask_lt [where 'a = 16, of 11] word_of_int_and_mask_lt [where 'a = 16, of 14]
  unfolding header_fits_def args_header_def int_mask_consts by simp

lemma args_word0:
  "push_bit 13 (a_ccsds_version a AND 0x07) OR push_bit 12 (a_packet_type a AND 0x01) OR
     push_bit 11 (a_sec_hdr_flag a AND 0x01) OR (a_apid a AND 0x07FF) = uint (header_word0 (args_header a))"
proof (rule bit_eqI)
  fix n :: nat
  consider "16 \<le> n" | "13 \<le> n" "n < 16" | "n = 12" | "n = 11" | "n < 11"
    by linarith
  then show "bit (push_bit 13 (a_ccsds_version a AND 0x07) OR push_bit 12 (a_packet_type a AND 0x01) OR
      push_bit 11 (a_sec_hdr_flag a AND 0x01) OR (a_apid a AND 0x07FF)) n
    = bit (uint (header_word0 (args_header a))) n"
    unfolding args_header_def int_mask_consts
    by cases (auto simp: bit_uint_iff bit_header_word0 bit_simps simp del: push_bit_and)
qed

lemma args_word1:
  "push_bit 14 3 OR (a_seq_count a AND 0x3FFF) = uint (header_word1 (args_header a))"
proof (rule bit_eqI)
  fix n
  have "(3 :: int) = mask 2" and flags: "seq_flags (args_header a) = mask 2"
    by (simp_all add: mask_numeral args_header_def)
  have "bit (push_bit 14 (mask 2) OR (a_seq_count a AND 0x3FFF)) n = bit (uint (header_word1 (args_header a))) n"
    unfolding bit_uint_iff bit_header_word1 flags
    unfolding args_header_def int_mask_consts by (auto simp: bit_simps)
  then show "bit (push_bit 14 3 OR (a_seq_count a AND 0x3FFF)) n = bit (uint (header_word1 (args_header a))) n"
    by (simp only: \<open>3 = mask 2\<close>)
qed

lemma length_args_packet [simp]: "length (args_packet a) = 11 + length (a_data a)"
  by (simp add: args_packet_def)

text \<open>The conversions of \<open>build_tc\<close>: every masked field fits its octets.\<close>

lemma to_bytes_16:
  "to_bytes 2 k = (if 0 \<le> k \<and> k < 65536 then Inr (be16 (word_of_int k)) else Inl OverflowError)"
proof (cases "0 \<le> k \<and> k < 65536")
  case True
  then have "uint (word_of_int k :: u16) = k"
    by (intro uint_word_of_int_small) simp_all
  then show ?thesis
    using True to_bytes_uint16 [of "word_of_int k"] by simp
next
  case False
  then show ?thesis
    by (auto simp: to_bytes_def)
qed

lemma to_bytes_16_masked: "to_bytes 2 (k AND 0xFFFF) = Inr (be16 (word_of_int k))"
proof -
  have "k AND 0xFFFF = uint (word_of_int k :: u16)"
    unfolding int_mask_consts by (simp add: unsigned_of_int take_bit_eq_mask)
  then show ?thesis
    by (simp only: to_bytes_uint16)
qed

lemma py_append_octet: "py_append bs (k AND 0xFF) = Inr (bs @ [word_of_int k])"
proof -
  have "k AND 0xFF = uint (word_of_int k :: u8)"
    unfolding int_mask_consts by (simp add: unsigned_of_int take_bit_eq_mask)
  then show ?thesis
    using unsigned_less [where 'a = int, of "word_of_int k :: u8"]
    by (simp only: py_append_def) simp
qed

lemma py_append_nibbles:
  "py_append bs (push_bit 4 (v AND 0x0F) OR (f AND 0x0F)) =
     Inr (bs @ [word_of_int (push_bit 4 (v AND 0x0F) OR (f AND 0x0F))])"
proof -
  let ?b = "push_bit 4 (v AND mask 4) OR (f AND mask 4)"
  have "?b = ?b AND mask 8"
    by (rule bit_eqI) (auto simp: bit_simps simp del: push_bit_and)
  then have "py_append bs ?b = Inr (bs @ [word_of_int ?b])"
    using py_append_octet [of bs ?b] by (simp only: int_mask_consts)
  then show ?thesis
    by (simp only: int_mask_consts)
qed

lemma build_tc_eq:
  "build_tc a =
     (if 0 \<le> a_source_id a \<and> a_source_id a < 65536 then
        Inr (args_packet a @ be16 (crc16 (args_packet a) XOR (if a_valid_crc a then 0 else 1)))
      else Inl OverflowError)"
proof (cases "0 \<le> a_source_id a \<and> a_source_id a < 65536")
  case True
  let ?body = "\<lambda>rest. word_of_int (push_bit 4 (a_pus_version a AND 0x0F) OR (a_ack a AND 0x0F)) #
      word_of_int (a_service a) # word_of_int (a_subtype a) # be16 (word_of_int (a_source_id a)) @ rest"
  have len: "(case a_declared_length a of None \<Rightarrow> 6 + int (length (?body (a_data a))) + 2 - 6 - 1 | Some n \<Rightarrow> n) = length_field a"
    by (simp add: length_field_def split: option.split)
  have dl: "word_of_int (length_field a) = data_length (args_header a)"
    by (simp add: args_header_def)
  have packet: "be16 (header_word0 (args_header a)) @ be16 (header_word1 (args_header a)) @
      be16 (data_length (args_header a)) @ ?body (a_data a @ rest) = args_packet a @ rest" for rest
    by (simp add: args_packet_def header_octets_def)
  have crc: "(if \<not> a_valid_crc a then gsw_crc16_ccitt bs XOR 0x0001 else gsw_crc16_ccitt bs)
      = uint (crc16 bs XOR (if a_valid_crc a then 0 else 1))" for bs
    by (simp add: gsw_crc_uint unsigned_xor_eq)
  have "build_tc a = Inr (args_packet a @ be16 (crc16 (args_packet a) XOR (if a_valid_crc a then 0 else 1)))"
    unfolding build_tc_def py_append_nibbles py_bind_simps py_append_octet to_bytes_16 [of "a_source_id a"]
      if_P [OF True] Let_def args_word0 args_word1 append_Nil append_Cons append_assoc
    unfolding to_bytes_uint16 to_bytes_16_masked py_bind_simps len dl crc packet packet [of "[]", simplified append_Nil2] ..
  then show ?thesis
    using True by simp
next
  case False
  then show ?thesis
    by (simp only: build_tc_def py_append_nibbles py_bind_simps py_append_octet to_bytes_16 [of "a_source_id a"] if_False)
qed

text \<open>What the flight parser says of a packet with defects, and what it reads otherwise.\<close>

definition injected_verdict :: "tc_args \<Rightarrow> pus_status_t" where
  "injected_verdict a =
     (if length_field a mod 65536 \<noteq> int (length (a_data a)) + 6 then PUS_ERR_BAD_LENGTH
      else if \<not> a_valid_crc a then PUS_ERR_BAD_CRC
      else if a_ccsds_version a mod 8 \<noteq> 0 then PUS_ERR_BAD_VERSION
      else if a_packet_type a mod 2 \<noteq> 1 then PUS_ERR_BAD_PACKET_TYPE
      else if a_sec_hdr_flag a mod 2 \<noteq> 1 then PUS_ERR_NO_SEC_HEADER
      else if a_apid a mod 2048 \<noteq> 12 then PUS_ERR_BAD_APID
      else if a_pus_version a mod 16 \<noteq> 2 then PUS_ERR_BAD_VERSION
      else PUS_OK)"

lemma word_of_int_mask_eq_iff:
  assumes "n < LENGTH('a)" and "0 \<le> c" and "c < 2 ^ n"
  shows "(word_of_int (k AND mask n) :: 'a::len word) = word_of_int c \<longleftrightarrow> k mod 2 ^ n = c"
proof -
  have lt: "(2 :: int) ^ n < 2 ^ LENGTH('a)"
    using assms(1) by simp
  have "0 \<le> k mod 2 ^ n" "k mod 2 ^ n < 2 ^ n"
    by simp_all
  then have "uint (word_of_int (k mod 2 ^ n) :: 'a word) = k mod 2 ^ n"
    using lt by (intro uint_word_of_int_small) linarith+
  moreover have "uint (word_of_int c :: 'a word) = c"
    using assms(2,3) lt by (intro uint_word_of_int_small) linarith+
  ultimately show ?thesis
    by (simp only: word_uint_eq_iff flip: take_bit_eq_mask take_bit_eq_mod)
qed

lemma args_header_checks:
  "version (args_header a) = 0 \<longleftrightarrow> a_ccsds_version a mod 8 = 0"
  "packet_type (args_header a) = 1 \<longleftrightarrow> a_packet_type a mod 2 = 1"
  "sec_hdr_flag (args_header a) = 1 \<longleftrightarrow> a_sec_hdr_flag a mod 2 = 1"
  "apid (args_header a) = 12 \<longleftrightarrow> a_apid a mod 2048 = 12"
  using word_of_int_mask_eq_iff [where 'a = 8, of 3 0 "a_ccsds_version a"]
    word_of_int_mask_eq_iff [where 'a = 8, of 1 1 "a_packet_type a"]
    word_of_int_mask_eq_iff [where 'a = 8, of 1 1 "a_sec_hdr_flag a"]
    word_of_int_mask_eq_iff [where 'a = 16, of 11 12 "a_apid a"]
  by (simp_all add: args_header_def mask_numeral)

lemma args_length_check:
  "7 + unat (data_length (args_header a)) = 13 + n \<longleftrightarrow> length_field a mod 65536 = int n + 6"
proof -
  have "int (unat (data_length (args_header a))) = length_field a mod 65536"
    by (simp add: args_header_def unsigned_of_int take_bit_eq_mod)
  then show ?thesis
    by linarith
qed

lemma version_octet:
  fixes v f :: int
  defines "b \<equiv> word_of_int (push_bit 4 (v AND 0x0F) OR (f AND 0x0F)) :: u8"
  shows "drop_bit 4 b AND 0x0F = 2 \<longleftrightarrow> v mod 16 = 2" and "b AND 0x0F = word_of_int f AND 0x0F"
proof -
  have F: "(0x0F :: u8) = mask 4"
    by (simp add: mask_numeral)
  have "drop_bit 4 b AND mask 4 = word_of_int (v AND mask 4)"
    unfolding b_def int_mask_consts by (rule bit_word_eqI) (auto simp: bit_simps simp del: push_bit_and)
  then show "drop_bit 4 b AND 0x0F = 2 \<longleftrightarrow> v mod 16 = 2"
    using word_of_int_mask_eq_iff [where 'a = 8, of 4 2 v] by (simp add: F)
  show "b AND 0x0F = word_of_int f AND 0x0F"
    unfolding b_def int_mask_consts F by (rule bit_word_eqI) (auto simp: bit_simps simp del: push_bit_and)
qed

lemma args_trailer:
  fixes a :: tc_args and e :: u16
  defines "bs \<equiv> args_packet a @ be16 (crc16 (args_packet a) XOR e)"
  shows "length bs = 13 + length (a_data a)" and "header_of bs = args_header a" and "crc_ok bs \<longleftrightarrow> e = 0"
    and "bs ! 6 = word_of_int (push_bit 4 (a_pus_version a AND 0x0F) OR (a_ack a AND 0x0F))"
    and "tc_decode bs = \<lparr> tc_ack = word_of_int (a_ack a) AND 0x0F, tc_service = word_of_int (a_service a),
      tc_subtype = word_of_int (a_subtype a), tc_source = word_of_int (a_source_id a), tc_app = a_data a,
      tc_request = of_be32 (bs ! 0) (bs ! 1) (bs ! 2) (bs ! 3) \<rparr>"
proof -
  let ?b = "word_of_int (push_bit 4 (a_pus_version a AND 0x0F) OR (a_ack a AND 0x0F)) :: u8"
  have split: "bs = header_octets (args_header a) @ [?b, word_of_int (a_service a), word_of_int (a_subtype a)] @
      be16 (word_of_int (a_source_id a)) @ a_data a @ be16 (crc16 (args_packet a) XOR e)"
    by (simp add: bs_def args_packet_def)
  show len: "length bs = 13 + length (a_data a)"
    by (simp add: bs_def)
  show "header_of bs = args_header a"
    unfolding split by (rule header_of_octets [OF args_header_fits])
  have take: "take (length bs - 2) bs = args_packet a"
    by (simp add: bs_def)
  have "drop (length bs - 2) bs = be16 (crc16 (args_packet a) XOR e)"
    by (simp add: bs_def)
  moreover have "drop (length bs - 2) bs = [bs ! (length bs - 2), bs ! (length bs - 1)]"
    using len by (intro nth_equalityI) (auto simp: less_2_cases_iff)
  ultimately have "of_be16 (bs ! (length bs - 2)) (bs ! (length bs - 1)) = crc16 (args_packet a) XOR e"
    by (metis be16_of_be16 be16_inject)
  then show "crc_ok bs \<longleftrightarrow> e = 0"
    unfolding crc_ok_def take using xor_left_cancel [of "crc16 (args_packet a)" 0 e] by auto
  show b6: "bs ! 6 = ?b"
    unfolding split by (simp add: nth_append)
  have "bs ! 7 = word_of_int (a_service a)" "bs ! 8 = word_of_int (a_subtype a)"
    "of_be16 (bs ! 9) (bs ! 10) = word_of_int (a_source_id a)"
    "take (length bs - 13) (drop 11 bs) = a_data a"
    unfolding len unfolding split by (simp_all add: nth_append be16_def)
  then show "tc_decode bs = \<lparr> tc_ack = word_of_int (a_ack a) AND 0x0F, tc_service = word_of_int (a_service a),
      tc_subtype = word_of_int (a_subtype a), tc_source = word_of_int (a_source_id a), tc_app = a_data a,
      tc_request = of_be32 (bs ! 0) (bs ! 1) (bs ! 2) (bs ! 3) \<rparr>"
    unfolding tc_decode_def b6 version_octet(2) by simp
qed

lemma build_tc_judged:
  assumes "0 \<le> a_source_id a" and "a_source_id a < 65536"
  obtains bs where "build_tc a = Inr bs" and "length bs = 13 + length (a_data a)"
    and "tc_verdict bs = injected_verdict a"
    and "tc_decode bs = \<lparr> tc_ack = word_of_int (a_ack a) AND 0x0F, tc_service = word_of_int (a_service a),
      tc_subtype = word_of_int (a_subtype a), tc_source = word_of_int (a_source_id a), tc_app = a_data a,
      tc_request = of_be32 (bs ! 0) (bs ! 1) (bs ! 2) (bs ! 3) \<rparr>"
proof -
  let ?e = "if a_valid_crc a then 0 else 1 :: u16"
  let ?bs = "args_packet a @ be16 (crc16 (args_packet a) XOR ?e)"
  note t = args_trailer [of a ?e]
  have "tc_verdict ?bs = injected_verdict a"
    unfolding tc_verdict_def Let_def declared_length_def t(1-4) args_length_check args_header_checks version_octet(1)
      injected_verdict_def by simp
  moreover have "build_tc a = Inr ?bs"
    using assms by (simp add: build_tc_eq)
  ultimately show ?thesis
    using that t(1,5) by metis
qed

section \<open>Telemetry of the flight software\<close>

text \<open>What the ground reads of a message.\<close>

definition packet_of :: "tm_msg \<Rightarrow> tm_packet" where
  "packet_of m = \<lparr>
     p_apid = 12, p_seq_count = uint (m_seq m), p_service = uint (m_service m),
     p_subtype = uint (m_subtype m), p_msg_counter = uint (m_counter m), p_destination_id = 1,
     p_time_coarse = uint (m_coarse m), p_time_fine = uint (m_fine m), p_data = m_data m,
     p_raw = tm_encode m \<rparr>"

lemma tm_encode_length_field:
  assumes "tm_fits m"
  shows "7 + unat (data_length (header_of (tm_encode m))) = length (tm_encode m)"
proof -
  have "length (m_data m) + 14 < 2 ^ 16" and m: "m_seq m < 16384"
    using assms by (simp_all add: tm_fits_def)
  then have "unat (of_nat (length (m_data m) + 14) :: u16) = length (m_data m) + 14"
    unfolding unsigned_of_nat by (simp add: take_bit_eq_mod)
  then show ?thesis
    by (simp only: header_of_tm_encode [OF m] tm_header_def ccsds_primary_header_t.select_convs length_tm_encode)
qed

lemma tm_encode_octets:
  "tm_encode m ! 6 = 0x20" "of_be16 (tm_encode m ! 11) (tm_encode m ! 12) = 1"
proof -
  define hd where "hd = header_octets (tm_header (m_seq m) (length (m_data m)))"
  have "length hd = 6"
    by (simp add: hd_def)
  then show "tm_encode m ! 6 = 0x20" "of_be16 (tm_encode m ! 11) (tm_encode m ! 12) = 1"
    by (simp_all add: tm_encode_def tm_body_def be16_def nth_append of_be16_def flip: hd_def)
qed

lemma tm_fields_decode:
  "tm_fields bs = (let m = tm_decode bs in \<lparr>
     p_apid = uint (apid (header_of bs)), p_seq_count = uint (m_seq m), p_service = uint (m_service m),
     p_subtype = uint (m_subtype m), p_msg_counter = uint (m_counter m),
     p_destination_id = uint (of_be16 (bs ! 11) (bs ! 12)), p_time_coarse = uint (m_coarse m),
     p_time_fine = uint (m_fine m), p_data = m_data m, p_raw = bs \<rparr>)"
  by (simp add: tm_fields_def tm_decode_def)

lemma parse_tm_encode:
  assumes "tm_fits m"
  shows "parse_tm (tm_encode m) = Inr (packet_of m)"
proof -
  have m: "m_seq m < 16384"
    using assms by (simp add: tm_fits_def)
  have "tm_wellformed (tm_encode m)"
    using tm_encode_length_field [OF assms] unfolding tm_wellformed_def tm_encode_octets
    by (simp add: tm_encode_crc header_of_tm_encode [OF m] tm_header_def)
  moreover have "tm_fields (tm_encode m) = packet_of m"
    unfolding tm_fields_decode tm_decode_encode [OF m] tm_encode_octets header_of_tm_encode [OF m]
    by (simp add: packet_of_def tm_header_def)
  ultimately show ?thesis
    by (simp add: parse_tm_eq)
qed

section \<open>Properties\<close>

text \<open>
  C16: The checksum of the ground segment, computed on integers without a width, is the checksum of
  the flight software on every octet string, whatever follows it in memory.
\<close>

theorem gsw_crc_agrees:
  "\<exists>c. crc16_ccitt (Some (octets bs @ rest)) (length bs) = Some c \<and> gsw_crc16_ccitt bs = uint c"
  by (simp add: crc16_ccitt_prefix gsw_crc_uint)


text \<open>
  The telemetry decoder of the ground segment is total: it accepts exactly the strings of at
  least 21 octets with a consistent length field, checksum 0, the type bit of telemetry and PUS
  version 2, reads every field at its place, and raises \<open>ValueError\<close>, never \<open>IndexError\<close>, on all
  other strings.
\<close>

theorem parse_tm_total:
  "parse_tm raw = (if tm_wellformed raw then Inr (tm_fields raw) else Inl ValueError)"
  by (rule parse_tm_eq)

end
