(* ===== verification/Gsw_Db.thy ===== *)
theory Gsw_Db
  imports Gsw_Packets Reports
begin

text \<open>
  The mission database of the Python ground segment, \<open>tests/integration/gsw/obc_db.py\<close>: the
  decoder of the housekeeping reports and the builders of telecommand arguments. The theorems
  put it face to face with the flight software: what the ground decodes is what the on-board
  state holds, and what the ground asks for is what the on-board software does.
\<close>

section \<open>The module \<open>struct\<close>\<close>

text \<open>Big-endian formats of one octet, two octets, four octets, and two octets signed.\<close>

datatype fmt = Fmt_B | Fmt_H | Fmt_I | Fmt_h

primrec fmt_size :: "fmt \<Rightarrow> nat" where
  "fmt_size Fmt_B = 1"
| "fmt_size Fmt_H = 2"
| "fmt_size Fmt_I = 4"
| "fmt_size Fmt_h = 2"

primrec fmt_min :: "fmt \<Rightarrow> int" where
  "fmt_min Fmt_B = 0"
| "fmt_min Fmt_H = 0"
| "fmt_min Fmt_I = 0"
| "fmt_min Fmt_h = - 32768"

primrec fmt_max :: "fmt \<Rightarrow> int" where
  "fmt_max Fmt_B = 255"
| "fmt_max Fmt_H = 65535"
| "fmt_max Fmt_I = 4294967295"
| "fmt_max Fmt_h = 32767"

text \<open>The value of an unsigned field read in the format, and a whole string of fields.\<close>

definition fmt_value :: "fmt \<Rightarrow> int \<Rightarrow> int" where
  "fmt_value f v = (if fmt_max f < v then v - 256 ^ fmt_size f else v)"

primrec unpack_fields :: "fmt list \<Rightarrow> u8 list \<Rightarrow> int list" where
  "unpack_fields [] bs = []"
| "unpack_fields (f # fs) bs =
     fmt_value f (from_bytes (take (fmt_size f) bs)) # unpack_fields fs (drop (fmt_size f) bs)"

definition struct_unpack :: "fmt list \<Rightarrow> u8 list \<Rightarrow> int list py" where
  "struct_unpack fs bs =
     (if length bs = sum_list (map fmt_size fs) then Inr (unpack_fields fs bs) else Inl StructError)"

definition fmt_pack :: "fmt \<Rightarrow> int \<Rightarrow> u8 list py" where
  "fmt_pack f v =
     (if fmt_min f \<le> v \<and> v \<le> fmt_max f then Inr (be_octets (fmt_size f) v) else Inl StructError)"

text \<open>\<open>bytes([v, ...])\<close>.\<close>

definition py_bytes :: "int list \<Rightarrow> u8 list py" where
  "py_bytes vs = (if list_all (\<lambda>v. 0 \<le> v \<and> v < 256) vs then Inr (map word_of_int vs) else Inl ValueError)"

section \<open>The code\<close>

abbreviation (input) SID_ESSENTIAL :: int where "SID_ESSENTIAL \<equiv> 1"
abbreviation (input) SID_DIAGNOSTIC :: int where "SID_DIAGNOSTIC \<equiv> 2"
abbreviation (input) FID_SET_MODE :: int where "FID_SET_MODE \<equiv> 1"
abbreviation (input) FID_SET_HEATER :: int where "FID_SET_HEATER \<equiv> 2"
abbreviation (input) FID_INJECT_TEMP :: int where "FID_INJECT_TEMP \<equiv> 3"
abbreviation (input) FID_SET_TIME :: int where "FID_SET_TIME \<equiv> 5"

text \<open>The two named tuples.\<close>

datatype hk_report =
    Essential (e_sid: int) (e_mode: int) (e_uptime_ticks: int) (e_temperature_dc: int) (e_heater_on: int)
  | Diagnostic (d_sid: int) (d_tc_accepted: int) (d_tc_rejected: int) (d_last_failure_code: int)
      (d_tm_queued: int) (d_tm_overflows: int)

definition decode_hk :: "u8 list \<Rightarrow> hk_report py" where
  "decode_hk data =
     py_bind (py_index data 0) (\<lambda>b.
       let sid = uint b in
       if sid = SID_ESSENTIAL then
         if length data \<noteq> 9 then Inl ValueError
         else py_bind (struct_unpack [Fmt_B, Fmt_I, Fmt_h, Fmt_B] (py_slice data 1 (int (length data)))) (\<lambda>vs.
           case vs of [md, uptime, temp, heater] \<Rightarrow> Inr (Essential sid md uptime temp heater)
           | _ \<Rightarrow> Inl ValueError)
       else if sid = SID_DIAGNOSTIC then
         if length data \<noteq> 10 then Inl ValueError
         else py_bind (struct_unpack [Fmt_H, Fmt_H, Fmt_H, Fmt_B, Fmt_H] (py_slice data 1 (int (length data)))) (\<lambda>vs.
           case vs of [accepted, rejected, failure, queued, overflows] \<Rightarrow>
             Inr (Diagnostic sid accepted rejected failure queued overflows)
           | _ \<Rightarrow> Inl ValueError)
       else Inl ValueError)"

definition hk_list :: "int list \<Rightarrow> u8 list py" where
  "hk_list sids =
     py_bind (py_bytes [int (length sids)]) (\<lambda>count. py_bind (py_bytes sids) (\<lambda>rest. Inr (count @ rest)))"

text \<open>The loop of \<open>event_list\<close> over the identifiers that are left.\<close>

primrec event_list_loop :: "int list \<Rightarrow> u8 list \<Rightarrow> u8 list py" where
  "event_list_loop [] out = Inr out"
| "event_list_loop (identifier # ids) out =
     py_bind (to_bytes 2 identifier) (\<lambda>two. event_list_loop ids (out @ two))"

definition event_list :: "int list \<Rightarrow> u8 list py" where
  "event_list event_ids =
     py_bind (py_bytes [int (length event_ids)]) (\<lambda>out. event_list_loop event_ids out)"

definition perform :: "int \<Rightarrow> u8 list \<Rightarrow> u8 list py" where
  "perform function_id args = py_bind (py_bytes [function_id]) (\<lambda>fid. Inr (fid @ args))"

definition set_mode :: "int \<Rightarrow> u8 list py" where
  "set_mode md = py_bind (py_bytes [md]) (\<lambda>args. perform FID_SET_MODE args)"

definition set_heater :: "bool \<Rightarrow> u8 list py" where
  "set_heater on = py_bind (py_bytes [if on then 1 else 0]) (\<lambda>args. perform FID_SET_HEATER args)"

definition inject_temperature :: "int \<Rightarrow> u8 list py" where
  "inject_temperature deci_celsius =
     py_bind (fmt_pack Fmt_h deci_celsius) (\<lambda>args. perform FID_INJECT_TEMP args)"

definition set_time :: "int \<Rightarrow> int \<Rightarrow> u8 list py" where
  "set_time coarse fine =
     py_bind (fmt_pack Fmt_I coarse) (\<lambda>c. py_bind (fmt_pack Fmt_H fine) (\<lambda>f. perform FID_SET_TIME (c @ f)))"

section \<open>Housekeeping\<close>

lemma take_be [simp]:
  "take 2 (be16 v @ bs) = be16 v" "take 4 (be32 w @ bs) = be32 w" "take 2 (be16 v) = be16 v"
  "drop 2 (be16 v @ bs) = bs" "drop 4 (be32 w @ bs) = bs" "drop 2 (be16 v) = []"
  by simp_all

lemma from_bytes_be [simp]: "from_bytes (be16 v) = uint v" "from_bytes (be32 w) = uint w"
  by (simp_all add: be16_def be32_def from_bytes_be16 from_bytes_be32)

lemma from_bytes_octet [simp]: "from_bytes [b] = uint b"
  by (simp add: from_bytes_def)

lemma fmt_value_unsigned:
  "fmt_value Fmt_B (uint b) = uint b" "fmt_value Fmt_H (uint v) = uint v" "fmt_value Fmt_I (uint w) = uint w"
  for b :: u8 and v :: u16 and w :: u32
  using unsigned_less [where 'a = int, of b] unsigned_less [where 'a = int, of v] unsigned_less [where 'a = int, of w]
  by (simp_all add: fmt_value_def)

lemma fmt_value_signed: "fmt_value Fmt_h (uint v) = sint v" for v :: i16
proof -
  let ?k = "uint v"
  have k: "0 \<le> ?k" "?k < 65536"
    using unsigned_less [where 'a = int, of v] by simp_all
  then have "take_bit 16 ?k = ?k"
    by (simp add: take_bit_int_eq_self)
  then have "sint v = ?k - 65536 * of_bool (bit ?k 15)"
    unfolding sint_uint by (simp add: signed_take_bit_eq_take_bit_minus)
  moreover have "bit ?k 15 \<longleftrightarrow> 32767 < ?k"
  proof -
    have "odd (j div 32768) \<longleftrightarrow> 32767 < j" if "0 \<le> j" "j < 65536" for j :: int
      using that by (cases "32767 < j") (simp_all add: div_pos_geq div_pos_pos_trivial)
    from this [OF k] show ?thesis
      by (simp add: bit_iff_odd)
  qed
  ultimately show ?thesis
    by (simp add: fmt_value_def)
qed

text \<open>What the ground decodes of the two layouts.\<close>

lemma decode_hk_essential:
  "decode_hk ([1, md] @ be32 up @ be16 temp @ [heater]) = Inr (Essential 1 (uint md) (uint up) (sint temp) (uint heater))"
  by (simp add: decode_hk_def py_index_in py_slice_from_start struct_unpack_def fmt_value_unsigned fmt_value_signed)

lemma decode_hk_diagnostic:
  "decode_hk ([2] @ be16 acc @ be16 rej @ be16 fail @ [queued] @ be16 drops)
     = Inr (Diagnostic 2 (uint acc) (uint rej) (uint fail) (uint queued) (uint drops))"
  by (simp add: decode_hk_def py_index_in py_slice_from_start struct_unpack_def fmt_value_unsigned)

section \<open>Function requests\<close>

text \<open>The state a telecommand acts on: everything but telemetry and the telecommand bookkeeping.\<close>

definition core :: "spec \<Rightarrow> opmode \<times> bool \<times> hal_state \<times> (u8 \<Rightarrow> bool) \<times> (u16 \<Rightarrow> bool)" where
  "core a = (sp_mode a, sp_heater a, sp_hal a, sp_hk a, sp_ev a)"

lemma core_acceptance: "core (snd (sp_acceptance c (a\<lparr> sp_accepted := n \<rparr>))) = core a"
  by (simp add: core_def sp_acceptance_def sp_success_def)

lemma core_finish: "core (sp_finish c st a) = core a"
  by (simp add: core_def sp_finish_def sp_completion_def sp_success_def sp_failure_report_def)

text \<open>So a service sees the state before the telecommand, and its effect on it is the final one.\<close>

lemma execute_core:
  obtains b where "core b = core a" and "fst (sp_execute c a) = fst (sp_route c b)"
    and "core (snd (sp_execute c a)) = core (snd (sp_route c b))"
proof
  let ?b = "snd (sp_acceptance c (a\<lparr> sp_accepted := sat_inc (sp_accepted a) \<rparr>))"
  show "core ?b = core a"
    by (rule core_acceptance)
  show "fst (sp_execute c a) = fst (sp_route c ?b)" "core (snd (sp_execute c a)) = core (snd (sp_route c ?b))"
    by (simp_all add: sp_execute_def Let_def split_beta core_finish)
qed

text \<open>What the arguments the ground builds ask for.\<close>

lemma py_bytes_one: "py_bytes [v] = (if 0 \<le> v \<and> v < 256 then Inr [word_of_int v] else Inl ValueError)"
  by (simp add: py_bytes_def)

lemma be_octets_4:
  "be_octets 4 k = [word_of_int (drop_bit 24 k), word_of_int (drop_bit 16 k), word_of_int (drop_bit 8 k), word_of_int k]"
proof -
  have eqs: "k div 256 = drop_bit 8 k" "k div 256 div 256 = drop_bit 16 k" "k div 256 div 256 div 256 = drop_bit 24 k"
    by (simp_all add: drop_bit_eq_div flip: zdiv_zmult2_eq)
  have "be_octets 4 k = be_octets (Suc (Suc (Suc (Suc 0)))) k"
  proof -
    have "(4 :: nat) = Suc (Suc (Suc (Suc 0)))"
      by simp
    then show ?thesis
      by (rule arg_cong)
  qed
  also have "\<dots> = [word_of_int (k div 256 div 256 div 256), word_of_int (k div 256 div 256), word_of_int (k div 256),
      word_of_int k]"
    by (simp only: be_octets.simps append.simps)
  finally show ?thesis
    by (simp only: eqs(3)) (simp only: eqs(2), simp only: eqs(1))
qed

lemma word_of_int_octet:
  "n + 8 \<le> LENGTH('a) \<Longrightarrow> (ucast (drop_bit n (word_of_int k :: 'a::len word)) :: u8) = word_of_int (drop_bit n k)"
  by (rule bit_word_eqI) (auto simp: bit_simps)

lemma be_octets_word16: "be_octets 2 k = be16 (word_of_int k)"
proof -
  have "be_octets 2 k = [word_of_int (drop_bit 8 k), word_of_int k]"
    by (simp only: numeral_2_eq_2 be_octets.simps append.simps) (simp add: drop_bit_eq_div)
  then show ?thesis
    using word_of_int_octet [where 'a = 16, of 8 k] word_of_int_octet [where 'a = 16, of 0 k] by (simp add: be16_def)
qed

lemma be_octets_word32: "be_octets 4 k = be32 (word_of_int k)"
  using word_of_int_octet [where 'a = 32, of 8 k] word_of_int_octet [where 'a = 32, of 0 k]
    word_of_int_octet [where 'a = 32, of 16 k] word_of_int_octet [where 'a = 32, of 24 k]
  by (simp add: be32_def be_octets_4)

lemma set_mode_request:
  "m \<in> {0, 1} \<Longrightarrow> \<exists>app. set_mode m = Inr app \<and> length app \<le> 65529 \<and>
     function_request app = Inr (Set_Mode (if m = 0 then Safe else Nominal))"
  by (auto simp: set_mode_def perform_def py_bytes_one function_request_def)

lemma set_heater_request: "\<exists>app. set_heater on = Inr app \<and> length app \<le> 65529 \<and> function_request app = Inr (Set_Heater on)"
  by (simp add: set_heater_def perform_def py_bytes_one function_request_def)

lemma inject_temperature_request:
  "- 32768 \<le> v \<Longrightarrow> v < 32768 \<Longrightarrow> \<exists>app. inject_temperature v = Inr app \<and> length app \<le> 65529 \<and>
     function_request app = Inr (Inject_Temp (word_of_int v))"
  by (simp add: inject_temperature_def fmt_pack_def perform_def py_bytes_one function_request_def be_octets_word16
      be16_def)

lemma set_time_request:
  "0 \<le> c \<Longrightarrow> c < 4294967296 \<Longrightarrow> 0 \<le> f \<Longrightarrow> f < 65536 \<Longrightarrow> \<exists>app. set_time c f = Inr app \<and> length app \<le> 65529 \<and>
     function_request app = Inr (Set_Time (word_of_int c) (word_of_int f))"
  by (simp add: set_time_def fmt_pack_def perform_def py_bytes_one function_request_def be_octets_word16
      be_octets_word32 be16_def be32_def)

text \<open>
  A telecommand the ground builds and sends with the default parameters, processed on board. The
  result \<open>None\<close> is an exception on the ground (or undefined behaviour on board).
\<close>

definition uplink :: "int \<Rightarrow> int \<Rightarrow> u8 list py \<Rightarrow> obsw \<Rightarrow> (pus_status_t \<times> obsw) option" where
  "uplink service subtype data s =
     (case py_bind data (\<lambda>app. build_tc (tc_call service subtype app)) of
        Inl _ \<Rightarrow> None
      | Inr bs \<Rightarrow> obc_process_tc (Some (octets bs)) (length bs) s)"

lemma call_verdict:
  assumes "length app \<le> 65529"
  obtains bs where "build_tc (tc_call service subtype app) = Inr bs" and "tc_verdict bs = PUS_OK"
    and "tc_service (tc_decode bs) = word_of_int service" and "tc_subtype (tc_decode bs) = word_of_int subtype"
    and "tc_app (tc_decode bs) = app" and "tc_ack (tc_decode bs) = 9"
proof -
  let ?a = "tc_call service subtype app"
  obtain bs where bs: "build_tc ?a = Inr bs" "tc_verdict bs = injected_verdict ?a"
      "tc_decode bs = \<lparr> tc_ack = word_of_int (a_ack ?a) AND 0x0F, tc_service = word_of_int (a_service ?a),
        tc_subtype = word_of_int (a_subtype ?a), tc_source = word_of_int (a_source_id ?a), tc_app = a_data ?a,
        tc_request = of_be32 (bs ! 0) (bs ! 1) (bs ! 2) (bs ! 3) \<rparr>"
    using build_tc_judged [of ?a] by (auto simp: tc_call_def)
  have "injected_verdict ?a = PUS_OK"
    using assms by (simp add: injected_verdict_def length_field_def tc_call_def)
  then show ?thesis
    using that bs by (simp add: tc_call_def)
qed

lemma uplink_runs:
  assumes inv: "obsw_inv s" and app: "data = Inr app" "length app \<le> 65529"
  obtains c s' where "uplink service subtype data s = Some (fst (sp_execute c (obsw_abs s)), s')"
    and "obsw_inv s'" and "obsw_abs s' = snd (sp_execute c (obsw_abs s))"
    and "tc_service c = word_of_int service" and "tc_subtype c = word_of_int subtype" and "tc_app c = app"
    and "tc_ack c = 9"
proof -
  obtain bs where bs: "build_tc (tc_call service subtype app) = Inr bs" "tc_verdict bs = PUS_OK"
    "tc_service (tc_decode bs) = word_of_int service" "tc_subtype (tc_decode bs) = word_of_int subtype"
    "tc_app (tc_decode bs) = app" "tc_ack (tc_decode bs) = 9"
    using call_verdict [OF app(2)] by metis
  show ?thesis
    by (rule refinesE [OF obc_process_tc_accepted [OF inv bs(2), of "[]"]])
       (rule that [of "tc_decode bs"], simp_all add: bs app(1) uplink_def)
qed

text \<open>A function request sent from the ground, on the abstract state.\<close>

lemma coherent_core: "core a = core b \<Longrightarrow> coherent a \<longleftrightarrow> coherent b"
  by (simp add: coherent_def core_def)

lemma uplink_function:
  assumes inv: "obsw_inv s" and app: "data = Inr app" "length app \<le> 65529" and f: "function_request app = Inr f"
  obtains b s' where "core b = core (obsw_abs s)" and "uplink 8 1 data s = Some (fst (perform_function f b), s')"
    and "core (obsw_abs s') = core (snd (perform_function f b))" and "obsw_inv s'"
    and "coherent (obsw_abs s) \<longrightarrow> coherent (obsw_abs s')"
proof -
  obtain c s' where s': "uplink 8 1 data s = Some (fst (sp_execute c (obsw_abs s)), s')" "obsw_inv s'"
      "obsw_abs s' = snd (sp_execute c (obsw_abs s))" "tc_service c = 8" "tc_subtype c = 1" "tc_app c = app"
    using uplink_runs [OF inv app, of 8 1] by (metis word_of_int_1 word_of_int_numeral)
  have route: "sp_route c b = perform_function f b" for b
    using s'(4-6) f by (simp add: sp_route_def sp_svc08_def)
  have "coherent (obsw_abs s) \<longrightarrow> coherent (obsw_abs s')"
    unfolding s'(3) by (rule coherence.execute)
  then show ?thesis
    using execute_core [of "obsw_abs s" c] that s'(1-3) unfolding route by metis
qed

text \<open>The heater line in a coherent state, and the mode as the number the ground uses.\<close>

lemma heater_line: "coherent (obsw_abs s) \<Longrightarrow> hal_get_heater (hal s) = of_bool (sp_heater (obsw_abs s))"
  by (simp add: coherent_def hal_get_heater_def sp_hal_abs)

lemma uplink_set_mode:
  assumes inv: "obsw_inv s" and co: "coherent (obsw_abs s)" and m: "m \<in> {0, 1}"
  shows "\<exists>s'. uplink 8 1 (set_mode m) s = Some (PUS_OK, s') \<and> uint (mode (s_state s')) = m \<and>
    hal_get_heater (hal s') = (if m = 0 then PUS_FALSE else hal_get_heater (hal s)) \<and>
    heater_on (s_state s') = hal_get_heater (hal s')"
proof -
  let ?m = "if m = 0 then Safe else Nominal"
  obtain app where app: "set_mode m = Inr app" "length app \<le> 65529" "function_request app = Inr (Set_Mode ?m)"
    using set_mode_request [OF m] by blast
  obtain b s' where b: "core b = core (obsw_abs s)"
    and s': "uplink 8 1 (set_mode m) s = Some (PUS_OK, s')" "core (obsw_abs s') = core (sp_set_mode ?m b)"
      "obsw_inv s'" "coherent (obsw_abs s) \<longrightarrow> coherent (obsw_abs s')"
    by (rule uplink_function [OF inv app]) (rule that, simp_all)
  have co': "coherent (obsw_abs s')"
    using s'(4) co by blast
  have "sp_mode (obsw_abs s') = ?m"
    using s'(2) by (simp add: core_def)
  then have "uint (mode (s_state s')) = m"
    using s'(3) m by (auto simp: obsw_inv_def obsw_abs_def mode_of_def split: if_splits)
  moreover have "sp_heater (obsw_abs s') \<longleftrightarrow> m \<noteq> 0 \<and> sp_heater (obsw_abs s)"
    using b s'(2) co coherent_core [OF b] by (auto simp: core_def coherent_def split: if_splits)
  ultimately show ?thesis
    using s'(1) heater_line [OF co] heater_line [OF co'] heater_abs [OF s'(3)] by auto
qed

lemma uplink_set_heater:
  assumes inv: "obsw_inv s" and co: "coherent (obsw_abs s)"
  shows "\<exists>st s'. uplink 8 1 (set_heater on) s = Some (st, s') \<and>
    heater_on (s_state s') = hal_get_heater (hal s') \<and>
    (if mode (s_state s) = OBC_MODE_SAFE
     then st = PUS_ERR_NOT_PERMITTED \<and> hal_get_heater (hal s') = PUS_FALSE
     else st = PUS_OK \<and> hal_get_heater (hal s') = of_bool on)"
proof -
  obtain app where app: "set_heater on = Inr app" "length app \<le> 65529" "function_request app = Inr (Set_Heater on)"
    using set_heater_request by blast
  obtain b s' where b: "core b = core (obsw_abs s)"
    and s': "uplink 8 1 (set_heater on) s = Some (fst (sp_set_heater on b), s')"
      "core (obsw_abs s') = core (snd (sp_set_heater on b))" "obsw_inv s'"
      "coherent (obsw_abs s) \<longrightarrow> coherent (obsw_abs s')"
    by (rule uplink_function [OF inv app]) (rule that, simp_all)
  have "coherent (obsw_abs s')"
    using s'(4) co by blast
  moreover have "fst (sp_set_heater on b) = (if mode (s_state s) = 0 then PUS_ERR_NOT_PERMITTED else PUS_OK)"
    "sp_heater (obsw_abs s') = (mode (s_state s) \<noteq> 0 \<and> on)"
    using b s'(2) sp_mode_Safe [of s] co by (auto simp: core_def coherent_def sp_set_heater_def)
  ultimately show ?thesis
    using s'(1) heater_line [of s'] heater_abs [OF s'(3)] by simp
qed

lemma uplink_inject_temperature:
  assumes inv: "obsw_inv s" and v: "- 32768 \<le> v" "v < 32768"
  shows "\<exists>s'. uplink 8 1 (inject_temperature v) s = Some (PUS_OK, s') \<and> sint (hal_read_temperature (hal s')) = v"
proof -
  obtain app where app: "inject_temperature v = Inr app" "length app \<le> 65529"
      "function_request app = Inr (Inject_Temp (word_of_int v))"
    using inject_temperature_request [OF v] by blast
  obtain b s' where s': "uplink 8 1 (inject_temperature v) s = Some (PUS_OK, s')"
      "core (obsw_abs s') = core (b\<lparr> sp_hal := hal_inject_temperature (word_of_int v) (sp_hal b) \<rparr>)"
    by (rule uplink_function [OF inv app]) (rule that, simp_all)
  have "sint (word_of_int v :: i16) = v"
    using v by (simp add: signed_of_int signed_take_bit_int_eq_self)
  then have "sint (hal_read_temperature (hal s')) = v"
    using s'(2) by (simp add: core_def sp_hal_abs hal_inject_temperature_def hal_read_temperature_def)
  then show ?thesis
    using s'(1) by blast
qed

lemma uplink_set_time:
  assumes inv: "obsw_inv s" and c: "0 \<le> c" "c < 4294967296" and f: "0 \<le> f" "f < 65536" and frac: "int (frac (hal s)) \<le> f"
  shows "\<exists>s'. uplink 8 1 (set_time c f) s = Some (PUS_OK, s') \<and>
    uint (fst (cuc_time (hal s'))) = c \<and> uint (snd (cuc_time (hal s'))) = f"
proof -
  obtain app where app: "set_time c f = Inr app" "length app \<le> 65529"
      "function_request app = Inr (Set_Time (word_of_int c) (word_of_int f))"
    using set_time_request [OF c f] by blast
  obtain b s' where "core b = core (obsw_abs s)" and s': "uplink 8 1 (set_time c f) s = Some (PUS_OK, s')"
      "core (obsw_abs s') = core (b\<lparr> sp_hal := hal_set_cuc_time (word_of_int c) (word_of_int f) (sp_hal b) \<rparr>)"
    by (rule uplink_function [OF inv app]) (rule that, simp_all)
  then have "hal s' = hal_set_cuc_time (word_of_int c) (word_of_int f) (hal s)"
    by (simp add: core_def sp_hal_abs)
  moreover have "uint (word_of_int c :: u32) = c" "uint (word_of_int f :: u16) = f"
    using c f by (simp_all add: uint_word_of_int_small)
  moreover from this have "frac (hal s) \<le> unat (word_of_int f :: u16)"
    using frac by (simp add: unat_eq_nat_uint le_nat_iff)
  ultimately show ?thesis
    using s'(1) by (simp add: cuc_time_set_exact)
qed

section \<open>List requests\<close>

lemma hk_list_eq:
  assumes "length sids \<le> 255" and "set sids \<subseteq> {0..255}"
  shows "hk_list sids = Inr (word_of_int (int (length sids)) # map word_of_int sids)"
proof -
  have "list_all (\<lambda>v. 0 \<le> v \<and> v < 256) sids"
    using assms(2) by (auto simp: list_all_iff)
  then show ?thesis
    using assms(1) by (simp add: hk_list_def py_bytes_def)
qed

lemma event_list_loop_eq:
  "set ids \<subseteq> {0..65535} \<Longrightarrow> event_list_loop ids out = Inr (out @ concat (map (\<lambda>k. be16 (word_of_int k)) ids))"
  by (induction ids arbitrary: out) (auto simp: to_bytes_16)

lemma event_list_eq:
  assumes "length ids \<le> 255" and "set ids \<subseteq> {0..65535}"
  shows "event_list ids =
    Inr (word_of_int (int (length ids)) # concat (map (\<lambda>k. be16 (word_of_int k)) ids))"
  using assms by (simp add: event_list_def py_bytes_def event_list_loop_eq)

lemma words16_concat: "words16 (concat (map be16 ws)) = ws"
  by (induction ws) (simp_all add: be16_def)

lemma unat_length: "n \<le> 255 \<Longrightarrow> unat (word_of_int (int n) :: u8) = n"
  by (simp add: unat_of_nat take_bit_eq_mod)

lemma word_of_int_mem:
  assumes "set ks \<subseteq> {0..<2 ^ LENGTH('a)}"
  shows "(x :: 'a::len word) \<in> set (map word_of_int ks) \<longleftrightarrow> uint x \<in> set ks"
proof -
  have "word_of_int k = x \<longleftrightarrow> k = uint x" if "k \<in> set ks" for k
    using that assms uint_word_of_int_small [of k, where 'a = 'a] by auto
  then show ?thesis
    unfolding set_map image_iff by metis
qed

lemma hk_list_verdict_ground:
  assumes "sids \<noteq> []" and "length sids \<le> 255" and "set sids \<subseteq> {0..255}"
  shows "hk_list_verdict (word_of_int (int (length sids)) # map word_of_int sids)
    = (if set sids \<subseteq> {1, 2} then PUS_OK else PUS_ERR_UNKNOWN_SID)"
proof -
  have "hk_sid_ok (word_of_int k) \<longleftrightarrow> k \<in> {1, 2}" if "k \<in> set sids" for k
    using that assms(3) uint_word_of_int_small [of k, where 'a = 8]
    by (auto simp: hk_sid_ok_def word_uint_eq_iff)
  then have "list_all hk_sid_ok (map word_of_int sids) \<longleftrightarrow> set sids \<subseteq> {1, 2}"
    by (auto simp: list_all_iff)
  moreover have "(word_of_int (int (length sids)) :: u8) \<noteq> 0"
    using unat_length [OF assms(2)] assms(1) by (metis length_0_conv unat_0)
  ultimately show ?thesis
    unfolding hk_list_verdict_def list.case length_map unat_length [OF assms(2)] by simp
qed

lemma event_list_verdict_ground:
  assumes "ids \<noteq> []" and "length ids \<le> 255" and "set ids \<subseteq> {0..65535}"
  shows "event_list_verdict (word_of_int (int (length ids)) # concat (map (\<lambda>k. be16 (word_of_int k)) ids))
    = (if set ids \<subseteq> {1..8} then PUS_OK else PUS_ERR_UNKNOWN_EVENT)"
proof -
  have words: "words16 (concat (map (\<lambda>k. be16 (word_of_int k)) ids)) = map word_of_int ids"
    using words16_concat [of "map word_of_int ids"] by (simp add: comp_def)
  have len: "length (concat (map (\<lambda>k. be16 (word_of_int k)) ids)) = 2 * length ids"
    by (induction ids) simp_all
  have "event_id_ok (word_of_int k) \<longleftrightarrow> k \<in> {1..8}" if "k \<in> set ids" for k
  proof -
    have "0 \<le> k" "k < 65536"
      using that assms(3) by auto
    then have "unat (word_of_int k :: u16) = nat k"
      using uint_word_of_int_small [of k, where 'a = 16] by (simp add: unat_eq_nat_uint)
    then show ?thesis
      using \<open>0 \<le> k\<close> by (simp add: event_id_ok_def nat_le_iff le_nat_iff)
  qed
  then have "list_all event_id_ok (map word_of_int ids) \<longleftrightarrow> set ids \<subseteq> {1..8}"
    by (auto simp: list_all_iff)
  moreover have "(word_of_int (int (length ids)) :: u8) \<noteq> 0"
    using unat_length [OF assms(2)] assms(1) by (metis length_0_conv unat_0)
  ultimately show ?thesis
    unfolding event_list_verdict_def list.case words len unat_length [OF assms(2)] by simp
qed

lemma uplink_hk_list:
  assumes inv: "obsw_inv s" and sids: "sids \<noteq> []" "length sids \<le> 255" "set sids \<subseteq> {0..255}"
  shows "\<exists>s'. uplink 3 (if v then 5 else 6) (hk_list sids) s =
      Some (if set sids \<subseteq> {1, 2} then PUS_OK else PUS_ERR_UNKNOWN_SID, s') \<and>
    sp_hk (obsw_abs s') = (\<lambda>x. if set sids \<subseteq> {1, 2} \<and> uint x \<in> set sids then v else sp_hk (obsw_abs s) x)"
proof -
  let ?app = "word_of_int (int (length sids)) # map word_of_int sids :: u8 list"
  have "length ?app \<le> 65529"
    using sids(2) by simp
  then obtain c s' where s': "uplink 3 (if v then 5 else 6) (hk_list sids) s = Some (fst (sp_execute c (obsw_abs s)), s')"
      "obsw_abs s' = snd (sp_execute c (obsw_abs s))"
    and c: "tc_service c = 3" "tc_subtype c = word_of_int (if v then 5 else 6)" "tc_app c = ?app"
    by (rule uplink_runs [OF inv hk_list_eq [OF sids(2,3)], where service = 3 and subtype = "if v then 5 else 6"])
      (rule that, simp_all)
  obtain b where b: "core b = core (obsw_abs s)" "fst (sp_execute c (obsw_abs s)) = fst (sp_route c b)"
      "core (snd (sp_execute c (obsw_abs s))) = core (snd (sp_route c b))"
    by (rule execute_core)
  have "x \<in> set (map word_of_int sids) \<longleftrightarrow> uint x \<in> set sids" for x :: u8
    using sids(3) by (intro word_of_int_mem) auto
  then have flags: "set_flags (map word_of_int sids) v f = (\<lambda>x :: u8. if uint x \<in> set sids then v else f x)" for f
    by (simp add: set_flags_def fun_eq_iff del: set_map)
  have route: "sp_route c b = (if set sids \<subseteq> {1, 2} then sp_hk_enable v (map word_of_int sids) b
      else (PUS_ERR_UNKNOWN_SID, b))"
    using hk_list_verdict_ground [OF sids] c
    by (cases v) (simp_all add: sp_route_def sp_svc03_def sp_hk_list_def)
  show ?thesis
    using s' b unfolding route
    by (cases "set sids \<subseteq> {1, 2}") (auto simp: sp_hk_enable_def flags core_def)
qed

lemma uplink_event_list:
  assumes inv: "obsw_inv s" and ids: "ids \<noteq> []" "length ids \<le> 255" "set ids \<subseteq> {0..65535}"
  shows "\<exists>s'. uplink 5 (if v then 6 else 5) (event_list ids) s =
      Some (if set ids \<subseteq> {1..8} then PUS_OK else PUS_ERR_UNKNOWN_EVENT, s') \<and>
    sp_ev (obsw_abs s') = (\<lambda>x. if set ids \<subseteq> {1..8} \<and> uint x \<in> set ids then v else sp_ev (obsw_abs s) x)"
proof -
  let ?app = "word_of_int (int (length ids)) # concat (map (\<lambda>k. be16 (word_of_int k)) ids) :: u8 list"
  have "length (concat (map (\<lambda>k. be16 (word_of_int k)) ids)) = 2 * length ids"
    by (induction ids) simp_all
  then have "length ?app \<le> 65529"
    using ids(2) by simp
  then obtain c s' where s': "uplink 5 (if v then 6 else 5) (event_list ids) s = Some (fst (sp_execute c (obsw_abs s)), s')"
      "obsw_abs s' = snd (sp_execute c (obsw_abs s))"
    and c: "tc_service c = 5" "tc_subtype c = word_of_int (if v then 6 else 5)" "tc_app c = ?app"
    by (rule uplink_runs [OF inv event_list_eq [OF ids(2,3)], where service = 5 and subtype = "if v then 6 else 5"])
      (rule that, simp_all)
  obtain b where b: "core b = core (obsw_abs s)" "fst (sp_execute c (obsw_abs s)) = fst (sp_route c b)"
      "core (snd (sp_execute c (obsw_abs s))) = core (snd (sp_route c b))"
    by (rule execute_core)
  have "x \<in> set (map word_of_int ids) \<longleftrightarrow> uint x \<in> set ids" for x :: u16
    using ids(3) by (intro word_of_int_mem) auto
  then have flags: "set_flags (map word_of_int ids) v f = (\<lambda>x :: u16. if uint x \<in> set ids then v else f x)" for f
    by (simp add: set_flags_def fun_eq_iff del: set_map)
  have words: "words16 (tl ?app) = map word_of_int ids"
    using words16_concat [of "map word_of_int ids"] by (simp add: comp_def)
  have route: "sp_route c b = (if set ids \<subseteq> {1..8}
      then (PUS_OK, b\<lparr> sp_ev := set_flags (map word_of_int ids) v (sp_ev b) \<rparr>) else (PUS_ERR_UNKNOWN_EVENT, b))"
    using event_list_verdict_ground [OF ids] c words
    by (cases v) (simp_all add: sp_route_def sp_svc05_def sp_set_events_def)
  show ?thesis
    using s' b unfolding route
    by (cases "set ids \<subseteq> {1..8}") (auto simp: flags core_def)
qed

section \<open>Reports\<close>

lemma queue_fits: "obsw_inv s \<Longrightarrow> m \<in> set (sp_queue (obsw_abs s)) \<Longrightarrow> tm_fits m"
  by (auto simp: obsw_inv_def queue_wf_def obsw_abs_def tm_fits_def tm_decode_encode dest!: bspec)

lemma request_octets: "4 \<le> length bs \<Longrightarrow> be32 (raw_request bs) = take 4 bs"
  using take_4_drop [of 0 bs] by (simp add: raw_request_def numeral_eq_Suc)

lemma p_service1:
  "p_data p = be32 req \<Longrightarrow> p_request_id p = uint req"
  "p_data p = be32 req @ be16 code \<Longrightarrow> p_request_id p = uint req \<and> p_failure_code p = uint code"
  by (simp_all add: p_request_id_def p_failure_code_def py_slice_from_start)

lemma p_event: "p_data p = be16 eid @ be16 aux \<Longrightarrow> p_event_id p = uint eid \<and> p_event_aux p = uint aux"
  by (simp add: p_event_id_def p_event_aux_def py_slice_from_start)

text \<open>
  What a refused packet adds to the downlink: the failure report and the event, as far as the
  queue has room, and every one that does not fit is counted as lost.
\<close>

lemma queue_le: "obsw_inv s \<Longrightarrow> length (sp_queue (obsw_abs s)) \<le> 16"
  by (simp add: obsw_inv_def tmq_inv_def obsw_abs_def)

lemma sp_refuse_queue:
  assumes "length (sp_queue a) \<le> 16"
  obtains r e where "sp_queue (sp_refuse bs st a) =
      sp_queue a @ take (16 - length (sp_queue a)) (r # (if sp_ev a 3 then [e] else []))"
    and "unat (sp_drops (sp_refuse bs st a)) =
      min 65535 (unat (sp_drops a) + (length (sp_queue a) + (if sp_ev a 3 then 2 else 1) - 16))"
    and "m_service r = 1" "m_subtype r = 2" "m_data r = be32 (raw_request bs) @ be16 (status_code st)"
    and "m_service e = 5" "m_subtype e = 2" "m_data e = be16 3 @ be16 (status_code st)"
proof -
  let ?b = "a\<lparr> sp_rejected := sat_inc (sp_rejected a), sp_failure := status_code st \<rparr>"
  let ?r = "stamp 1 2 (be32 (raw_request bs) @ be16 (status_code st)) ?b"
  let ?c = "snd (sp_reject bs st ?b)"
  let ?e = "stamp 5 2 (event_data 3 (status_code st)) ?c"
  have d: "unat (sp_drops a) \<le> 65535"
    using unat_u16_less [of "sp_drops a"] by simp
  have c: "sp_queue ?c = (if length (sp_queue a) < 16 then sp_queue a @ [?r] else sp_queue a)"
    "sp_drops ?c = (if length (sp_queue a) < 16 then sp_drops a else sat_inc (sp_drops a))" "sp_ev ?c = sp_ev a"
    by (simp_all add: sp_reject_def sp_failure_report_def emit_def Let_def)
  have f: "sp_queue (sp_refuse bs st a) = (if sp_ev a 3 \<and> length (sp_queue ?c) < 16 then sp_queue ?c @ [?e] else sp_queue ?c)"
    "sp_drops (sp_refuse bs st a) = (if sp_ev a 3 \<and> \<not> length (sp_queue ?c) < 16 then sat_inc (sp_drops ?c) else sp_drops ?c)"
    unfolding sp_refuse_def Let_def by (simp_all add: sp_event_def emit_def c(3) Let_def)
  let ?n = "length (sp_queue a)"
  have both: "sp_queue (sp_refuse bs st a) = sp_queue a @ take (16 - ?n) (?r # (if sp_ev a 3 then [?e] else [])) \<and>
      unat (sp_drops (sp_refuse bs st a)) = min 65535 (unat (sp_drops a) + (?n + (if sp_ev a 3 then 2 else 1) - 16))"
  proof -
    consider "?n < 15" | "?n = 15" | "?n = 16"
      using assms by linarith
    then show ?thesis
    proof cases
      case 1
      then have "16 - ?n = Suc (Suc (14 - ?n))"
        by linarith
      then show ?thesis
        unfolding f c using 1 d by simp
    next
      case 2
      then show ?thesis
        unfolding f c using d by (cases "sp_ev a 3") (simp_all add: unat_sat_inc)
    next
      case 3
      then show ?thesis
        unfolding f c using d by (cases "sp_ev a 3") (simp_all add: unat_sat_inc)
    qed
  qed
  show ?thesis
    by (rule that [OF conjunct1 [OF both] conjunct2 [OF both]]) (simp_all add: stamp_def event_data_def)
qed

lemma refused_reports:
  assumes "obsw_inv s" and "tc_verdict bs = st" and "st \<noteq> PUS_OK"
  obtains s' where "obc_process_tc (Some (octets bs)) (length bs) s = Some (st, s')"
    and "obsw_abs s' = sp_refuse bs st (obsw_abs s)"
    and "\<forall>m \<in> set (sp_queue (obsw_abs s')). parse_tm (tm_encode m) = Inr (packet_of m)"
proof -
  have "tc_verdict bs \<noteq> PUS_OK"
    using assms(2,3) by simp
  then obtain s' where s': "obc_process_tc (Some (octets bs)) (length bs) s = Some (st, s')" "obsw_inv s'"
      "obsw_abs s' = sp_refuse bs st (obsw_abs s)"
    using obc_process_tc_rejected [OF assms(1), of bs "[]"] unfolding assms(2) by (auto elim: refinesE)
  then show ?thesis
    using that parse_tm_encode queue_fits [OF s'(2)] by blast
qed

text \<open>What a connection test adds to the downlink.\<close>

lemma sp_execute_connection_test:
  assumes c: "tc_service c = 17" "tc_subtype c = 1" "tc_app c = []" "tc_ack c = 9" and len: "length (sp_queue a) \<le> 13"
  shows "\<exists>ms sq ct. sp_execute c a = (PUS_OK, a\<lparr> sp_queue := sp_queue a @ ms,
      sp_accepted := sat_inc (sp_accepted a), sp_seq := sq, sp_ctr := ct \<rparr>) \<and>
    map (\<lambda>m. (m_service m, m_subtype m, m_data m)) ms =
      [(1, 1, be32 (tc_request c)), (17, 2, []), (1, 7, be32 (tc_request c))]"
proof -
  have acks: "ack_requested c 1" "ack_requested c 8"
    by (simp_all add: ack_requested_def c)
  let ?b = "snd (emit 1 1 (be32 (tc_request c)) (a\<lparr> sp_accepted := sat_inc (sp_accepted a) \<rparr>))"
  let ?d = "snd (emit 17 2 [] ?b)"
  let ?e = "snd (emit 1 7 (be32 (tc_request c)) ?d)"
  have emits: "length (sp_queue x) < 16 \<Longrightarrow> emit svc sub data x = (PUS_OK, x\<lparr> sp_queue := sp_queue x @ [stamp svc sub data x],
      sp_seq := (sp_seq x + 1) AND 0x3FFF, sp_ctr := (sp_ctr x)(svc := sp_ctr x svc + 1) \<rparr>)" for svc sub data and x :: spec
    by (cases x) (simp add: emit_def Let_def)
  have "sp_execute c a = (PUS_OK, ?e)"
    using acks len by (simp add: sp_execute_def sp_acceptance_def sp_success_def sp_route_def sp_svc17_def c
        sp_finish_def sp_completion_def emits split_beta Let_def)
  moreover have "\<exists>ms sq ct. ?e = a\<lparr> sp_queue := sp_queue a @ ms, sp_accepted := sat_inc (sp_accepted a), sp_seq := sq, sp_ctr := ct \<rparr> \<and>
      map (\<lambda>m. (m_service m, m_subtype m, m_data m)) ms =
        [(1, 1, be32 (tc_request c)), (17, 2, []), (1, 7, be32 (tc_request c))]"
    using len
    by (intro exI [of _ "drop (length (sp_queue a)) (sp_queue ?e)"] exI [of _ "sp_seq ?e"] exI [of _ "sp_ctr ?e"])
      (simp add: emits stamp_def)
  ultimately show ?thesis
    by simp
qed

section \<open>Properties\<close>

text \<open>
  C29: A function the ground requests with its own builders and encoder is performed on board: the
  mode is reached, and SAFE mode switches the heater line off while NOMINAL mode leaves it as it
  is; the heater line follows the command, unless the unit is in SAFE mode, where the command is
  refused and the line stays off; the injected temperature is the one the thermistor reads, sign
  included; and the clock reads the commanded time, provided the commanded fraction is not below
  the fraction of the running second. Below it the clock is one second late
  (hal_set_cuc_time_readback), and nothing is said here.
\<close>

theorem ground_functions_performed:
  assumes "reachable s"
  shows "(m \<in> {0, 1} \<longrightarrow>
      (\<exists>s'. uplink 8 1 (set_mode m) s = Some (PUS_OK, s') \<and> uint (mode (s_state s')) = m \<and>
        hal_get_heater (hal s') = (if m = 0 then PUS_FALSE else hal_get_heater (hal s)) \<and>
        heater_on (s_state s') = hal_get_heater (hal s'))) \<and>
    (\<exists>st s'. uplink 8 1 (set_heater on) s = Some (st, s') \<and>
      heater_on (s_state s') = hal_get_heater (hal s') \<and>
      (if mode (s_state s) = OBC_MODE_SAFE
       then st = PUS_ERR_NOT_PERMITTED \<and> hal_get_heater (hal s') = PUS_FALSE
       else st = PUS_OK \<and> hal_get_heater (hal s') = of_bool on)) \<and>
    (- 32768 \<le> v \<and> v < 32768 \<longrightarrow>
      (\<exists>s'. uplink 8 1 (inject_temperature v) s = Some (PUS_OK, s') \<and> sint (hal_read_temperature (hal s')) = v)) \<and>
    (0 \<le> c \<and> c < 4294967296 \<and> int (frac (hal s)) \<le> f \<and> f < 65536 \<longrightarrow>
      (\<exists>s'. uplink 8 1 (set_time c f) s = Some (PUS_OK, s') \<and>
        uint (fst (cuc_time (hal s'))) = c \<and> uint (snd (cuc_time (hal s'))) = f))"
proof -
  have inv: "obsw_inv s" and co: "coherent (obsw_abs s)"
    using assms by (auto intro: reachable_inv reachable_coherent)
  have "0 \<le> f" if "int (frac (hal s)) \<le> f"
    using that by linarith
  then show ?thesis
    using uplink_set_mode [OF inv co, of m] uplink_set_heater [OF inv co, of on]
      uplink_inject_temperature [OF inv, of v] uplink_set_time [OF inv, of c f] by blast
qed

lemma ground_functions_performed_witness:
  "\<exists>s'. uplink 8 1 (inject_temperature (- 200)) booted = Some (PUS_OK, s') \<and>
     sint (hal_read_temperature (hal s')) = - 200"
  using ground_functions_performed [OF booted(1), of 0 True "- 200" 0 0] by simp

text \<open>
  C33: A housekeeping report generated in any reachable state with room in the queue is decoded by the
  ground, from the octets of its packet, to the values of the on-board state: the temperature with
  its sign, the counters, the queue occupancy.
\<close>

theorem hk_report_readback:
  assumes "reachable s" and "hk_sid_ok sid" and "s_count (tmq s) < 16"
  shows "\<exists>s' m p. svc03_generate sid s = Some (PUS_OK, s') \<and>
    sp_queue (obsw_abs s') = sp_queue (obsw_abs s) @ [m] \<and> parse_tm (tm_encode m) = Inr p \<and>
    (p_service p, p_subtype p) = (3, 25) \<and>
    decode_hk (p_data p) = Inr (let st = s_state s in
      if sid = 1
      then Essential 1 (uint (mode st)) (uint (uptime_ticks st)) (sint (temperature_dc st)) (uint (heater_on st))
      else Diagnostic 2 (uint (tc_accepted st)) (uint (tc_rejected st)) (uint (last_failure_code st))
        (int (s_count (tmq s))) (uint (s_overflows (tmq s))))"
proof -
  have inv: "obsw_inv s"
    using assms(1) by (rule reachable_inv)
  let ?a = "obsw_abs s"
  let ?m = "stamp 3 25 (hk_data sid ?a) ?a"
  have "length (sp_queue ?a) = s_count (tmq s)"
    by (simp add: obsw_abs_def)
  then have emit: "fst (sp_hk_report sid ?a) = PUS_OK" "sp_queue (snd (sp_hk_report sid ?a)) = sp_queue ?a @ [?m]"
    using assms(3) by (simp_all add: sp_hk_report_def emit_def Let_def)
  obtain s' where s': "svc03_generate sid s = Some (PUS_OK, s')" "obsw_inv s'"
      "sp_queue (obsw_abs s') = sp_queue ?a @ [?m]"
    using svc03_generate_refines [OF inv assms(2)] emit by (elim refinesE) metis
  then have "parse_tm (tm_encode ?m) = Inr (packet_of ?m)"
    using queue_fits [of s' ?m] by (simp add: parse_tm_encode)
  moreover have "mode (s_state s) \<in> {0, 1}"
    using inv by (simp add: obsw_inv_def)
  then have "uint (ucast (mode (s_state s)) :: u8) = uint (mode (s_state s))"
    by auto
  moreover have "uint (of_nat (s_count (tmq s)) :: u8) = int (s_count (tmq s))"
    using assms(3) by (simp add: unsigned_of_nat take_bit_eq_mod)
  moreover have "p_data (packet_of ?m) = hk_data sid ?a" "p_service (packet_of ?m) = 3" "p_subtype (packet_of ?m) = 25"
    by (simp_all add: packet_of_def stamp_def)
  ultimately show ?thesis
    using s'(1,3) assms(2) unfolding hk_sid_ok_def
    by (elim disjE) (auto simp: hk_data_essential [OF inv] hk_data_diagnostic decode_hk_essential [simplified]
      decode_hk_diagnostic [simplified] Let_def)
qed

lemma hk_report_readback_witness:
  "\<exists>s' m p. svc03_generate 1 booted = Some (PUS_OK, s') \<and>
     parse_tm (tm_encode m) = Inr p \<and> decode_hk (p_data p) = Inr (Essential 1 0 0 200 0)"
proof -
  have "length (sp_queue (obsw_abs booted)) = 1" "sp_mode (obsw_abs booted) = Safe" "sp_heater (obsw_abs booted) = False"
    "sp_uptime (obsw_abs booted) = 0" "sp_temp (obsw_abs booted) = 200"
    by (simp_all add: booted sp_boot_eq boot_spec_def emit_def stamp_def Let_def)
  moreover have "length (sp_queue (obsw_abs s)) = s_count (tmq s)" "sp_uptime (obsw_abs s) = uptime_ticks (s_state s)"
    "sp_temp (obsw_abs s) = temperature_dc (s_state s)" for s
    by (simp_all add: obsw_abs_def)
  ultimately have "s_count (tmq booted) < 16" and state: "mode (s_state booted) = 0" "heater_on (s_state booted) = 0"
    "uptime_ticks (s_state booted) = 0" "temperature_dc (s_state booted) = 200"
    using heater_abs [OF booted(2)] sp_mode_Safe [of booted] by simp_all
  have temp: "sint (200 :: i16) = 200"
    by code_simp
  have "hk_sid_ok 1"
    by (simp add: hk_sid_ok_def)
  from hk_report_readback [OF booted(1) this \<open>s_count (tmq booted) < 16\<close>]
  obtain s' m p where "svc03_generate 1 booted = Some (PUS_OK, s')" "parse_tm (tm_encode m) = Inr p"
    and "decode_hk (p_data p) = Inr (let st = s_state booted in
      if (1 :: u8) = 1
      then Essential 1 (uint (mode st)) (uint (uptime_ticks st)) (sint (temperature_dc st)) (uint (heater_on st))
      else Diagnostic 2 (uint (tc_accepted st)) (uint (tc_rejected st)) (uint (last_failure_code st))
        (int (s_count (tmq booted))) (uint (s_overflows (tmq booted))))"
    by blast
  moreover from this(3) have "decode_hk (p_data p) = Inr (Essential 1 0 0 200 0)"
    unfolding Let_def state temp by simp
  ultimately show ?thesis
    by blast
qed

text \<open>
  C10: Whatever defect the ground injects into a telecommand, the answer it reads back names it: a
  (1,2) report that echoes the request identifier and carries the code of the first defect, and,
  while that event is enabled, a (5,2) event report with the same code. This is what the downlink
  queue has room for: with one place left only the (1,2) report is queued, with none nothing is,
  and the reports left out are counted as lost, up to 65535.
\<close>

theorem injected_defect_reported:
  assumes "reachable s" and "0 \<le> a_source_id a" and "a_source_id a < 65536" and "injected_verdict a \<noteq> PUS_OK"
  shows "\<exists>bs s' ms. build_tc a = Inr bs \<and>
    obc_process_tc (Some (octets bs)) (length bs) s = Some (injected_verdict a, s') \<and>
    sp_queue (obsw_abs s') = sp_queue (obsw_abs s) @ ms \<and>
    (let n = if sp_ev (obsw_abs s) 3 then 2 else 1
     in length ms = min (16 - s_count (tmq s)) n \<and>
       unat (s_overflows (tmq s')) = min 65535 (unat (s_overflows (tmq s)) + (n - length ms))) \<and>
    (0 < length ms \<longrightarrow>
      (\<exists>p. parse_tm (tm_encode (ms ! 0)) = Inr p \<and> (p_service p, p_subtype p) = (1, 2) \<and>
        p_request_id p = from_bytes (take 4 bs) \<and> p_failure_code p = uint (status_code (injected_verdict a)))) \<and>
    (1 < length ms \<longrightarrow>
      (\<exists>p. parse_tm (tm_encode (ms ! 1)) = Inr p \<and> (p_service p, p_subtype p) = (5, 2) \<and>
        p_event_id p = 3 \<and> p_event_aux p = uint (status_code (injected_verdict a))))"
proof -
  let ?st = "injected_verdict a" and ?n = "if sp_ev (obsw_abs s) 3 then 2 else 1" and ?room = "16 - s_count (tmq s)"
  have inv: "obsw_inv s"
    using assms(1) by (rule reachable_inv)
  have q: "length (sp_queue (obsw_abs s)) = s_count (tmq s)" "s_count (tmq s) \<le> 16"
    and d: "sp_drops (obsw_abs x) = s_overflows (tmq x)" for x
    using queue_le [OF inv] by (simp_all add: obsw_abs_def)
  obtain bs where bs: "build_tc a = Inr bs" "length bs = 13 + length (a_data a)" "tc_verdict bs = ?st"
    using build_tc_judged [OF assms(2,3)] by metis
  obtain s' where s': "obc_process_tc (Some (octets bs)) (length bs) s = Some (?st, s')"
      "obsw_abs s' = sp_refuse bs ?st (obsw_abs s)"
      "\<forall>m \<in> set (sp_queue (obsw_abs s')). parse_tm (tm_encode m) = Inr (packet_of m)"
    using refused_reports [OF inv bs(3) assms(4)] by metis
  obtain r e where queue: "sp_queue (obsw_abs s') =
        sp_queue (obsw_abs s) @ take ?room (r # (if sp_ev (obsw_abs s) 3 then [e] else []))"
    and drops: "unat (s_overflows (tmq s')) = min 65535 (unat (s_overflows (tmq s)) + (s_count (tmq s) + ?n - 16))"
    and r: "m_service r = 1" "m_subtype r = 2" "m_data r = be32 (raw_request bs) @ be16 (status_code ?st)"
    and e: "m_service e = 5" "m_subtype e = 2" "m_data e = be16 3 @ be16 (status_code ?st)"
    using sp_refuse_queue [of "obsw_abs s" bs ?st] q unfolding s'(2) [symmetric] d by metis
  let ?ms = "take ?room (r # (if sp_ev (obsw_abs s) 3 then [e] else []))"
  have count: "length ?ms = min ?room ?n"
    by (simp add: min_def)
  have lost: "s_count (tmq s) + ?n - 16 = ?n - length ?ms"
    unfolding count using q(2) by linarith
  have req: "from_bytes (take 4 bs) = uint (raw_request bs)"
    using bs(2) by (simp flip: request_octets)
  have data: "p_data (packet_of r) = be32 (raw_request bs) @ be16 (status_code ?st)"
    "p_data (packet_of e) = be16 3 @ be16 (status_code ?st)"
    using r(3) e(3) by (simp_all add: packet_of_def)
  have parse: "parse_tm (tm_encode (?ms ! i)) = Inr (packet_of (?ms ! i))" if "i < length ?ms" for i
    using s'(3) nth_mem [OF that] unfolding queue by (auto simp del: take_Suc_Cons)
  have first: "\<exists>p. parse_tm (tm_encode (?ms ! 0)) = Inr p \<and> (p_service p, p_subtype p) = (1, 2) \<and>
      p_request_id p = from_bytes (take 4 bs) \<and> p_failure_code p = uint (status_code ?st)" if "0 < length ?ms"
    using parse [OF that] that p_service1(2) [OF data(1)] r(1,2) by (simp add: req packet_of_def)
  have second: "\<exists>p. parse_tm (tm_encode (?ms ! 1)) = Inr p \<and> (p_service p, p_subtype p) = (5, 2) \<and>
      p_event_id p = 3 \<and> p_event_aux p = uint (status_code ?st)" if "1 < length ?ms"
    using parse [OF that] that p_event [OF data(2)] e(1,2) by (simp add: packet_of_def split: if_splits)
  show ?thesis
    unfolding Let_def
    by (intro exI [of _ bs] exI [of _ s'] exI [of _ ?ms] conjI impI) (fact bs(1) s'(1) queue count drops [unfolded lost] | rule first second, assumption)+
qed

lemma injected_defect_reported_witness:
  "let a = (tc_call 17 1 [])\<lparr> a_apid := 5 \<rparr>
   in \<exists>bs s'. build_tc a = Inr bs \<and> obc_process_tc (Some (octets bs)) (length bs) booted = Some (PUS_ERR_BAD_APID, s') \<and>
     length (sp_queue (obsw_abs s')) = 3"
proof -
  let ?a = "(tc_call 17 1 [])\<lparr> a_apid := 5 \<rparr>"
  have v: "injected_verdict ?a = PUS_ERR_BAD_APID"
    by (simp add: injected_verdict_def length_field_def tc_call_def)
  have "0 \<le> a_source_id ?a" "a_source_id ?a < 65536" "injected_verdict ?a \<noteq> PUS_OK"
    unfolding v by (simp_all add: tc_call_def)
  moreover have one: "length (sp_queue (obsw_abs booted)) = 1" and ev: "sp_ev (obsw_abs booted) 3"
    by (simp_all add: booted sp_boot_eq boot_spec_def emit_def event_id_ok_def Let_def)
  from one have "s_count (tmq booted) = 1"
    by (simp add: obsw_abs_def)
  ultimately show ?thesis
    using injected_defect_reported [OF booted(1), of ?a] unfolding v Let_def by (auto simp: one ev)
qed

text \<open>
  The lists the ground builds configure exactly the structures and events they name, all or
  nothing: with an identifier the unit does not know the request is refused with its reason and
  the configuration stays as it was. The unit knows the structures 1 and 2 and the events 1 to 8,
  7 and 8 among them although no event has them.
\<close>

theorem ground_lists_applied:
  assumes "reachable s" and "ks \<noteq> []" and "length ks \<le> 255" and "set ks \<subseteq> {0..255}"
  shows "(\<exists>s'. uplink 3 (if v then 5 else 6) (hk_list ks) s =
        Some (if set ks \<subseteq> {1, 2} then PUS_OK else PUS_ERR_UNKNOWN_SID, s') \<and>
      sp_hk (obsw_abs s') = (\<lambda>x. if set ks \<subseteq> {1, 2} \<and> uint x \<in> set ks then v else sp_hk (obsw_abs s) x)) \<and>
    (\<exists>s'. uplink 5 (if v then 6 else 5) (event_list ks) s =
        Some (if set ks \<subseteq> {1..8} then PUS_OK else PUS_ERR_UNKNOWN_EVENT, s') \<and>
      sp_ev (obsw_abs s') = (\<lambda>x. if set ks \<subseteq> {1..8} \<and> uint x \<in> set ks then v else sp_ev (obsw_abs s) x))"
proof -
  have inv: "obsw_inv s" and "set ks \<subseteq> {0..65535}"
    using assms(1,4) by (auto intro: reachable_inv)
  then show ?thesis
    using uplink_hk_list [OF inv assms(2-4)] uplink_event_list [OF inv assms(2,3)] by blast
qed

lemma ground_lists_applied_witness:
  "\<exists>s'. uplink 3 5 (hk_list [2, 9]) booted = Some (PUS_ERR_UNKNOWN_SID, s') \<and>
     sp_hk (obsw_abs s') = sp_hk (obsw_abs booted)"
  using ground_lists_applied [OF booted(1), of "[2, 9]" True] by simp

text \<open>
  C28: The connection test. Whatever the unit is doing, the test the ground builds is executed, and with
  room for its reports the ground decodes from the downlink exactly the acceptance, the answer (17,2)
  without data and the completion, in this order, both with the request identifier of the test.
  Nothing else changes but the accepted counter and the message numbering.
\<close>

theorem connection_test_answered:
  assumes "reachable s" and "s_count (tmq s) \<le> 13"
  shows "\<exists>bs s' ms. build_tc (tc_call 17 1 []) = Inr bs \<and>
    obc_process_tc (Some (octets bs)) (length bs) s = Some (PUS_OK, s') \<and>
    obsw_abs s' = (obsw_abs s)\<lparr> sp_queue := sp_queue (obsw_abs s) @ ms, sp_accepted := sat_inc (sp_accepted (obsw_abs s)),
      sp_seq := sp_seq (obsw_abs s'), sp_ctr := sp_ctr (obsw_abs s') \<rparr> \<and>
    map (\<lambda>m. parse_tm (tm_encode m)) ms = map (\<lambda>m. Inr (packet_of m)) ms \<and>
    map (\<lambda>m. let p = packet_of m in (p_service p, p_subtype p, p_data p)) ms =
      [(1, 1, take 4 bs), (17, 2, []), (1, 7, take 4 bs)]"
proof -
  let ?a = "obsw_abs s"
  have inv: "obsw_inv s"
    using assms(1) by (rule reachable_inv)
  obtain bs where bs: "build_tc (tc_call 17 1 []) = Inr bs" "tc_verdict bs = PUS_OK"
    and c: "tc_service (tc_decode bs) = 17" "tc_subtype (tc_decode bs) = 1" "tc_app (tc_decode bs) = []" "tc_ack (tc_decode bs) = 9"
    by (rule call_verdict [of "[]" 17 1]) simp_all
  have "4 \<le> length bs"
    using bs(2) by (auto simp: tc_verdict_def Let_def split: if_splits)
  then have req: "be32 (tc_request (tc_decode bs)) = take 4 bs"
    using request_octets [of bs] by (simp add: tc_decode_def raw_request_def)
  have len: "length (sp_queue ?a) \<le> 13"
    using assms(2) by (simp add: obsw_abs_def)
  obtain ms sq ct where spec: "sp_execute (tc_decode bs) ?a = (PUS_OK, ?a\<lparr> sp_queue := sp_queue ?a @ ms,
      sp_accepted := sat_inc (sp_accepted ?a), sp_seq := sq, sp_ctr := ct \<rparr>)"
    and ms: "map (\<lambda>m. (m_service m, m_subtype m, m_data m)) ms = [(1, 1, take 4 bs), (17, 2, []), (1, 7, take 4 bs)]"
    using sp_execute_connection_test [OF c len] unfolding req by (elim exE conjE) (rule that)
  obtain s' where s': "obc_process_tc (Some (octets bs)) (length bs) s = Some (PUS_OK, s')" "obsw_inv s'"
      "obsw_abs s' = ?a\<lparr> sp_queue := sp_queue ?a @ ms, sp_accepted := sat_inc (sp_accepted ?a), sp_seq := sq, sp_ctr := ct \<rparr>"
    using obc_process_tc_accepted [OF inv bs(2), of "[]"] unfolding spec by (auto elim: refinesE)
  have "parse_tm (tm_encode m) = Inr (packet_of m)" if "m \<in> set ms" for m
    using that s'(3) by (intro parse_tm_encode queue_fits [OF s'(2)]) simp
  moreover have "map (\<lambda>m. let p = packet_of m in (p_service p, p_subtype p, p_data p)) ms =
      map (\<lambda>(svc, sub, data). (uint svc, uint sub, data)) (map (\<lambda>m. (m_service m, m_subtype m, m_data m)) ms)"
    by (simp add: packet_of_def)
  ultimately show ?thesis
    using bs(1) s'(1,3) ms by (intro exI [of _ bs] exI [of _ s'] exI [of _ ms]) simp
qed

lemma connection_test_answered_witness:
  "\<exists>bs s'. build_tc (tc_call 17 1 []) = Inr bs \<and> obc_process_tc (Some (octets bs)) (length bs) booted = Some (PUS_OK, s') \<and>
     length (sp_queue (obsw_abs s')) = 4"
proof -
  have one: "length (sp_queue (obsw_abs booted)) = 1"
    by (simp add: booted sp_boot_eq boot_spec_def emit_def Let_def)
  then have "s_count (tmq booted) \<le> 13"
    by (simp add: obsw_abs_def)
  from connection_test_answered [OF booted(1) this] obtain bs s' ms where
    "build_tc (tc_call 17 1 []) = Inr bs" "obc_process_tc (Some (octets bs)) (length bs) booted = Some (PUS_OK, s')"
    and spec: "obsw_abs s' = (obsw_abs booted)\<lparr> sp_queue := sp_queue (obsw_abs booted) @ ms,
      sp_accepted := sat_inc (sp_accepted (obsw_abs booted)), sp_seq := sp_seq (obsw_abs s'), sp_ctr := sp_ctr (obsw_abs s') \<rparr>"
    and three: "map (\<lambda>m. let p = packet_of m in (p_service p, p_subtype p, p_data p)) ms =
      [(1, 1, take 4 bs), (17, 2, []), (1, 7, take 4 bs)]"
    by (elim exE conjE) (rule that)
  moreover have "length ms = 3"
    using arg_cong [OF three, of length] by simp
  moreover have "sp_queue (obsw_abs s') = sp_queue (obsw_abs booted) @ ms"
    using arg_cong [OF spec, of sp_queue] by simp
  ultimately show ?thesis
    using one by auto
qed

end
