(* ===== verification/Gsw_Link.thy ===== *)
theory Gsw_Link
  imports Complex_Main Gsw_Packets Sim "HOL-Library.Multiset"
begin

text \<open>
  The link of the Python ground segment to the on-board software, the class \<open>ObcLink\<close> of
  \<open>tests/integration/gsw/client.py\<close>: it sends telecommands, splits the received stream into telemetry packets under a
  deadline, and keeps the packets a test did not ask for. The socket and the monotonic clock are
  the fields of \<open>tm_socket\<close>, over a state \<open>'w\<close> of the world; times are rational numbers of
  seconds, so the rounding of floating-point sums is not modelled. A call gives the exception or
  the value together with the object and the world afterwards. \<open>_read_exact\<close> always returns,
  since every turn adds an octet; the loops with a deadline are partial functions, where \<open>None\<close>
  is a loop that never ends.
\<close>

section \<open>The socket and the clock\<close>

datatype recv_result = Received "u8 list" | Timed_out | Os_error_raised

text \<open>
  \<open>sock_recv net t n w\<close> is \<open>settimeout(t)\<close> followed by \<open>recv(n)\<close>; no octets at all is the end of
  the stream. \<open>sock_sendall net bs w\<close> is \<open>sendall(bs)\<close>, which returns, or raises an \<open>OSError\<close>.
\<close>

record 'w tm_socket =
  sock_recv :: "rat \<Rightarrow> nat \<Rightarrow> 'w \<Rightarrow> recv_result \<times> 'w"
  sock_sendall :: "u8 list \<Rightarrow> 'w \<Rightarrow> bool \<times> 'w"
  clock :: "'w \<Rightarrow> rat \<times> 'w"

text \<open>
  The exceptions: those of this module, those \<open>Raised\<close> by the packet layer, and \<open>Unexpected\<close>, the
  \<open>AssertionError\<close> of \<open>expect_none\<close>.
\<close>

datatype link_error = Tm_timeout | Os_error | Raised py_error | Unexpected

text \<open>The attributes \<open>received\<close> and \<open>_pending\<close>.\<close>

record obc_link =
  received :: "tm_packet list"
  pending :: "tm_packet list"

definition new_link :: obc_link where
  "new_link = \<lparr> received = [], pending = [] \<rparr>"

section \<open>The code\<close>

definition send_raw :: "'w tm_socket \<Rightarrow> u8 list \<Rightarrow> 'w \<Rightarrow> (link_error + unit) \<times> 'w" where
  "send_raw net packet w = (case sock_sendall net packet w of (ok, w) \<Rightarrow> (if ok then Inr () else Inl Os_error, w))"

definition send_tc :: "'w tm_socket \<Rightarrow> tc_args \<Rightarrow> 'w \<Rightarrow> (link_error + u8 list) \<times> 'w" where
  "send_tc net a w =
     (case build_tc a of
        Inl e \<Rightarrow> (Inl (Raised e), w)
      | Inr packet \<Rightarrow>
          (case send_raw net packet w of
             (Inl e, w) \<Rightarrow> (Inl e, w)
           | (Inr _, w) \<Rightarrow> (Inr packet, w)))"

text \<open>The loop of \<open>_read_exact\<close> with the octets \<open>chunks\<close> already there.\<close>

function gsw_read_loop ::
    "'w tm_socket \<Rightarrow> nat \<Rightarrow> rat \<Rightarrow> u8 list \<Rightarrow> 'w \<Rightarrow> (link_error + u8 list) \<times> 'w" where
  "gsw_read_loop net n deadline chunks w =
     (if length chunks < n then
        (case clock net w of (now, w) \<Rightarrow>
          let remaining = deadline - now in
          if remaining \<le> 0 then (Inl Tm_timeout, w)
          else
            (case sock_recv net remaining (n - length chunks) w of
               (Timed_out, w) \<Rightarrow> (Inl Tm_timeout, w)
             | (Os_error_raised, w) \<Rightarrow> (Inl Os_error, w)
             | (Received chunk, w) \<Rightarrow>
                 if chunk = [] then (Inl Tm_timeout, w)
                 else gsw_read_loop net n deadline (chunks @ chunk) w))
      else (Inr chunks, w))"
  by pat_completeness auto
termination
  by (relation "measure (\<lambda>(net, n, deadline, chunks, w). n - length chunks)") (auto simp: neq_Nil_conv)

declare gsw_read_loop.simps [simp del]

definition gsw_read_exact :: "'w tm_socket \<Rightarrow> nat \<Rightarrow> rat \<Rightarrow> 'w \<Rightarrow> (link_error + u8 list) \<times> 'w" where
  "gsw_read_exact net n deadline w = gsw_read_loop net n deadline [] w"

definition read_tm ::
    "'w tm_socket \<Rightarrow> rat \<Rightarrow> obc_link \<Rightarrow> 'w \<Rightarrow> (link_error + tm_packet) \<times> obc_link \<times> 'w" where
  "read_tm net timeout l w =
     (case pending l of
        p # ps \<Rightarrow> (Inr p, l\<lparr> pending := ps \<rparr>, w)
      | [] \<Rightarrow>
          (case clock net w of (now, w) \<Rightarrow>
            let deadline = now + timeout in
            (case gsw_read_exact net 6 deadline w of
               (Inl e, w) \<Rightarrow> (Inl e, l, w)
             | (Inr header, w) \<Rightarrow>
                 let length_field = from_bytes (py_slice header 4 6) in
                 (case gsw_read_exact net (nat (length_field + 1)) deadline w of
                    (Inl e, w) \<Rightarrow> (Inl e, l, w)
                  | (Inr body, w) \<Rightarrow>
                      (case parse_tm (header @ body) of
                         Inl e \<Rightarrow> (Inl (Raised e), l, w)
                       | Inr packet \<Rightarrow> (Inr packet, l\<lparr> received := received l @ [packet] \<rparr>, w))))))"

text \<open>\<open>self._pending.extend(packets)\<close>, and the search of \<open>_pending\<close> for a matching packet.\<close>

definition put_back :: "tm_packet list \<Rightarrow> obc_link \<Rightarrow> obc_link" where
  "put_back ps l = l\<lparr> pending := pending l @ ps \<rparr>"

primrec take_match :: "(tm_packet \<Rightarrow> bool) \<Rightarrow> tm_packet list \<Rightarrow> (tm_packet \<times> tm_packet list) option" where
  "take_match P [] = None"
| "take_match P (p # ps) =
     (if P p then Some (p, ps)
      else (case take_match P ps of None \<Rightarrow> None | Some (q, qs) \<Rightarrow> Some (q, p # qs)))"

partial_function (option) expect_loop ::
    "'w tm_socket \<Rightarrow> (tm_packet \<Rightarrow> bool) \<Rightarrow> rat \<Rightarrow> tm_packet list \<Rightarrow> obc_link \<Rightarrow> 'w
     \<Rightarrow> ((link_error + tm_packet) \<times> obc_link \<times> 'w) option" where
  "expect_loop net wanted deadline skipped l w =
     (case clock net w of (now, w) \<Rightarrow>
       let remaining = deadline - now in
       if remaining \<le> 0 then Some (Inl Tm_timeout, put_back skipped l, w)
       else
         (case read_tm net remaining l w of
            (Inl e, l, w) \<Rightarrow>
              if e = Tm_timeout then Some (Inl Tm_timeout, put_back skipped l, w) else Some (Inl e, l, w)
          | (Inr packet, l, w) \<Rightarrow>
              if wanted packet then Some (Inr packet, put_back skipped l, w)
              else expect_loop net wanted deadline (skipped @ [packet]) l w))"

definition expect_where ::
    "'w tm_socket \<Rightarrow> (tm_packet \<Rightarrow> bool) \<Rightarrow> rat \<Rightarrow> obc_link \<Rightarrow> 'w
     \<Rightarrow> ((link_error + tm_packet) \<times> obc_link \<times> 'w) option" where
  "expect_where net wanted timeout l w =
     (case take_match wanted (pending l) of
        Some (p, ps) \<Rightarrow> Some (Inr p, l\<lparr> pending := ps \<rparr>, w)
      | None \<Rightarrow> (case clock net w of (now, w) \<Rightarrow> expect_loop net wanted (now + timeout) [] l w))"

text \<open>The predicates of \<open>expect\<close>, \<open>expect_event\<close> and \<open>expect_hk\<close>.\<close>

definition is_report :: "int \<Rightarrow> int \<Rightarrow> tm_packet \<Rightarrow> bool" where
  "is_report service subtype p \<longleftrightarrow> (p_service p, p_subtype p) = (service, subtype)"

definition is_event :: "int \<Rightarrow> int option \<Rightarrow> tm_packet \<Rightarrow> bool" where
  "is_event event_id subtype p \<longleftrightarrow>
     (if p_service p \<noteq> 5 \<or> p_subtype p > 4 then False
      else if subtype \<noteq> None \<and> subtype \<noteq> Some (p_subtype p) then False
      else p_event_id p = event_id)"

definition is_hk :: "u8 \<Rightarrow> tm_packet \<Rightarrow> bool" where
  "is_hk sid p \<longleftrightarrow> (p_service p, p_subtype p) = (3, 25) \<and> py_slice (p_data p) 0 1 = [sid]"

definition expect :: "'w tm_socket \<Rightarrow> int \<Rightarrow> int \<Rightarrow> rat \<Rightarrow> obc_link \<Rightarrow> 'w
     \<Rightarrow> ((link_error + tm_packet) \<times> obc_link \<times> 'w) option" where
  "expect net service subtype timeout l w = expect_where net (is_report service subtype) timeout l w"

definition expect_event :: "'w tm_socket \<Rightarrow> int \<Rightarrow> int option \<Rightarrow> rat \<Rightarrow> obc_link \<Rightarrow> 'w
     \<Rightarrow> ((link_error + tm_packet) \<times> obc_link \<times> 'w) option" where
  "expect_event net event_id subtype timeout l w = expect_where net (is_event event_id subtype) timeout l w"

definition expect_hk :: "'w tm_socket \<Rightarrow> u8 \<Rightarrow> rat \<Rightarrow> obc_link \<Rightarrow> 'w
     \<Rightarrow> ((link_error + tm_packet) \<times> obc_link \<times> 'w) option" where
  "expect_hk net sid timeout l w = expect_where net (is_hk sid) timeout l w"

partial_function (option) expect_none_loop ::
    "'w tm_socket \<Rightarrow> (tm_packet \<Rightarrow> bool) \<Rightarrow> rat \<Rightarrow> tm_packet list \<Rightarrow> obc_link \<Rightarrow> 'w
     \<Rightarrow> ((link_error + unit) \<times> obc_link \<times> 'w) option" where
  "expect_none_loop net wanted deadline seen l w =
     (case clock net w of (now, w) \<Rightarrow>
       let remaining = deadline - now in
       if remaining \<le> 0 then Some (Inr (), put_back seen l, w)
       else
         (case read_tm net remaining l w of
            (Inl e, l, w) \<Rightarrow>
              Some (if e = Tm_timeout then Inr () else Inl e, put_back seen l, w)
          | (Inr packet, l, w) \<Rightarrow>
              if wanted packet then Some (Inl Unexpected, put_back seen l, w)
              else expect_none_loop net wanted deadline (seen @ [packet]) l w))"

definition expect_none :: "'w tm_socket \<Rightarrow> int \<Rightarrow> int \<Rightarrow> rat \<Rightarrow> obc_link \<Rightarrow> 'w
     \<Rightarrow> ((link_error + unit) \<times> obc_link \<times> 'w) option" where
  "expect_none net service subtype window l w =
     (case clock net w of (now, w) \<Rightarrow>
       expect_none_loop net (is_report service subtype) (now + window) [] l w)"

partial_function (option) flush ::
    "'w tm_socket \<Rightarrow> rat \<Rightarrow> obc_link \<Rightarrow> 'w \<Rightarrow> ((link_error + unit) \<times> obc_link \<times> 'w) option" where
  "flush net window l w =
     (case read_tm net window l w of
        (Inl e, l, w) \<Rightarrow> Some (if e = Tm_timeout then Inr () else Inl e, l, w)
      | (Inr _, l, w) \<Rightarrow> flush net window l w)"

partial_function (option) gsw_drain_loop ::
    "'w tm_socket \<Rightarrow> rat \<Rightarrow> tm_packet list \<Rightarrow> obc_link \<Rightarrow> 'w
     \<Rightarrow> ((link_error + tm_packet list) \<times> obc_link \<times> 'w) option" where
  "gsw_drain_loop net deadline collected l w =
     (case clock net w of (now, w) \<Rightarrow>
       let remaining = deadline - now in
       if remaining \<le> 0 then Some (Inr collected, l, w)
       else
         (case read_tm net remaining l w of
            (Inl e, l, w) \<Rightarrow> Some (if e = Tm_timeout then Inr collected else Inl e, l, w)
          | (Inr packet, l, w) \<Rightarrow> gsw_drain_loop net deadline (collected @ [packet]) l w))"

definition gsw_drain :: "'w tm_socket \<Rightarrow> rat \<Rightarrow> obc_link \<Rightarrow> 'w
     \<Rightarrow> ((link_error + tm_packet list) \<times> obc_link \<times> 'w) option" where
  "gsw_drain net window l w =
     (case clock net w of (now, w) \<Rightarrow>
       gsw_drain_loop net (now + window) (pending l) (l\<lparr> pending := [] \<rparr>) w)"

section \<open>What is relied on\<close>

text \<open>
  The octets received so far are a function of the world; only \<open>recv\<close> extends them, by what it
  returns, which is never more than was asked for.
\<close>

definition stream_ok :: "'w tm_socket \<Rightarrow> ('w \<Rightarrow> u8 list) \<Rightarrow> bool" where
  "stream_ok net rx \<longleftrightarrow>
     (\<forall>w. rx (snd (clock net w)) = rx w) \<and>
     (\<forall>t n w. case sock_recv net t n w of
        (Received c, w') \<Rightarrow> length c \<le> n \<and> rx w' = rx w @ c
      | (_, w') \<Rightarrow> rx w' = rx w)"

text \<open>
  The peer has a limited number of octets left to give, \<open>togo w\<close>, and every octet received is one
  of them. Nothing is said of the clock.
\<close>

definition peer_limited :: "'w tm_socket \<Rightarrow> ('w \<Rightarrow> nat) \<Rightarrow> bool" where
  "peer_limited net togo \<longleftrightarrow>
     (\<forall>w. togo (snd (clock net w)) \<le> togo w) \<and>
     (\<forall>t n w. case sock_recv net t n w of
        (Received c, w') \<Rightarrow> togo w' + length c \<le> togo w
      | (_, w') \<Rightarrow> togo w' \<le> togo w)"

text \<open>The octets sent so far: \<open>sendall\<close> adds all it is given or, if it fails, the beginning of it.\<close>

definition sendall_ok :: "'w tm_socket \<Rightarrow> ('w \<Rightarrow> u8 list) \<Rightarrow> bool" where
  "sendall_ok net tx \<longleftrightarrow>
     (\<forall>bs w. case sock_sendall net bs w of
        (ok, w') \<Rightarrow> \<exists>sent. tx w' = tx w @ sent \<and> prefix sent bs \<and> (ok \<longrightarrow> sent = bs))"

lemma stream_okD:
  assumes "stream_ok net rx"
  shows "clock net w = (t, w') \<Longrightarrow> rx w' = rx w"
    and "sock_recv net s n w = (Received c, w') \<Longrightarrow> length c \<le> n \<and> rx w' = rx w @ c"
    and "sock_recv net s n w = (Timed_out, w') \<Longrightarrow> rx w' = rx w"
    and "sock_recv net s n w = (Os_error_raised, w') \<Longrightarrow> rx w' = rx w"
proof -
  have c: "rx (snd (clock net w)) = rx w"
    and r: "case sock_recv net s n w of (Received c, w') \<Rightarrow> length c \<le> n \<and> rx w' = rx w @ c
      | (_, w') \<Rightarrow> rx w' = rx w"
    using assms by (simp_all add: stream_ok_def)
  show "clock net w = (t, w') \<Longrightarrow> rx w' = rx w"
    using c by simp
  show "sock_recv net s n w = (Received c, w') \<Longrightarrow> length c \<le> n \<and> rx w' = rx w @ c"
    "sock_recv net s n w = (Timed_out, w') \<Longrightarrow> rx w' = rx w"
    "sock_recv net s n w = (Os_error_raised, w') \<Longrightarrow> rx w' = rx w"
    using r by simp_all
qed

section \<open>Sending\<close>

text \<open>Arguments that do not fit the packet format raise before anything is sent.\<close>

lemma send_tc_octets:
  assumes "sendall_ok net tx" and "send_tc net a w = (r, w')"
  shows "case r of
      Inr bs \<Rightarrow> build_tc a = Inr bs \<and> tx w' = tx w @ bs
    | Inl (Raised e) \<Rightarrow> build_tc a = Inl e \<and> w' = w
    | Inl e \<Rightarrow> e = Os_error \<and> (\<exists>bs sent. build_tc a = Inr bs \<and> prefix sent bs \<and> tx w' = tx w @ sent)"
proof (cases "build_tc a")
  case (Inl e)
  then show ?thesis
    using assms(2) by (auto simp: send_tc_def)
next
  case (Inr bs)
  obtain ok w1 where s: "sock_sendall net bs w = (ok, w1)"
    by fastforce
  have "case sock_sendall net bs w of
      (ok, w') \<Rightarrow> \<exists>sent. tx w' = tx w @ sent \<and> prefix sent bs \<and> (ok \<longrightarrow> sent = bs)"
    using assms(1) by (simp add: sendall_ok_def)
  then obtain sent where "tx w1 = tx w @ sent" "prefix sent bs" "ok \<longrightarrow> sent = bs"
    unfolding s by auto
  moreover have "(r, w') = (if ok then (Inr bs, w1) else (Inl Os_error, w1))"
    using assms(2) Inr s by (cases ok) (simp_all add: send_tc_def send_raw_def)
  ultimately show ?thesis
    using Inr by (cases ok) simp_all
qed

section \<open>Reading octets\<close>

lemma gsw_read_loop_stream:
  assumes "stream_ok net rx" and "gsw_read_loop net n deadline chunks w = (r, w')" and "length chunks \<le> n"
  shows "\<exists>c. rx w' = rx w @ c \<and>
    (case r of Inr bs \<Rightarrow> bs = chunks @ c \<and> length bs = n
     | Inl e \<Rightarrow> e \<in> {Tm_timeout, Os_error} \<and> length (chunks @ c) < n)"
  using assms(2,3)
proof (induction "n - length chunks" arbitrary: chunks w r w' rule: less_induct)
  case less
  show ?case
  proof (cases "length chunks < n")
    case False
    then show ?thesis
      using less.prems by (auto simp: gsw_read_loop.simps [of net n deadline chunks])
  next
    case True
    obtain now w1 where clk: "clock net w = (now, w1)"
      by fastforce
    note w1 = stream_okD(1) [OF assms(1) clk]
    show ?thesis
    proof (cases "deadline - now \<le> 0")
      case True
      then show ?thesis
        using less.prems \<open>length chunks < n\<close> w1 by (auto simp: gsw_read_loop.simps [of net n deadline chunks] clk)
    next
      case False
      obtain x w2 where rcv: "sock_recv net (deadline - now) (n - length chunks) w1 = (x, w2)"
        by fastforce
      note run = less.prems(1) [unfolded gsw_read_loop.simps [of net n deadline chunks], simplified clk rcv]
      show ?thesis
      proof (cases x)
        case (Received chunk)
        then have w2: "length chunk \<le> n - length chunks" "rx w2 = rx w @ chunk"
          using stream_okD(2) [OF assms(1) rcv [unfolded Received]] w1 by simp_all
        show ?thesis
        proof (cases "chunk = []")
          case True
          then show ?thesis
            using run rcv Received False \<open>length chunks < n\<close> \<open>\<not> deadline - now \<le> 0\<close> w2 by auto
        next
          case False
          then have "gsw_read_loop net n deadline (chunks @ chunk) w2 = (r, w')"
            using run rcv Received \<open>\<not> deadline - now \<le> 0\<close> \<open>length chunks < n\<close> by simp
          moreover have "n - length (chunks @ chunk) < n - length chunks" "length (chunks @ chunk) \<le> n"
            using False \<open>length chunks < n\<close> w2(1) by (auto simp: neq_Nil_conv)
          ultimately obtain c where "rx w' = rx w2 @ c" "case r of Inr bs \<Rightarrow> bs = (chunks @ chunk) @ c \<and> length bs = n
             | Inl e \<Rightarrow> e \<in> {Tm_timeout, Os_error} \<and> length ((chunks @ chunk) @ c) < n"
            using less.hyps by blast
          then show ?thesis
            using w2(2) by (intro exI [of _ "chunk @ c"]) (simp split: sum.splits)
        qed
      next
        case Timed_out
        then show ?thesis
          using run rcv Timed_out False \<open>length chunks < n\<close> stream_okD(3) [OF assms(1) rcv [unfolded Timed_out]] w1 by auto
      next
        case Os_error_raised
        then show ?thesis
          using run rcv Os_error_raised False \<open>length chunks < n\<close> stream_okD(4) [OF assms(1) rcv [unfolded Os_error_raised]] w1 by auto
      qed
    qed
  qed
qed

lemma gsw_read_exact_stream:
  assumes "stream_ok net rx" and "gsw_read_exact net n deadline w = (r, w')"
  shows "\<exists>c. rx w' = rx w @ c \<and>
    (case r of Inr bs \<Rightarrow> bs = c \<and> length bs = n | Inl e \<Rightarrow> e \<in> {Tm_timeout, Os_error} \<and> length c < n)"
  using gsw_read_loop_stream [OF assms(1), of n deadline "[]" w r w'] assms(2)
  unfolding append_Nil by (simp add: gsw_read_exact_def)

section \<open>Reading packets\<close>

text \<open>
  The packets of a stream: what the length field of the primary header announces, or less than
  that when reading broke off.
\<close>

definition whole_packet :: "u8 list \<Rightarrow> bool" where
  "whole_packet c \<longleftrightarrow> 6 \<le> length c \<and> length c = announced c"

definition cut_packet :: "u8 list \<Rightarrow> bool" where
  "cut_packet c \<longleftrightarrow> length c < 6 \<or> length c < announced c"

lemma announced_slice:
  assumes "6 \<le> length c"
  shows "nat (from_bytes (py_slice c 4 6) + 1) = announced c - 6"
proof -
  have "py_slice c 4 6 = [c ! 4, c ! 5]"
    using assms take_2_drop [of 4 c] by (simp add: py_slice_from_start)
  then have "from_bytes (py_slice c 4 6) = uint (of_be16 (c ! 4) (c ! 5))"
    by (simp only: from_bytes_be16)
  then show ?thesis
    by (simp add: announced_def nat_add_distrib)
qed

text \<open>With nothing pending, one call takes one packet off the stream, or breaks off inside it.\<close>

lemma read_tm_stream:
  assumes "stream_ok net rx" and "pending l = []" and "read_tm net timeout l w = (r, l', w')"
  shows "\<exists>c. rx w' = rx w @ c \<and>
    (case r of
       Inr p \<Rightarrow> whole_packet c \<and> parse_tm c = Inr p \<and> l' = l\<lparr> received := received l @ [p] \<rparr>
     | Inl e \<Rightarrow> l' = l \<and>
         (if e \<in> {Tm_timeout, Os_error} then cut_packet c
          else whole_packet c \<and> (\<exists>e'. e = Raised e' \<and> parse_tm c = Inl e')))"
proof -
  obtain now w1 where clk: "clock net w = (now, w1)"
    by fastforce
  note w1 = stream_okD(1) [OF assms(1) clk]
  obtain x w2 where head: "gsw_read_exact net 6 (now + timeout) w1 = (x, w2)"
    by fastforce
  obtain h where h: "rx w2 = rx w @ h" "case x of Inr bs \<Rightarrow> bs = h \<and> length bs = 6
      | Inl e \<Rightarrow> e \<in> {Tm_timeout, Os_error} \<and> length h < 6"
    using gsw_read_exact_stream [OF assms(1) head] w1 by auto
  show ?thesis
  proof (cases x)
    case (Inl e)
    then show ?thesis
      using h assms(2,3) head by (auto simp: read_tm_def clk cut_packet_def intro!: exI [of _ h])
  next
    case (Inr header)
    then have header: "header = h" "length h = 6"
      using h(2) by auto
    let ?n = "nat (from_bytes (py_slice h 4 6) + 1)"
    obtain y w3 where body: "gsw_read_exact net ?n (now + timeout) w2 = (y, w3)"
      by fastforce
    obtain b where b: "rx w3 = rx w2 @ b" "case y of Inr bs \<Rightarrow> bs = b \<and> length bs = ?n
        | Inl e \<Rightarrow> e \<in> {Tm_timeout, Os_error} \<and> length b < ?n"
      using gsw_read_exact_stream [OF assms(1) body] by auto
    have ann: "?n = announced (h @ b) - 6" "7 \<le> announced (h @ b)"
      using header announced_slice [of h] announced_append [of h b] announced_ge by simp_all
    show ?thesis
    proof (cases y)
      case (Inl e)
      then have "cut_packet (h @ b)" "e \<in> {Tm_timeout, Os_error}"
        using b(2) header ann by (auto simp: cut_packet_def)
      then show ?thesis
        using Inl \<open>x = Inr header\<close> b h assms(2,3) head body header
        by (auto simp: read_tm_def clk Let_def intro!: exI [of _ "h @ b"])
    next
      case (Inr bs)
      then have "whole_packet (h @ b)" "bs = b"
        using b(2) header ann by (auto simp: whole_packet_def)
      then show ?thesis
        using Inr \<open>x = Inr header\<close> b h assms(2,3) head body header
        by (auto simp: read_tm_def clk Let_def intro!: exI [of _ "h @ b"] split: sum.splits)
    qed
  qed
qed

text \<open>What one call does to the object, with or without packets pending.\<close>

lemma read_tm_pending:
  "pending l = p # ps \<Longrightarrow> read_tm net timeout l w = (Inr p, l\<lparr> pending := ps \<rparr>, w)"
  by (simp add: read_tm_def)

lemma read_tm_fresh:
  assumes "pending l = []" and "read_tm net timeout l w = (r, l', w')"
  shows "pending l' = [] \<and> received l' = received l @ (case r of Inr p \<Rightarrow> [p] | Inl _ \<Rightarrow> [])"
  using assms by (auto simp: read_tm_def Let_def split: prod.splits sum.splits)

text \<open>No call raises the exception of \<open>expect_none\<close> itself.\<close>

lemma gsw_read_loop_expected: "fst (gsw_read_loop net n deadline chunks w) \<noteq> Inl Unexpected"
proof (induction "n - length chunks" arbitrary: chunks w rule: less_induct)
  case less
  have "fst (gsw_read_loop net n deadline (chunks @ c) w) \<noteq> Inl Unexpected" if "length chunks < n" "c \<noteq> []" for c w
    using that by (intro less) (auto simp: neq_Nil_conv)
  then show ?case
    by (subst gsw_read_loop.simps) (auto simp: Let_def split: prod.split recv_result.split)
qed

lemma read_tm_expected: "read_tm net timeout l w = (r, l', w') \<Longrightarrow> r \<noteq> Inl Unexpected"
proof -
  have "gsw_read_exact net n deadline w \<noteq> (Inl Unexpected, w1)" for n deadline w w1
    using gsw_read_loop_expected [of net n deadline "[]" w] by (auto simp: gsw_read_exact_def)
  then show "read_tm net timeout l w = (r, l', w') \<Longrightarrow> r \<noteq> Inl Unexpected"
    by (auto simp: read_tm_def Let_def split: list.splits prod.splits sum.splits)
qed

section \<open>Waiting for a packet\<close>

text \<open>
  \<open>ps\<close> and \<open>ps'\<close> are the pending packets before and after, \<open>new\<close> those that arrived meanwhile.
  None of \<open>ps\<close> matches.
\<close>

definition wait_post ::
    "(tm_packet \<Rightarrow> bool) \<Rightarrow> tm_packet list \<Rightarrow> tm_packet list \<Rightarrow> tm_packet list
     \<Rightarrow> link_error + tm_packet \<Rightarrow> tm_packet list \<Rightarrow> bool" where
  "wait_post P skipped ps new r ps' \<longleftrightarrow>
     (case r of
        Inr p \<Rightarrow> P p \<and> (\<exists>more. ps @ new = more @ [p] \<and> ps' = skipped @ more \<and> list_all (\<lambda>q. \<not> P q) more)
      | Inl e \<Rightarrow> list_all (\<lambda>q. \<not> P q) new \<and>
          (if e = Tm_timeout
           then \<exists>k. ps' = drop k ps @ skipped @ take k ps @ new \<and> (k < length ps \<longrightarrow> new = [])
           else ps' = []))"

lemma wait_post_pop:
  "wait_post P (skipped @ [p]) ps new r ps' \<Longrightarrow> \<not> P p \<Longrightarrow> wait_post P skipped (p # ps) new r ps'"
  unfolding wait_post_def
  by (auto split: sum.splits) (rule exI [of _ "Suc k" for k], auto)+

lemma wait_post_arrived:
  "wait_post P (skipped @ [p]) [] new r ps' \<Longrightarrow> \<not> P p \<Longrightarrow> wait_post P skipped [] (p # new) r ps'"
  unfolding wait_post_def by (auto split: sum.splits)

lemma expect_loop_post:
  assumes "expect_loop net P deadline skipped l w = Some (r, l', w')" and "list_all (\<lambda>q. \<not> P q) (pending l)"
  shows "\<exists>new. received l' = received l @ new \<and> wait_post P skipped (pending l) new r (pending l')"
proof -
  let ?Q = "\<lambda>net P deadline skipped l (w :: 'a) (r, l', w' :: 'a). list_all (\<lambda>q. \<not> P q) (pending l) \<longrightarrow>
    (\<exists>new. received l' = received l @ new \<and> wait_post P skipped (pending l) new r (pending l'))"
  have "?Q net P deadline skipped l w (r, l', w')"
  proof (rule expect_loop.raw_induct [where P = ?Q, OF _ assms(1)])
    fix f net P deadline skipped l and w :: 'a and x :: "(link_error + tm_packet) \<times> obc_link \<times> 'a"
    assume rec: "\<And>net P deadline skipped l w x. f net P deadline skipped l w = Some x \<Longrightarrow> ?Q net P deadline skipped l w x"
      and body: "(case clock net w of (now, w) \<Rightarrow>
       let remaining = deadline - now in
       if remaining \<le> 0 then Some (Inl Tm_timeout, put_back skipped l, w)
       else
         (case read_tm net remaining l w of
            (Inl e, l, w) \<Rightarrow>
              if e = Tm_timeout then Some (Inl Tm_timeout, put_back skipped l, w) else Some (Inl e, l, w)
          | (Inr packet, l, w) \<Rightarrow>
              if P packet then Some (Inr packet, put_back skipped l, w)
              else f net P deadline (skipped @ [packet]) l w)) = Some x"
    show "?Q net P deadline skipped l w x"
    proof (cases x, clarify)
      fix r l' w'
      assume x: "x = (r, l', w')" and none: "list_all (\<lambda>q. \<not> P q) (pending l)"
      obtain now w1 where clk: "clock net w = (now, w1)"
        by fastforce
      show "\<exists>new. received l' = received l @ new \<and> wait_post P skipped (pending l) new r (pending l')"
      proof (cases "deadline - now \<le> 0")
        case True
        then show ?thesis
          using body none by (auto simp: x clk put_back_def wait_post_def intro!: exI [of _ "0 :: nat"])
      next
        case False
        obtain a l1 w2 where read: "read_tm net (deadline - now) l w1 = (a, l1, w2)"
          by (rule prod_cases3)
        show ?thesis
        proof (cases "pending l")
          case (Cons p ps)
          then have a: "a = Inr p" "l1 = l\<lparr> pending := ps \<rparr>" "w2 = w1" "\<not> P p" "list_all (\<lambda>q. \<not> P q) ps"
            using read [unfolded read_tm_pending [OF Cons]] none Cons by auto
          then have "f net P deadline (skipped @ [p]) l1 w1 = Some x"
            using body False by (simp add: clk read)
          from rec [OF this] have "\<exists>new. received l' = received l @ new \<and> wait_post P (skipped @ [p]) ps new r (pending l')"
            using a(2,5) by (simp add: x)
          then show ?thesis
            unfolding Cons using wait_post_pop a(4) by blast
        next
          case Nil
          note l1 = read_tm_fresh [OF Nil read]
          show ?thesis
          proof (cases a)
            case (Inl e)
            then show ?thesis
              using body False l1 Nil by (auto simp: x clk read put_back_def wait_post_def split: if_splits)
          next
            case (Inr p)
            show ?thesis
            proof (cases "P p")
              case True
              then show ?thesis
                using body False l1 Nil Inr by (auto simp: x clk read put_back_def wait_post_def)
            next
              case nP: False
              then have "f net P deadline (skipped @ [p]) l1 w2 = Some x"
                using body False Inr by (simp add: clk read)
              from rec [OF this] obtain new where "received l' = received l1 @ new"
                  "wait_post P (skipped @ [p]) [] new r (pending l')"
                using l1 by (auto simp: x)
              then show ?thesis
                using wait_post_arrived nP l1 Inr Nil by (intro exI [of _ "p # new"]) auto
            qed
          qed
        qed
      qed
    qed
  qed
  then show ?thesis
    using assms(2) by simp
qed

lemma take_match_Some:
  "take_match P ps = Some (p, rest) \<Longrightarrow>
   \<exists>before after. ps = before @ p # after \<and> P p \<and> list_all (\<lambda>q. \<not> P q) before \<and> rest = before @ after"
proof (induction ps arbitrary: rest)
  case (Cons q qs)
  show ?case
  proof (cases "P q")
    case True
    then show ?thesis
      using Cons.prems by (intro exI [of _ "[]"] exI [of _ qs]) auto
  next
    case False
    then obtain rest' where "take_match P qs = Some (p, rest')" "rest = q # rest'"
      using Cons.prems by (auto split: option.splits)
    then obtain before after where "qs = before @ p # after" "P p" "list_all (\<lambda>q. \<not> P q) before"
        "rest' = before @ after"
      using Cons.IH by blast
    then show ?thesis
      using False \<open>rest = q # rest'\<close> by (intro exI [of _ "q # before"] exI [of _ after]) simp
  qed
qed simp

lemma take_match_None: "take_match P ps = None \<longleftrightarrow> list_all (\<lambda>q. \<not> P q) ps"
  by (induction ps) (auto split: option.splits)

section \<open>The loops end\<close>

text \<open>A relation between worlds that every call keeps is kept by the code.\<close>

locale link_relation =
  fixes net :: "'w tm_socket" and R :: "'w \<Rightarrow> 'w \<Rightarrow> bool"
  assumes refl: "R w w"
    and trans: "R w w' \<Longrightarrow> R w' w'' \<Longrightarrow> R w w''"
    and clock: "clock net w = (t, w') \<Longrightarrow> R w w'"
    and sock_recv: "sock_recv net s n w = (x, w') \<Longrightarrow> R w w'"
begin

lemma read_loop: "R w (snd (gsw_read_loop net n deadline chunks w))"
proof (induction "n - length chunks" arbitrary: chunks w rule: less_induct)
  case less
  obtain t w1 where clk: "tm_socket.clock net w = (t, w1)"
    by fastforce
  obtain x w2 where rcv: "tm_socket.sock_recv net (deadline - t) (n - length chunks) w1 = (x, w2)"
    by fastforce
  have w2: "R w w1" "R w w2"
    using clock [OF clk] sock_recv [OF rcv] trans by blast+
  have "R w2 (snd (gsw_read_loop net n deadline (chunks @ c) w2))" if "length chunks < n" "c \<noteq> []" for c
    using that by (intro less) (auto simp: neq_Nil_conv)
  then show ?case
    using w2 refl trans
    by (subst gsw_read_loop.simps) (auto simp: clk rcv Let_def split: recv_result.split)
qed

lemma read_exact: "gsw_read_exact net n deadline w = (x, w') \<Longrightarrow> R w w'"
  using read_loop [of w n deadline "[]"] by (simp add: gsw_read_exact_def)

lemma read_tm:
  assumes "read_tm net timeout l w = (r, l', w')"
  shows "R w w'"
  using assms refl
  by (auto simp: read_tm_def Let_def split: list.splits prod.splits sum.splits dest!: clock read_exact intro: trans)

lemma drain_loop:
  assumes "gsw_drain_loop net deadline collected l w = Some (r, l', w')"
  shows "R w w'"
proof -
  let ?Q = "\<lambda>m deadline collected l w (r :: link_error + tm_packet list, l' :: obc_link, w'). m = net \<longrightarrow> R w w'"
  have "?Q net deadline collected l w (r, l', w')"
  proof (rule gsw_drain_loop.raw_induct [where P = ?Q, OF _ assms])
    fix f m deadline collected l w and x :: "(link_error + tm_packet list) \<times> obc_link \<times> 'w"
    assume rec: "\<And>m deadline collected l w x. f m deadline collected l w = Some x \<Longrightarrow> ?Q m deadline collected l w x"
      and body: "(case tm_socket.clock m w of (now, w) \<Rightarrow>
       let remaining = deadline - now in
       if remaining \<le> 0 then Some (Inr collected, l, w)
       else
         (case Gsw_Link.read_tm m remaining l w of
            (Inl e, l, w) \<Rightarrow> Some (if e = Tm_timeout then Inr collected else Inl e, l, w)
          | (Inr packet, l, w) \<Rightarrow> f m deadline (collected @ [packet]) l w)) = Some x"
    obtain r l' w' where [simp]: "x = (r, l', w')"
      by (rule prod_cases3)
    show "?Q m deadline collected l w x"
      using body rec
      by (auto simp: Let_def split: prod.splits sum.splits if_splits dest!: clock read_tm intro: trans)
  qed
  then show ?thesis
    by simp
qed

lemma drain:
  assumes "gsw_drain net window l w = Some (r, l', w')"
  shows "R w w'"
proof -
  obtain t w1 where clk: "tm_socket.clock net w = (t, w1)"
    by fastforce
  then have "gsw_drain_loop net (t + window) (pending l) (l\<lparr> pending := [] \<rparr>) w1 = Some (r, l', w')"
    using assms by (simp add: gsw_drain_def)
  then show ?thesis
    using clock [OF clk] drain_loop trans by blast
qed

end

text \<open>What is received is spent: a packet costs the peer octets, unless it was pending.\<close>

lemma peer_limited_spent:
  assumes "stream_ok net rx" and "peer_limited net togo"
  shows "link_relation net (\<lambda>w w'. togo w' + length (rx w') \<le> togo w + length (rx w))"
proof
  fix w t w'
  assume c: "clock net w = (t, w')"
  have "togo (snd (clock net w)) \<le> togo w"
    using assms(2) unfolding peer_limited_def by blast
  then show "togo w' + length (rx w') \<le> togo w + length (rx w)"
    using stream_okD(1) [OF assms(1) c] c by simp
next
  fix w s n x w'
  assume r: "sock_recv net s n w = (x, w')"
  have "case sock_recv net s n w of
      (Received c, w') \<Rightarrow> togo w' + length c \<le> togo w
    | (_, w') \<Rightarrow> togo w' \<le> togo w"
    by (rule assms(2) [unfolded peer_limited_def, THEN conjunct2, THEN spec, THEN spec, THEN spec])
  then show "togo w' + length (rx w') \<le> togo w + length (rx w)"
    using stream_okD(2-4) [OF assms(1)] r by (cases x) fastforce+
qed auto

lemma read_tm_spends:
  assumes stream: "stream_ok net rx" and limit: "peer_limited net togo" and read: "read_tm net timeout l w = (Inr p, l', w')"
  shows "length (pending l') + togo w' < length (pending l) + togo w"
proof (cases "pending l")
  case (Cons q qs)
  then show ?thesis
    using read by (auto simp: read_tm_pending)
next
  case Nil
  obtain c where "rx w' = rx w @ c" "whole_packet c"
    using read_tm_stream [OF stream Nil read] by auto
  moreover have "togo w' + length (rx w') \<le> togo w + length (rx w)"
    by (rule link_relation.read_tm [OF peer_limited_spent [OF stream limit] read])
  ultimately show ?thesis
    using Nil read_tm_fresh [OF Nil read] by (auto simp: whole_packet_def)
qed

text \<open>Nor does the clock cost anything.\<close>

lemma clock_spends: "peer_limited net togo \<Longrightarrow> clock net w = (t, w') \<Longrightarrow> togo w' \<le> togo w"
  unfolding peer_limited_def by (metis snd_conv)

text \<open>
  The interface of such a loop: it returns when time has run out or reading fails, and with a
  packet it either returns or goes on from the state after the packet.
\<close>

locale polling_loop =
  fixes net :: "'w tm_socket" and deadline :: rat
    and loop :: "tm_packet list \<Rightarrow> obc_link \<Rightarrow> 'w \<Rightarrow> 'x option"
  assumes over: "clock net w = (t, w1) \<Longrightarrow> deadline - t \<le> 0 \<Longrightarrow> \<exists>x. loop acc l w = Some x"
    and failed: "clock net w = (t, w1) \<Longrightarrow> \<not> deadline - t \<le> 0 \<Longrightarrow>
      read_tm net (deadline - t) l w1 = (Inl e, l', w2) \<Longrightarrow> \<exists>x. loop acc l w = Some x"
    and packet: "clock net w = (t, w1) \<Longrightarrow> \<not> deadline - t \<le> 0 \<Longrightarrow>
      read_tm net (deadline - t) l w1 = (Inr p, l', w2) \<Longrightarrow>
      (\<exists>x. loop acc l w = Some x) \<or> loop acc l w = loop (acc @ [p]) l' w2"
begin

lemma ends:
  assumes stream: "stream_ok net rx" and limit: "peer_limited net togo"
  shows "\<exists>x. loop acc l w = Some x"
proof (induction "length (pending l) + togo w" arbitrary: acc l w rule: less_induct)
  case less
  obtain t w1 where clk: "clock net w = (t, w1)"
    by fastforce
  obtain r l' w2 where read: "read_tm net (deadline - t) l w1 = (r, l', w2)"
    by (rule prod_cases3)
  show ?case
  proof (cases "deadline - t \<le> 0")
    case False
    show ?thesis
    proof (cases r)
      case (Inl e)
      then show ?thesis
        using failed [OF clk False] read by blast
    next
      case (Inr p)
      then have "length (pending l') + togo w2 < length (pending l) + togo w"
        using read_tm_spends [OF stream limit] clock_spends [OF limit clk] read by fastforce
      from less [OF this] show ?thesis
        using packet [OF clk False] read Inr by metis
    qed
  qed (rule over [OF clk])
qed

end

interpretation expecting: polling_loop net deadline "expect_loop net wanted deadline" for net wanted deadline
  by unfold_locales (subst expect_loop.simps, simp)+

interpretation expecting_none: polling_loop net deadline "expect_none_loop net wanted deadline" for net wanted deadline
  by unfold_locales (subst expect_none_loop.simps, simp)+

interpretation draining: polling_loop net deadline "gsw_drain_loop net deadline" for net deadline
  by unfold_locales (subst gsw_drain_loop.simps, simp)+

section \<open>Checking that nothing comes\<close>

text \<open>
  Of the packets that were pending or arrived, in this order, \<open>taken\<close> were looked at and passed;
  after an unwanted packet or at the deadline the rest is left.
\<close>

definition none_post ::
    "(tm_packet \<Rightarrow> bool) \<Rightarrow> tm_packet list \<Rightarrow> tm_packet list \<Rightarrow> tm_packet list
     \<Rightarrow> link_error + unit \<Rightarrow> tm_packet list \<Rightarrow> bool" where
  "none_post P seen ps new r ps' \<longleftrightarrow>
     (\<exists>taken hit left. ps @ new = taken @ hit @ left \<and> (left = [] \<or> new = []) \<and>
        list_all (\<lambda>q. \<not> P q) taken \<and> ps' = left @ seen @ taken \<and>
        (if r = Inl Unexpected then \<exists>p. hit = [p] \<and> P p else hit = []))"

lemma none_post_stop: "r \<noteq> Inl Unexpected \<Longrightarrow> none_post P seen ps [] r (ps @ seen)"
  unfolding none_post_def by (intro exI [of _ "[]"] exI [of _ ps]) simp

lemma none_post_hit:
  assumes "P p"
  shows "none_post P seen (p # ps) [] (Inl Unexpected) (ps @ seen)"
    and "none_post P seen [] [p] (Inl Unexpected) seen"
  unfolding none_post_def using assms
  by (intro exI [of _ "[]"] exI [of _ "[p]"] exI [of _ ps], simp, intro exI [of _ "[]"] exI [of _ "[p]"], simp)

lemma none_post_pop:
  "none_post P (seen @ [p]) ps new r ps' \<Longrightarrow> \<not> P p \<Longrightarrow> none_post P seen (p # ps) new r ps'"
  unfolding none_post_def
  by (elim exE conjE, rule_tac x = "p # taken" in exI, rule_tac x = hit in exI, rule_tac x = left in exI) simp

lemma none_post_arrived:
  "none_post P (seen @ [p]) [] new r ps' \<Longrightarrow> \<not> P p \<Longrightarrow> none_post P seen [] (p # new) r ps'"
  unfolding none_post_def
  by (elim exE conjE, rule_tac x = "p # taken" in exI, rule_tac x = hit in exI, rule_tac x = left in exI) auto

lemma expect_none_loop_post:
  assumes "expect_none_loop net P deadline seen l w = Some (r, l', w')"
  shows "\<exists>new. received l' = received l @ new \<and> none_post P seen (pending l) new r (pending l')"
proof -
  let ?Q = "\<lambda>net P deadline seen l (w :: 'a) (r, l', w' :: 'a).
    \<exists>new. received l' = received l @ new \<and> none_post P seen (pending l) new r (pending l')"
  have "?Q net P deadline seen l w (r, l', w')"
  proof (rule expect_none_loop.raw_induct [where P = ?Q, OF _ assms])
    fix f net P deadline seen l and w :: 'a and x :: "(link_error + unit) \<times> obc_link \<times> 'a"
    assume rec: "\<And>net P deadline seen l w x. f net P deadline seen l w = Some x \<Longrightarrow> ?Q net P deadline seen l w x"
      and body: "(case clock net w of (now, w) \<Rightarrow>
       let remaining = deadline - now in
       if remaining \<le> 0 then Some (Inr (), put_back seen l, w)
       else
         (case read_tm net remaining l w of
            (Inl e, l, w) \<Rightarrow>
              Some (if e = Tm_timeout then Inr () else Inl e, put_back seen l, w)
          | (Inr packet, l, w) \<Rightarrow>
              if P packet then Some (Inl Unexpected, put_back seen l, w)
              else f net P deadline (seen @ [packet]) l w)) = Some x"
    obtain r l' w' where x: "x = (r, l', w')"
      by (rule prod_cases3)
    obtain now w1 where clk: "clock net w = (now, w1)"
      by fastforce
    show "?Q net P deadline seen l w x"
    proof (cases "deadline - now \<le> 0")
      case True
      then show ?thesis
        using body none_post_stop by (auto simp: x clk put_back_def)
    next
      case False
      obtain a l1 w2 where read: "read_tm net (deadline - now) l w1 = (a, l1, w2)"
        by (rule prod_cases3)
      show ?thesis
      proof (cases a)
        case (Inl e)
        then have nil: "pending l = []"
          using read by (cases "pending l") (simp_all add: read_tm_pending)
        note l1 = read_tm_fresh [OF nil read]
        have "e \<noteq> Unexpected"
          using read_tm_expected [OF read] Inl by simp
        then show ?thesis
          using body False Inl l1 nil none_post_stop [of _ P seen "[]"] by (auto simp: x clk read put_back_def)
      next
        case (Inr p)
        have l1: "(\<exists>ps. pending l = p # ps \<and> pending l1 = ps \<and> received l1 = received l) \<or>
            (pending l = [] \<and> pending l1 = [] \<and> received l1 = received l @ [p])"
          using read Inr read_tm_fresh [OF _ read] by (cases "pending l") (auto simp: read_tm_pending)
        show ?thesis
        proof (cases "P p")
          case True
          then show ?thesis
            using body False Inr l1 none_post_hit [of P, OF True] by (auto simp: x clk read put_back_def)
        next
          case nP: False
          then have "f net P deadline (seen @ [p]) l1 w2 = Some x"
            using body False Inr by (simp add: clk read)
          from rec [OF this] obtain new where "received l' = received l1 @ new"
              "none_post P (seen @ [p]) (pending l1) new r (pending l')"
            by (auto simp: x)
          then show ?thesis
            using l1 none_post_pop [of P, OF _ nP] none_post_arrived [of P, OF _ nP] unfolding x by fastforce
        qed
      qed
    qed
  qed
  then show ?thesis
    by simp
qed


text \<open>
  Silence is only ever claimed for packets that were looked at: all of them once the pending ones
  are used up, and a wanted one among them is what \<open>Unexpected\<close> means. That packet is gone; every
  other stays pending.
\<close>

lemma expect_none_silent:
  assumes "expect_none net service subtype window l w = Some (r, l', w')"
  obtains new taken hit left where "received l' = received l @ new"
    and "pending l @ new = taken @ hit @ left" and "pending l' = left @ taken" and "left = [] \<or> new = []"
    and "list_all (\<lambda>q. \<not> is_report service subtype q) taken"
    and "if r = Inl Unexpected then \<exists>p. hit = [p] \<and> is_report service subtype p else hit = []"
proof -
  obtain now w1 where "clock net w = (now, w1)"
    by fastforce
  then have "expect_none_loop net (is_report service subtype) (now + window) [] l w1 = Some (r, l', w')"
    using assms by (simp add: expect_none_def)
  from expect_none_loop_post [OF this] show ?thesis
    using that unfolding none_post_def by auto
qed

section \<open>Discarding what has come\<close>

text \<open>After \<open>flush\<close> nothing is pending, so a later wait only sees packets that arrive after it.\<close>

lemma flush_discards:
  assumes "flush net window l w = Some (r, l', w')"
  shows "pending l' = [] \<and> (\<exists>new. received l' = received l @ new) \<and> r \<noteq> Inl Tm_timeout"
proof -
  let ?Q = "\<lambda>net window l (w :: 'a) (r, l', w' :: 'a).
    pending l' = [] \<and> (\<exists>new. received l' = received l @ new) \<and> r \<noteq> Inl Tm_timeout"
  have "?Q net window l w (r, l', w')"
  proof (rule flush.raw_induct [where P = ?Q, OF _ assms])
    fix f net window l and w :: 'a and x :: "(link_error + unit) \<times> obc_link \<times> 'a"
    assume rec: "\<And>net window l w x. f net window l w = Some x \<Longrightarrow> ?Q net window l w x"
      and body: "(case read_tm net window l w of
        (Inl e, l, w) \<Rightarrow> Some (if e = Tm_timeout then Inr () else Inl e, l, w)
      | (Inr _, l, w) \<Rightarrow> f net window l w) = Some x"
    obtain a l1 w1 where read: "read_tm net window l w = (a, l1, w1)"
      by (rule prod_cases3)
    have l1: "\<exists>more. received l1 = received l @ more" "\<exists>e. a = Inl e \<Longrightarrow> pending l1 = []"
      using read read_tm_fresh [OF _ read] by (cases "pending l"; auto simp: read_tm_pending)+
    show "?Q net window l w x"
    proof (cases a)
      case (Inl e)
      then show ?thesis
        using body read l1 by (auto split: if_splits)
    next
      case (Inr p)
      then have "f net window l1 w1 = Some x"
        using body read by simp
      from rec [OF this] show ?thesis
        using l1(1) by (cases x) auto
    qed
  qed
  then show ?thesis
    by simp
qed

text \<open>It has no deadline of its own.\<close>

lemma flush_ends:
  assumes stream: "stream_ok net rx" and limit: "peer_limited net togo"
  shows "\<exists>x. flush net window l w = Some x"
proof (induction "length (pending l) + togo w" arbitrary: l w rule: less_induct)
  case less
  obtain a l1 w1 where read: "read_tm net window l w = (a, l1, w1)"
    by (rule prod_cases3)
  show ?case
  proof (cases a)
    case (Inl e)
    then show ?thesis
      by (subst flush.simps) (simp add: read)
  next
    case (Inr p)
    from less [OF read_tm_spends [OF stream limit read [unfolded this]]] show ?thesis
      using Inr by (subst flush.simps) (simp add: read)
  qed
qed

section \<open>The packets of a stream\<close>

lemma whole_packet_prefix:
  assumes "whole_packet p" and "whole_packet q" and "p @ x = q @ y"
  shows "p = q"
proof -
  have "announced p = announced (p @ x)" "announced q = announced (q @ y)"
    using assms(1,2) by (simp_all add: whole_packet_def announced_append)
  then have "length p = length q"
    using assms by (simp add: whole_packet_def)
  then show ?thesis
    using assms(3) by simp
qed

text \<open>No packet is a prefix of another, so a stream splits into packets in one way only.\<close>

lemma packets_prefix:
  "list_all whole_packet cs \<Longrightarrow> list_all whole_packet ds \<Longrightarrow> concat cs @ left @ rest = concat ds \<Longrightarrow>
   \<exists>n. cs = take n ds \<and> left @ rest = concat (drop n ds)"
proof (induction cs arbitrary: ds)
  case Nil
  then show ?case
    by (intro exI [of _ 0]) simp
next
  case (Cons c cs)
  show ?case
  proof (cases ds)
    case Nil
    then show ?thesis
      using Cons.prems by (simp add: whole_packet_def)
  next
    case ds: (Cons d ds')
    then have "c = d"
      using Cons.prems whole_packet_prefix [of c d "concat cs @ left @ rest" "concat ds'"] by simp
    then obtain n where "cs = take n ds'" "left @ rest = concat (drop n ds')"
      using Cons.IH [of ds'] Cons.prems ds by auto
    then show ?thesis
      using ds \<open>c = d\<close> by (intro exI [of _ "Suc n"]) simp
  qed
qed

lemma whole_packet_encode: "tm_fits m \<Longrightarrow> whole_packet (tm_encode m)"
  using tm_encode_length_field [of m] total_length_header [of "tm_encode m"]
  by (simp add: whole_packet_def ccsds_total_length_def)

section \<open>Draining the link\<close>

text \<open>
  \<open>cs\<close> are the packets taken off the stream and \<open>left\<close> what was read after them: part of a packet,
  or a damaged packet.
\<close>

definition drain_stream ::
    "('w \<Rightarrow> u8 list) \<Rightarrow> tm_packet list \<Rightarrow> obc_link \<Rightarrow> 'w \<Rightarrow> (link_error + tm_packet list) \<Rightarrow> obc_link \<Rightarrow> 'w \<Rightarrow> bool" where
  "drain_stream rx collected l w r l' w' \<longleftrightarrow> pending l' = [] \<and>
     (\<exists>cs ps left. list_all whole_packet cs \<and> map parse_tm cs = map Inr ps \<and>
       rx w' = rx w @ concat cs @ left \<and> received l' = received l @ ps \<and>
       (case r of
          Inr out \<Rightarrow> out = collected @ ps \<and> cut_packet left
        | Inl e \<Rightarrow> if e = Os_error then cut_packet left
                  else whole_packet left \<and> (\<exists>e'. e = Raised e' \<and> parse_tm left = Inl e')))"

lemma drain_stream_cons:
  assumes "whole_packet c" and "parse_tm c = Inr p" and "rx w1 = rx w @ c" and "received l1 = received l @ [p]"
    and "drain_stream rx (collected @ [p]) l1 w1 r l' w'"
  shows "drain_stream rx collected l w r l' w'"
proof -
  obtain cs ps left where "list_all whole_packet cs" "map parse_tm cs = map Inr ps" "pending l' = []"
      "rx w' = rx w1 @ concat cs @ left" "received l' = received l1 @ ps"
      "case r of Inr out \<Rightarrow> out = (collected @ [p]) @ ps \<and> cut_packet left
        | Inl e \<Rightarrow> if e = Os_error then cut_packet left
                  else whole_packet left \<and> (\<exists>e'. e = Raised e' \<and> parse_tm left = Inl e')"
    using assms(5) unfolding drain_stream_def by blast
  then show ?thesis
    using assms(1-4) unfolding drain_stream_def
    by (intro conjI exI [of _ "c # cs"] exI [of _ "p # ps"] exI [of _ left]) (simp_all split: sum.splits)
qed

lemma cut_packet_Nil [simp]: "cut_packet []"
  by (simp add: cut_packet_def)

lemma gsw_drain_loop_stream:
  assumes stream: "stream_ok net rx" and "gsw_drain_loop net deadline collected l w = Some (r, l', w')"
    and "pending l = []"
  shows "drain_stream rx collected l w r l' w'"
proof -
  let ?Q = "\<lambda>net deadline collected l (w :: 'a) (r, l', w' :: 'a).
    stream_ok net rx \<longrightarrow> pending l = [] \<longrightarrow> drain_stream rx collected l w r l' w'"
  have "?Q net deadline collected l w (r, l', w')"
  proof (rule gsw_drain_loop.raw_induct [where P = ?Q, OF _ assms(2)])
    fix f net deadline collected l and w :: 'a and x :: "(link_error + tm_packet list) \<times> obc_link \<times> 'a"
    assume rec: "\<And>net deadline collected l w x. f net deadline collected l w = Some x \<Longrightarrow> ?Q net deadline collected l w x"
      and body: "(case clock net w of (now, w) \<Rightarrow>
       let remaining = deadline - now in
       if remaining \<le> 0 then Some (Inr collected, l, w)
       else
         (case read_tm net remaining l w of
            (Inl e, l, w) \<Rightarrow> Some (if e = Tm_timeout then Inr collected else Inl e, l, w)
          | (Inr packet, l, w) \<Rightarrow> f net deadline (collected @ [packet]) l w)) = Some x"
    show "?Q net deadline collected l w x"
    proof (cases x, clarify)
      fix r l' w'
      assume x: "x = (r, l', w')" and stream: "stream_ok net rx" and none: "pending l = []"
      obtain now w1 where clk: "clock net w = (now, w1)"
        by fastforce
      note w1 = stream_okD(1) [OF stream clk]
      show "drain_stream rx collected l w r l' w'"
      proof (cases "deadline - now \<le> 0")
        case True
        then show ?thesis
          using body none w1 by (auto simp: x clk drain_stream_def intro!: exI [of _ "[]"])
      next
        case False
        obtain a l1 w2 where read: "read_tm net (deadline - now) l w1 = (a, l1, w2)"
          by (rule prod_cases3)
        from read_tm_stream [OF stream none read] obtain c where c: "rx w2 = rx w1 @ c"
          "case a of Inr p \<Rightarrow> whole_packet c \<and> parse_tm c = Inr p \<and> l1 = l\<lparr> received := received l @ [p] \<rparr>
           | Inl e \<Rightarrow> l1 = l \<and> (if e \<in> {Tm_timeout, Os_error} then cut_packet c
               else whole_packet c \<and> (\<exists>e'. e = Raised e' \<and> parse_tm c = Inl e'))"
          by blast
        show ?thesis
        proof (cases a)
          case (Inl e)
          then have "r = (if e = Tm_timeout then Inr collected else Inl e)" "l' = l" "w' = w2"
            using body False c(2) by (simp_all add: x clk read)
          then show ?thesis
            using c Inl w1 none unfolding drain_stream_def
            by (intro conjI exI [of _ "[]"] exI [of _ c]) auto
        next
          case (Inr p)
          then have "f net deadline (collected @ [p]) l1 w2 = Some (r, l', w')" "pending l1 = []"
            using body False c(2) none by (simp_all add: x clk read)
          then have "drain_stream rx (collected @ [p]) l1 w2 r l' w'"
            using rec stream by fastforce
          then show ?thesis
            using c Inr w1 by (intro drain_stream_cons [of c p rx w2 w l1 l]) simp_all
        qed
      qed
    qed
  qed
  then show ?thesis
    using assms(1,3) by simp
qed

lemma concat_encode: "concat (map tm_encode ms) = wire ms"
  by (simp add: wire_def)

lemma parse_tm_wire: "list_all tm_fits ms \<Longrightarrow> map parse_tm (map tm_encode ms) = map Inr (map packet_of ms)"
  by (induction ms) (simp_all add: parse_tm_encode)

text \<open>Draining while the peer sends the octets of \<open>ms\<close>, of which any part may have arrived.\<close>

lemma gsw_drain_wire:
  assumes stream: "stream_ok net rx" and run: "gsw_drain net window l w = Some (r, l', w')"
    and fits: "list_all tm_fits ms" and sent: "prefix (rx w') (rx w @ wire ms)"
  obtains n left where "rx w' = rx w @ wire (take n ms) @ left" and "cut_packet left"
    and "received l' = received l @ map packet_of (take n ms)" and "pending l' = []"
    and "r \<in> {Inr (pending l @ map packet_of (take n ms)), Inl Os_error}"
proof -
  obtain now w1 where clk: "clock net w = (now, w1)"
    by fastforce
  have w1: "rx w1 = rx w"
    by (rule stream_okD(1) [OF stream clk])
  have "gsw_drain_loop net (now + window) (pending l) (l\<lparr> pending := [] \<rparr>) w1 = Some (r, l', w')"
    using run by (simp add: gsw_drain_def clk)
  from gsw_drain_loop_stream [OF stream this] w1 obtain cs ps left where
    cs: "list_all whole_packet cs" "map parse_tm cs = map Inr ps" "rx w' = rx w @ concat cs @ left"
    and l': "received l' = received l @ ps" "pending l' = []"
    and r: "case r of Inr out \<Rightarrow> out = pending l @ ps \<and> cut_packet left
        | Inl e \<Rightarrow> if e = Os_error then cut_packet left
                  else whole_packet left \<and> (\<exists>e'. e = Raised e' \<and> parse_tm left = Inl e')"
    unfolding drain_stream_def by auto
  obtain rest where rest: "concat cs @ left @ rest = concat (map tm_encode ms)"
    using sent cs(3) by (auto simp: prefix_def concat_encode)
  have whole: "list_all whole_packet (map tm_encode ms)"
    using fits by (auto simp: list_all_iff whole_packet_encode)
  obtain n where n: "cs = map tm_encode (take n ms)" "left @ rest = concat (map tm_encode (drop n ms))"
    using packets_prefix [OF cs(1) whole rest] by (auto simp: take_map drop_map)
  have "list_all tm_fits (take n ms)"
    using fits by (auto simp: list_all_iff dest: in_set_takeD)
  then have "map Inr ps = (map Inr (map packet_of (take n ms)) :: tm_packet py list)"
    using cs(2) n(1) parse_tm_wire by metis
  then have ps: "ps = map packet_of (take n ms)"
    by (simp only: inj_map_eq_map [OF inj_Inr])
  have "False" if whole: "whole_packet left" and bad: "parse_tm left = Inl e" for e
  proof (cases "drop n ms")
    case Nil
    then show ?thesis
      using n(2) whole by (simp add: whole_packet_def)
  next
    case (Cons m ms')
    then have "m \<in> set ms"
      by (metis in_set_dropD list.set_intros(1))
    then have "tm_fits m"
      using fits by (simp add: list_all_iff)
    moreover have "left = tm_encode m"
      using n(2) Cons whole whole_packet_encode [OF \<open>tm_fits m\<close>]
      by (intro whole_packet_prefix [of left "tm_encode m" rest "concat (map tm_encode ms')"]) simp_all
    ultimately show ?thesis
      using bad by (simp add: parse_tm_encode)
  qed
  then have "cut_packet left \<and> r \<in> {Inr (pending l @ ps), Inl Os_error}"
    using r by (cases r) (auto split: if_splits)
  then show ?thesis
    using that cs(3) l' unfolding n(1) ps concat_encode by blast
qed

section \<open>A scripted socket\<close>

text \<open>The answers to come, the time, and the octets received so far; a tick of a millisecond per reading.\<close>

record gsw_script =
  to_give :: "recv_result list"
  time_now :: rat
  log_in :: "u8 list"
  log_out :: "u8 list"

definition gsw_scripted :: "gsw_script tm_socket" where
  "gsw_scripted = \<lparr>
     sock_recv = (\<lambda>t n w. case to_give w of
         [] \<Rightarrow> (Timed_out, w)
       | x # rest \<Rightarrow>
           (case x of
              Received c \<Rightarrow>
                if length c \<le> n then (x, w\<lparr> to_give := rest, log_in := log_in w @ c \<rparr>)
                else (Received (take n c), w\<lparr> to_give := Received (drop n c) # rest, log_in := log_in w @ take n c \<rparr>)
            | _ \<Rightarrow> (x, w\<lparr> to_give := rest \<rparr>))),
     sock_sendall = (\<lambda>bs w. (True, w\<lparr> log_out := log_out w @ bs \<rparr>)),
     clock = (\<lambda>w. (time_now w + 1 / 1000, w\<lparr> time_now := time_now w + 1 / 1000 \<rparr>)) \<rparr>"

lemma gsw_scripted_stream: "stream_ok gsw_scripted log_in"
  by (auto simp: stream_ok_def gsw_scripted_def split: list.split recv_result.split)

lemma gsw_scripted_sendall: "sendall_ok gsw_scripted log_out"
  by (auto simp: sendall_ok_def gsw_scripted_def)

text \<open>The octets the script has left.\<close>

definition script_left :: "gsw_script \<Rightarrow> nat" where
  "script_left w = length (concat (map (\<lambda>x. case x of Received c \<Rightarrow> c | _ \<Rightarrow> []) (to_give w)))"

lemma gsw_scripted_limited: "peer_limited gsw_scripted script_left"
  by (auto simp: peer_limited_def gsw_scripted_def script_left_def split: list.split recv_result.split)

text \<open>Reading from one long answer: the octets asked for, then a packet.\<close>

lemma scripted_read_exact:
  assumes "to_give w = Received (c @ d) # rest" and "length c = n" and "0 < n" and "time_now w + 1 / 1000 < deadline"
  shows "gsw_read_exact gsw_scripted n deadline w =
    (Inr c, w\<lparr> to_give := (if d = [] then rest else Received d # rest), time_now := time_now w + 1 / 1000,
      log_in := log_in w @ c \<rparr>)"
proof -
  have "c \<noteq> []"
    using assms(2,3) by auto
  then show ?thesis
    using assms unfolding gsw_read_exact_def
    by (subst gsw_read_loop.simps) (simp add: gsw_scripted_def gsw_read_loop.simps [of _ _ _ c])
qed

lemma scripted_read_tm:
  assumes w: "to_give w = Received (tm_encode m @ d) # rest" and m: "tm_fits m" and l: "pending l = []"
    and "1 / 100 < timeout"
  shows "read_tm gsw_scripted timeout l w =
    (Inr (packet_of m), l\<lparr> received := received l @ [packet_of m] \<rparr>,
     w\<lparr> to_give := (if d = [] then rest else Received d # rest), time_now := time_now w + 3 / 1000,
       log_in := log_in w @ tm_encode m \<rparr>)"
proof -
  let ?h = "take 6 (tm_encode m)" and ?b = "drop 6 (tm_encode m)"
  let ?t = "time_now w + 1 / 1000"
  let ?w1 = "w\<lparr> time_now := ?t \<rparr>"
  let ?w2 = "?w1\<lparr> to_give := Received (?b @ d) # rest, time_now := ?t + 1 / 1000, log_in := log_in w @ ?h \<rparr>"
  have len: "length ?h = 6" "length ?b = 15 + length (m_data m)"
    by simp_all
  have "announced ?h = announced (tm_encode m)"
    using announced_append [of ?h ?b] len(1) by simp
  then have n: "nat (from_bytes (py_slice ?h 4 6) + 1) = length ?b"
    using announced_slice [of ?h] whole_packet_encode [OF m] by (simp add: whole_packet_def)
  have clk: "clock gsw_scripted w = (?t, ?w1)"
    by (simp add: gsw_scripted_def)
  have h: "gsw_read_exact gsw_scripted 6 (?t + timeout) ?w1 = (Inr ?h, ?w2)"
    using assms(4) w len by (subst scripted_read_exact [of _ ?h "?b @ d" rest]) simp_all
  have b: "gsw_read_exact gsw_scripted (length ?b) (?t + timeout) ?w2 =
      (Inr ?b, ?w2\<lparr> to_give := (if d = [] then rest else Received d # rest), time_now := ?t + 2 / 1000,
        log_in := log_in w @ tm_encode m \<rparr>)"
    using assms(4) len by (subst scripted_read_exact [of _ ?b d rest]) simp_all
  show ?thesis
    unfolding read_tm_def l list.case clk prod.case Let_def h sum.case n b append_take_drop_id parse_tm_encode [OF m]
    by simp
qed

text \<open>A link over which two reports arrive in one piece.\<close>

definition example_msg :: "u8 \<Rightarrow> u8 \<Rightarrow> tm_msg" where
  "example_msg svc sub = \<lparr> m_seq = 0, m_service = svc, m_subtype = sub, m_counter = 0, m_coarse = 0, m_fine = 0,
     m_data = [] \<rparr>"

definition example_link :: gsw_script where
  "example_link = \<lparr> to_give = [Received (tm_encode (example_msg 3 25) @ tm_encode (example_msg 17 2))],
     time_now = 0, log_in = [], log_out = [] \<rparr>"

lemma example_fits: "tm_fits (example_msg svc sub)"
  by (simp add: tm_fits_def example_msg_def)

lemma scripted_silent:
  "to_give w = [] \<Longrightarrow> pending l = [] \<Longrightarrow>
   \<exists>w'. read_tm gsw_scripted timeout l w = (Inl Tm_timeout, l, w') \<and> log_in w' = log_in w"
  by (simp add: read_tm_def gsw_scripted_def gsw_read_exact_def gsw_read_loop.simps Let_def)

text \<open>Both packets are read one after the other; then the link is silent.\<close>

lemma example_reads:
  assumes "1 / 100 < s"
  obtains w1 where "read_tm gsw_scripted s \<lparr> received = [], pending = [] \<rparr> (example_link\<lparr> time_now := c \<rparr>) =
      (Inr (packet_of (example_msg 3 25)), \<lparr> received = [packet_of (example_msg 3 25)], pending = [] \<rparr>, w1)"
    and "time_now w1 = c + 3 / 1000"
    and "\<And>t c'. 1 / 100 < t \<Longrightarrow>
      \<exists>w2. read_tm gsw_scripted t \<lparr> received = [packet_of (example_msg 3 25)], pending = [] \<rparr> (w1\<lparr> time_now := c' \<rparr>) =
        (Inr (packet_of (example_msg 17 2)),
         \<lparr> received = [packet_of (example_msg 3 25), packet_of (example_msg 17 2)], pending = [] \<rparr>, w2) \<and>
        to_give w2 = [] \<and> log_in w2 = concat (map tm_encode [example_msg 3 25, example_msg 17 2])"
proof -
  have nonempty: "tm_encode (example_msg 17 2) \<noteq> []"
    by (metis length_tm_encode list.size(3) add_is_0 numeral_neq_zero)
  let ?w1 = "\<lparr> to_give = [Received (tm_encode (example_msg 17 2))], time_now = c + 3 / 1000,
      log_in = tm_encode (example_msg 3 25), log_out = [] \<rparr>"
  have "read_tm gsw_scripted s \<lparr> received = [], pending = [] \<rparr> (example_link\<lparr> time_now := c \<rparr>) =
      (Inr (packet_of (example_msg 3 25)), \<lparr> received = [packet_of (example_msg 3 25)], pending = [] \<rparr>, ?w1)"
    using assms(1) nonempty
    by (subst scripted_read_tm [where m = "example_msg 3 25" and d = "tm_encode (example_msg 17 2)" and rest = "[]"])
       (simp_all add: example_link_def example_fits)
  moreover have "\<exists>w2. read_tm gsw_scripted t \<lparr> received = [packet_of (example_msg 3 25)], pending = [] \<rparr> (?w1\<lparr> time_now := c' \<rparr>) =
        (Inr (packet_of (example_msg 17 2)),
         \<lparr> received = [packet_of (example_msg 3 25), packet_of (example_msg 17 2)], pending = [] \<rparr>, w2) \<and>
        to_give w2 = [] \<and> log_in w2 = concat (map tm_encode [example_msg 3 25, example_msg 17 2])"
    if "1 / 100 < t" for t c'
    using that
    by (subst scripted_read_tm [where m = "example_msg 17 2" and d = "[]" and rest = "[]"])
       (simp_all add: example_fits)
  ultimately show ?thesis
    using that [of ?w1] by simp
qed

lemma scripted_clock: "clock gsw_scripted w = (time_now w + 1 / 1000, w\<lparr> time_now := time_now w + 1 / 1000 \<rparr>)"
  by (simp add: gsw_scripted_def)

lemma expect_loop_packet:
  "clock net w = (t, w1) \<Longrightarrow> t < deadline \<Longrightarrow> read_tm net (deadline - t) l w1 = (Inr p, l', w2) \<Longrightarrow>
   expect_loop net P deadline skipped l w =
     (if P p then Some (Inr p, put_back skipped l', w2) else expect_loop net P deadline (skipped @ [p]) l' w2)"
  by (subst expect_loop.simps) simp

lemma gsw_drain_loop_packet:
  "clock net w = (t, w1) \<Longrightarrow> t < deadline \<Longrightarrow> read_tm net (deadline - t) l w1 = (Inr p, l', w2) \<Longrightarrow>
   gsw_drain_loop net deadline collected l w = gsw_drain_loop net deadline (collected @ [p]) l' w2"
  by (subst gsw_drain_loop.simps) simp

text \<open>The two readings of a loop that starts at time 0 with a deadline.\<close>

lemma example_turns:
  assumes "1 / 10 < deadline"
  obtains w1 w2 where
    "read_tm gsw_scripted (deadline - 2 / 1000) \<lparr> received = [], pending = [] \<rparr> (example_link\<lparr> time_now := 2 / 1000 \<rparr>) =
      (Inr (packet_of (example_msg 3 25)), \<lparr> received = [packet_of (example_msg 3 25)], pending = [] \<rparr>, w1)"
    and "clock gsw_scripted w1 = (6 / 1000, w1\<lparr> time_now := 6 / 1000 \<rparr>)"
    and "read_tm gsw_scripted (deadline - 6 / 1000) \<lparr> received = [packet_of (example_msg 3 25)], pending = [] \<rparr>
        (w1\<lparr> time_now := 6 / 1000 \<rparr>) =
      (Inr (packet_of (example_msg 17 2)),
       \<lparr> received = [packet_of (example_msg 3 25), packet_of (example_msg 17 2)], pending = [] \<rparr>, w2)"
    and "to_give w2 = []" and "log_in w2 = concat (map tm_encode [example_msg 3 25, example_msg 17 2])"
proof -
  have s: "1 / 100 < deadline - 2 / 1000" "1 / 100 < deadline - 6 / 1000"
    using assms by simp_all
  show ?thesis
    by (rule example_reads [OF s(1), of "2 / 1000"], drule meta_spec, drule meta_spec, drule meta_mp, rule s(2))
       (auto simp: scripted_clock intro: that)
qed

lemma example_expect:
  "\<exists>w'. expect_where gsw_scripted (is_report 17 2) 2 \<lparr> received = [], pending = [] \<rparr> example_link =
      Some (Inr (packet_of (example_msg 17 2)),
        \<lparr> received = [packet_of (example_msg 3 25), packet_of (example_msg 17 2)],
          pending = [packet_of (example_msg 3 25)] \<rparr>, w')"
proof -
  have m: "\<not> is_report 17 2 (packet_of (example_msg 3 25))" "is_report 17 2 (packet_of (example_msg 17 2))"
    by (simp_all add: is_report_def packet_of_def example_msg_def)
  let ?w0 = "example_link\<lparr> time_now := 1 / 1000 \<rparr>"
  have c: "clock gsw_scripted example_link = (1 / 1000, ?w0)" "clock gsw_scripted ?w0 = (2 / 1000, example_link\<lparr> time_now := 2 / 1000 \<rparr>)"
    by (simp_all add: scripted_clock example_link_def)
  obtain w1 w2 where
    r: "read_tm gsw_scripted (2001 / 1000 - 2 / 1000) \<lparr> received = [], pending = [] \<rparr> (example_link\<lparr> time_now := 2 / 1000 \<rparr>) =
      (Inr (packet_of (example_msg 3 25)), \<lparr> received = [packet_of (example_msg 3 25)], pending = [] \<rparr>, w1)"
      "clock gsw_scripted w1 = (6 / 1000, w1\<lparr> time_now := 6 / 1000 \<rparr>)"
      "read_tm gsw_scripted (2001 / 1000 - 6 / 1000) \<lparr> received = [packet_of (example_msg 3 25)], pending = [] \<rparr>
        (w1\<lparr> time_now := 6 / 1000 \<rparr>) =
      (Inr (packet_of (example_msg 17 2)),
       \<lparr> received = [packet_of (example_msg 3 25), packet_of (example_msg 17 2)], pending = [] \<rparr>, w2)"
    by (rule example_turns [of "2001 / 1000"]) auto
  have "expect_loop gsw_scripted (is_report 17 2) (2001 / 1000) [] \<lparr> received = [], pending = [] \<rparr> ?w0 =
      Some (Inr (packet_of (example_msg 17 2)),
        put_back [packet_of (example_msg 3 25)]
          \<lparr> received = [packet_of (example_msg 3 25), packet_of (example_msg 17 2)], pending = [] \<rparr>, w2)"
    using expect_loop_packet [OF c(2) _ r(1)] expect_loop_packet [OF r(2) _ r(3)] m by simp
  then show ?thesis
    by (simp add: expect_where_def c put_back_def)
qed

lemma drain_silent:
  assumes "to_give w = []" and "pending l = []"
  shows "\<exists>w'. gsw_drain_loop gsw_scripted deadline collected l w = Some (Inr collected, l, w') \<and> log_in w' = log_in w"
proof (cases "deadline - (time_now w + 1 / 1000) \<le> 0")
  case True
  then show ?thesis
    by (subst gsw_drain_loop.simps) (simp add: scripted_clock)
next
  case False
  obtain w' where "read_tm gsw_scripted (deadline - (time_now w + 1 / 1000)) l (w\<lparr> time_now := time_now w + 1 / 1000 \<rparr>)
      = (Inl Tm_timeout, l, w')" "log_in w' = log_in w"
    using scripted_silent [of "w\<lparr> time_now := time_now w + 1 / 1000 \<rparr>" l] assms by auto
  then show ?thesis
    using False by (subst gsw_drain_loop.simps) (simp add: scripted_clock)
qed

lemma example_drain:
  "\<exists>w'. gsw_drain gsw_scripted 2 \<lparr> received = [], pending = [] \<rparr> example_link =
      Some (Inr [packet_of (example_msg 3 25), packet_of (example_msg 17 2)],
        \<lparr> received = [packet_of (example_msg 3 25), packet_of (example_msg 17 2)], pending = [] \<rparr>, w') \<and>
    log_in w' = concat (map tm_encode [example_msg 3 25, example_msg 17 2])"
proof -
  let ?w0 = "example_link\<lparr> time_now := 1 / 1000 \<rparr>"
  have c: "clock gsw_scripted example_link = (1 / 1000, ?w0)" "clock gsw_scripted ?w0 = (2 / 1000, example_link\<lparr> time_now := 2 / 1000 \<rparr>)"
    by (simp_all add: scripted_clock example_link_def)
  obtain w1 w2 where
    r: "read_tm gsw_scripted (2001 / 1000 - 2 / 1000) \<lparr> received = [], pending = [] \<rparr> (example_link\<lparr> time_now := 2 / 1000 \<rparr>) =
      (Inr (packet_of (example_msg 3 25)), \<lparr> received = [packet_of (example_msg 3 25)], pending = [] \<rparr>, w1)"
      "clock gsw_scripted w1 = (6 / 1000, w1\<lparr> time_now := 6 / 1000 \<rparr>)"
      "read_tm gsw_scripted (2001 / 1000 - 6 / 1000) \<lparr> received = [packet_of (example_msg 3 25)], pending = [] \<rparr>
        (w1\<lparr> time_now := 6 / 1000 \<rparr>) =
      (Inr (packet_of (example_msg 17 2)),
       \<lparr> received = [packet_of (example_msg 3 25), packet_of (example_msg 17 2)], pending = [] \<rparr>, w2)"
    and w2: "to_give w2 = []" "log_in w2 = concat (map tm_encode [example_msg 3 25, example_msg 17 2])"
    by (rule example_turns [of "2001 / 1000"]) auto
  let ?l = "\<lparr> received = [packet_of (example_msg 3 25), packet_of (example_msg 17 2)], pending = [] \<rparr>"
  have "gsw_drain_loop gsw_scripted (2001 / 1000) [] \<lparr> received = [], pending = [] \<rparr> ?w0 =
      gsw_drain_loop gsw_scripted (2001 / 1000) [packet_of (example_msg 3 25), packet_of (example_msg 17 2)] ?l w2"
    using gsw_drain_loop_packet [OF c(2) _ r(1)] gsw_drain_loop_packet [OF r(2) _ r(3)] by simp
  then show ?thesis
    using drain_silent [OF w2(1), of ?l] w2(2) by (simp add: gsw_drain_def c)
qed

text \<open>What the script has left to give and what it gave are together always the same octets.\<close>

definition offered :: "gsw_script \<Rightarrow> u8 list" where
  "offered w = log_in w @ concat (map (\<lambda>x. case x of Received c \<Rightarrow> c | _ \<Rightarrow> []) (to_give w))"

interpretation scripted_offer: link_relation gsw_scripted "\<lambda>w w'. offered w' = offered w"
  by unfold_locales
    (auto simp: gsw_scripted_def offered_def split: list.splits recv_result.splits if_splits)

section \<open>Properties\<close>

text \<open>
  C21: Waiting for a packet takes the first match, in the order of arrival, out of the packets that
  were pending and those that arrive meanwhile, and leaves all others pending in their order. When
  time runs out nothing has matched and every packet is still there. After any other failure, a
  damaged packet or a broken connection, the packets that were skipped are gone.
\<close>

theorem expect_where_first:
  assumes "expect_where net wanted timeout l w = Some (r, l', w')"
  shows "\<exists>new. received l' = received l @ new \<and>
    (case r of
       Inr p \<Rightarrow> \<exists>before after. pending l @ new = before @ p # after \<and> wanted p \<and>
         list_all (\<lambda>q. \<not> wanted q) before \<and> pending l' = before @ after
     | Inl e \<Rightarrow> list_all (\<lambda>q. \<not> wanted q) (pending l @ new) \<and>
         (if e = Tm_timeout
          then mset (pending l') = mset (pending l @ new) \<and> (pending l = [] \<longrightarrow> pending l' = new)
          else pending l' = []))"
proof (cases "take_match wanted (pending l)")
  case (Some a)
  then obtain p ps where a: "take_match wanted (pending l) = Some (p, ps)"
    by (cases a) auto
  then have "r = Inr p" "l' = l\<lparr> pending := ps \<rparr>"
    using assms by (simp_all add: expect_where_def)
  then show ?thesis
    using take_match_Some [OF a] by auto
next
  case None
  then have none: "list_all (\<lambda>q. \<not> wanted q) (pending l)"
    by (simp add: take_match_None)
  obtain now w1 where "clock net w = (now, w1)"
    by fastforce
  then have "expect_loop net wanted (now + timeout) [] l w1 = Some (r, l', w')"
    using assms None by (simp add: expect_where_def)
  from expect_loop_post [OF this none] obtain new where new: "received l' = received l @ new"
      "wait_post wanted [] (pending l) new r (pending l')"
    by blast
  show ?thesis
  proof (cases r)
    case (Inr p)
    then show ?thesis
      using new by (intro exI [of _ new]) (fastforce simp: wait_post_def)
  next
    case (Inl e)
    have "mset (drop k ps @ take k ps @ new) = mset (ps @ new)" for k and ps :: "tm_packet list"
      by (metis append_assoc append_take_drop_id mset_append union_commute)
    then show ?thesis
      using new none Inl by (intro exI [of _ new]) (auto simp: wait_post_def simp del: mset_append)
  qed
qed

lemma expect_where_first_witness:
  "\<exists>l' w' before after. expect_where gsw_scripted (is_report 17 2) 2 \<lparr> received = [], pending = [] \<rparr> example_link =
      Some (Inr (packet_of (example_msg 17 2)), l', w') \<and>
    received l' = before @ packet_of (example_msg 17 2) # after \<and> pending l' = before @ after"
proof -
  obtain l' w' where run: "expect_where gsw_scripted (is_report 17 2) 2 \<lparr> received = [], pending = [] \<rparr> example_link =
      Some (Inr (packet_of (example_msg 17 2)), l', w')"
    using example_expect by blast
  from expect_where_first [OF run] show ?thesis
    unfolding run by auto
qed

text \<open>
  Draining the link, while the peer sends the packets of some messages and any part of their
  octets has arrived, collects what was pending and then the decoded messages, in order and each
  once; what is left unread is less than a packet. No packet is reported as damaged.
\<close>

theorem gsw_drain_reads:
  assumes "stream_ok net rx" and "gsw_drain net window l w = Some (r, l', w')" and "list_all tm_fits ms"
    and "prefix (rx w') (rx w @ concat (map tm_encode ms))"
  shows "\<exists>n left. rx w' = rx w @ concat (map tm_encode (take n ms)) @ left \<and> cut_packet left \<and>
    received l' = received l @ map packet_of (take n ms) \<and> pending l' = [] \<and>
    r \<in> {Inr (pending l @ map packet_of (take n ms)), Inl Os_error}"
  using gsw_drain_wire [OF assms(1-3)] assms(4) unfolding concat_encode by blast

lemma gsw_drain_reads_witness:
  "\<exists>l' w' n. gsw_drain gsw_scripted 2 \<lparr> received = [], pending = [] \<rparr> example_link =
      Some (Inr (map packet_of (take n [example_msg 3 25, example_msg 17 2])), l', w') \<and> pending l' = []"
proof -
  obtain l' w' where run: "gsw_drain gsw_scripted 2 \<lparr> received = [], pending = [] \<rparr> example_link =
      Some (Inr [packet_of (example_msg 3 25), packet_of (example_msg 17 2)], l', w')"
    and log: "log_in w' = concat (map tm_encode [example_msg 3 25, example_msg 17 2])"
    using example_drain by blast
  have "list_all tm_fits [example_msg 3 25, example_msg 17 2]"
    by (simp add: example_fits)
  moreover have "prefix (log_in w') (log_in example_link @ concat (map tm_encode [example_msg 3 25, example_msg 17 2]))"
    unfolding log by (simp add: example_link_def)
  ultimately obtain n where "(Inr [packet_of (example_msg 3 25), packet_of (example_msg 17 2)] :: link_error + tm_packet list)
      \<in> {Inr (pending \<lparr> received = [], pending = [] \<rparr> @ map packet_of (take n [example_msg 3 25, example_msg 17 2])),
        Inl Os_error}" "pending l' = []"
    using gsw_drain_reads [OF gsw_scripted_stream run] by blast
  then have "[packet_of (example_msg 3 25), packet_of (example_msg 17 2)] =
      map packet_of (take n [example_msg 3 25, example_msg 17 2])" "pending l' = []"
    by simp_all
  then show ?thesis
    using run by metis
qed

text \<open>
  C37: Waiting for a packet, checking that none comes, draining the link and flushing it all return
  when the peer has a limited number of octets to send, in whatever pieces and with whatever
  pauses they come and whatever the clock shows: a turn of these loops ends in a timeout or an
  error, which ends the loop, or takes a pending packet or octets from the stream.
\<close>

theorem link_loops_end:
  assumes "stream_ok net rx" and "peer_limited net togo"
  shows "(\<exists>r l' w'. expect_where net wanted timeout l w = Some (r, l', w')) \<and>
    (\<exists>r l' w'. expect_none net service subtype window l w = Some (r, l', w')) \<and>
    (\<exists>r l' w'. gsw_drain net window l w = Some (r, l', w')) \<and>
    (\<exists>r l' w'. flush net window l w = Some (r, l', w'))"
  using expecting.ends [OF assms] expecting_none.ends [OF assms] draining.ends [OF assms] flush_ends [OF assms]
  by (fastforce simp: expect_where_def expect_none_def gsw_drain_def split: prod.split option.split)

lemma link_loops_end_witness:
  "\<exists>r l' w'. expect_none gsw_scripted 1 2 (1 / 2) \<lparr> received = [], pending = [] \<rparr> example_link = Some (r, l', w')"
  using link_loops_end [OF gsw_scripted_stream gsw_scripted_limited] by blast

text \<open>
  A deadline that passes inside a packet loses the framing: the octets already read are discarded,
  and the next call takes the rest of the packet for a header. Here it reads service and subtype
  as a length field, waits for octets that never come and consumes the following packet as well.
\<close>

theorem timeout_inside_packet_loses_framing:
  "let w = \<lparr> to_give = [Received (take 3 (tm_encode (example_msg 3 25))), Timed_out,
         Received (drop 3 (tm_encode (example_msg 3 25))), Received (tm_encode (example_msg 17 2))],
       time_now = 0, log_in = [], log_out = [] \<rparr>;
     (r1, l1, w1) = read_tm gsw_scripted 2 \<lparr> received = [], pending = [] \<rparr> w;
     (r2, l2, w2) = read_tm gsw_scripted 2 l1 w1
   in r1 = Inl Tm_timeout \<and> r2 = Inl Tm_timeout \<and> received l2 = [] \<and>
     log_in w2 = wire [example_msg 3 25, example_msg 17 2]"
  unfolding wire_def by code_simp

end
