(* ===== verification/Session_End.thy ===== *)
theory Session_End
  imports Sim Test_Support
begin

text \<open>
  How a session of the host runner comes to its end: it serves its client until the stream ends or
  fails, so a client that sends its telecommands and then closes has all of them processed.
\<close>

section \<open>A peer that sends its octets and closes\<close>

text \<open>Nothing ends or fails on the receiving side before the octets \<open>T\<close> have arrived.\<close>

definition closes_after :: "'w posix \<Rightarrow> int \<Rightarrow> ('w \<Rightarrow> u8 list) \<Rightarrow> u8 list \<Rightarrow> bool" where
  "closes_after net fd rx T \<longleftrightarrow>
     (\<forall>n w. 0 < n \<longrightarrow> (case recv_call net fd n w of
        (Ret bs, w') \<Rightarrow> bs = [] \<longrightarrow> rx w' = T
      | (Fail e, w') \<Rightarrow> e \<noteq> EINTR \<longrightarrow> rx w' = T)) \<and>
     (\<forall>t w. case select_call net (fd + 1) t w of
        (Ret _, w') \<Rightarrow> True
      | (Fail e, w') \<Rightarrow> e \<noteq> EINTR \<longrightarrow> rx w' = T)"

lemma closes_afterD:
  assumes "closes_after net fd rx T"
  shows "recv_call net fd n w = (Ret [], w') \<Longrightarrow> 0 < n \<Longrightarrow> rx w' = T"
    and "recv_call net fd n w = (Fail e, w') \<Longrightarrow> 0 < n \<Longrightarrow> e \<noteq> EINTR \<Longrightarrow> rx w' = T"
    and "select_call net (fd + 1) t w = (Fail e, w') \<Longrightarrow> e \<noteq> EINTR \<Longrightarrow> rx w' = T"
  using assms [unfolded closes_after_def, THEN conjunct1, THEN spec, THEN spec, of n w]
    assms [unfolded closes_after_def, THEN conjunct2, THEN spec, THEN spec, of t w]
  by simp_all

section \<open>The loops stop for no other reason\<close>

lemma read_loop_ends:
  assumes "closes_after net fd rx T" and "read_loop net fd off n got buf w = Some (Done (rc, buf', w'))" and "rc \<le> 0"
  shows "rx w' = T"
proof -
  let ?P = "\<lambda>net fd (off :: nat) (n :: nat) (got :: nat) (buf :: mem) w r. closes_after net fd rx T \<longrightarrow>
    (\<forall>rc (buf' :: mem) w'. r = Done (rc :: int, buf', w') \<longrightarrow> rc \<le> 0 \<longrightarrow> rx w' = T)"
  have "?P net fd off n got buf w (Done (rc, buf', w'))"
  proof (rule read_loop.raw_induct [where P = ?P, OF _ assms(2)], intro impI allI)
    fix f net fd off n got buf w r rc buf' w'
    assume rec: "\<And>net fd off n got buf w r. f net fd off n got buf w = Some r \<Longrightarrow> ?P net fd off n got buf w r"
      and body: "(if got < n then
        (case recv_call net fd (n - got) w of
           (Ret bs, w) \<Rightarrow>
             if bs = [] then Some (Done (0, buf, w))
             else checked (store_octets buf (off + got) bs)
               (\<lambda>buf. f net fd off n (got + length bs) buf w)
         | (Fail e, w) \<Rightarrow>
             if e = EINTR then f net fd off n got buf w
             else Some (Done (-1, buf, w)))
      else Some (Done (1, buf, w))) = Some r"
      and net: "closes_after net fd rx T" and r: "r = Done (rc, buf', w')" and rc: "rc \<le> 0"
    have n: "got < n"
      using body r rc by (auto split: if_splits)
    obtain x w1 where x: "recv_call net fd (n - got) w = (x, w1)"
      by fastforce
    show "rx w' = T"
    proof (cases x)
      case (Ret bs)
      then show ?thesis
        using body n x r rc rec net closes_afterD(1) [OF net, of "n - got" w]
        by (auto simp: Done_rules split: if_splits)
    next
      case (Fail e)
      then show ?thesis
        using body n x r rc rec net closes_afterD(2) [OF net, of "n - got" w e]
        by (auto split: if_splits)
    qed
  qed
  then show ?thesis
    using assms(1,3) by simp
qed

lemma receive_tc_ends:
  assumes "closes_after net fd rx T" and "receive_tc net fd buf cap out w = Some (Done (rc, buf', out', w'))" and "rc \<le> 0"
  shows "rx w' = T"
  using assms(2,3) read_loop_ends [OF assms(1)]
  by (auto simp: receive_tc_def read_exact_def Let_def Done_rules split: if_splits)

lemma serve_turn_ends:
  assumes close: "closes_after net fd rx T" and never: "never_refuses net fd"
    and turn: "serve_turn net fd tick_ms buf out s w = Some (Done (False, buf', out', s', w'))"
  shows "rx w' = T"
proof -
  obtain x w1 where sel: "select_call net (fd + 1) (tick_ms div 1000, (tick_ms mod 1000) * 1000) w = (x, w1)"
    by fastforce
  show ?thesis
  proof (cases x)
    case (Fail e)
    then show ?thesis
      using turn sel closes_afterD(3) [OF close, of _ w e]
      by (auto simp: serve_turn_def guarded_def split: if_splits)
  next
    case (Ret ready)
    have "rc = 0" if "drain_downlink net fd s2 w2 = Some (Done (rc, s3, w3))" for rc s2 s3 w2 w3
      using drain_loop_accepted [OF never] that unfolding drain_downlink_def by blast
    note drained = this
    obtain buf2 out2 s2 where "serve_ready net fd ready buf out s w1 = Some (Done (False, buf2, out2, s2, w'))"
      using turn sel Ret by (auto simp: serve_turn_def guarded_def Done_rules split: if_splits dest!: drained)
    then show ?thesis
      using receive_tc_ends [OF close] by (auto simp: serve_ready_def Done_rules split: if_splits)
  qed
qed

lemma serve_loop_ends:
  assumes "closes_after net fd rx T" and "never_refuses net fd"
    and "serve_loop net fd tick_ms buf len s w = Some (Done (s', w'))"
  shows "rx w' = T"
proof -
  let ?P = "\<lambda>net fd (tick_ms :: u32) (buf :: mem) (len :: nat option) (s :: obsw) w r.
    closes_after net fd rx T \<longrightarrow> never_refuses net fd \<longrightarrow> (\<forall>s' w'. r = Done (s', w') \<longrightarrow> rx w' = T)"
  have "?P net fd tick_ms buf len s w (Done (s', w'))"
  proof (rule serve_loop.raw_induct [where P = ?P, OF _ assms(3)], intro impI allI)
    fix f net fd tick_ms buf len s w r s' w'
    assume rec: "\<And>net fd tick_ms buf len s w r. f net fd tick_ms buf len s w = Some r \<Longrightarrow> ?P net fd tick_ms buf len s w r"
      and body: "run_bind (serve_turn net fd tick_ms buf len s w) (\<lambda>(go, buf, len, s, w).
          if go then f net fd tick_ms buf len s w else Some (Done (s, w))) = Some r"
      and net: "closes_after net fd rx T" "never_refuses net fd" and r: "r = Done (s', w')"
    then obtain go b l s1 w1 where turn: "serve_turn net fd tick_ms buf len s w = Some (Done (go, b, l, s1, w1))"
        "(if go then f net fd tick_ms b l s1 w1 else Some (Done (s1, w1))) = Some (Done (s', w'))"
      by (auto simp: Done_rules)
    show "rx w' = T"
    proof (cases go)
      case True
      then show ?thesis
        using turn(2) rec net by auto
    next
      case False
      then show ?thesis
        using turn serve_turn_ends [OF net] by auto
    qed
  qed
  then show ?thesis
    using assms(1,2) by simp
qed

lemma serve_client_received:
  assumes "closes_after net fd rx T" and "never_refuses net fd"
    and "serve_client net fd tick_ms s w = Some (Done (s', w'))"
  shows "rx w' = T"
proof -
  have "rc = 0" if "drain_downlink net fd s2 w2 = Some (Done (rc, s3, w3))" for rc s2 s3 w2 w3
    using drain_loop_accepted [OF assms(2)] that unfolding drain_downlink_def by blast
  note drained = this
  show ?thesis
    using assms(3) serve_loop_ends [OF assms(1,2)]
    by (auto simp: serve_client_def Done_rules split: if_splits dest!: drained)
qed

section \<open>A peer that sends a given string\<close>

text \<open>The world is the number of octets of \<open>T\<close> that were delivered, and the octets sent back.\<close>

definition string_peer :: "u8 list \<Rightarrow> (nat \<times> u8 list) posix" where
  "string_peer T = \<lparr>
     recv_call = (\<lambda>fd n (k, out). (Ret (take n (drop k T)), (k + length (take n (drop k T)), out))),
     send_call = (\<lambda>fd bs (k, out). (Ret (length bs), (k, out @ bs))),
     select_call = (\<lambda>nfds t w. (Ret 1, w)), fd_setsize = 1024 \<rparr>"

definition delivered :: "u8 list \<Rightarrow> nat \<times> u8 list \<Rightarrow> u8 list" where
  "delivered T w = take (fst w) T"

lemma string_peer_ok:
  "link_ok (string_peer T) 4 (delivered T) snd" "interrupts_end (string_peer T) fd"
proof -
  have "take k T @ take n (drop k T) = take (k + length (take n (drop k T))) T" for k n
    by (simp add: take_add min_def)
  then show "link_ok (string_peer T) 4 (delivered T) snd"
    by (simp add: link_ok_def recv_ok_def send_ok_def select_ok_def string_peer_def delivered_def split_beta)
  show "interrupts_end (string_peer T) fd"
    by (simp add: interrupts_end_def string_peer_def split_beta)
qed

lemma string_peer_finite: "peer_finite (string_peer T) fd (delivered T) (\<lambda>w. length T - fst w)"
  by (auto simp: peer_finite_def call_closed_def string_peer_def delivered_def reflp_def transp_def split_beta)

lemma string_peer_closes: "closes_after (string_peer T) fd (delivered T) T" "never_refuses (string_peer T) fd"
  by (auto simp: closes_after_def never_refuses_def string_peer_def delivered_def split_beta)

section \<open>Properties\<close>

text \<open>
  C19: Every telecommand of a client is served. If the client sends packets that fit the buffer and
  closes after them, is silent for finitely many timeouts and takes the telemetry it is sent, then
  the session ends without undefined behaviour; each packet has been processed, in order, and
  the client was sent exactly the octets the specification emits for these telecommands and the
  minor cycles between them.
\<close>

theorem client_served:
  assumes "link_ok net fd rx tx" and "interrupts_end net fd" and "peer_finite net fd rx budget"
    and "never_refuses net fd" and "closes_after net fd rx (rx w @ concat frames)"
    and "list_all is_frame frames" and "obsw_inv s"
  shows "\<exists>s' w' xs. serve_client net fd tick_ms s w = Some (Done (s', w')) \<and> obsw_inv s' \<and>
    list_all driver_stimulus xs \<and> telecommands xs = frames \<and>
    tx w' = tx w @ fst (sp_session (Start # xs) (obsw_abs s)) \<and>
    obsw_abs s' = snd (sp_session (Start # xs) (obsw_abs s))"
proof -
  obtain s' w' where run: "serve_client net fd tick_ms s w = Some (Done (s', w'))"
    and post: "client_post (never_refuses net fd) rx tx s w (s', w')"
    using returns_safe_Done [OF serve_client_returns [OF assms(1-3,7)] serve_client_safe [OF assms(1,7)]] by (metis surj_pair)
  obtain xs left where xs: "list_all driver_stimulus xs" "rx w' = rx w @ concat (telecommands xs) @ left" "incomplete left"
      "tx w' = tx w @ fst (sp_session (Start # xs) (obsw_abs s))" "obsw_abs s' = snd (sp_session (Start # xs) (obsw_abs s))"
    and inv: "obsw_inv s'"
    using post assms(4) unfolding client_post_def concat_telecommands by auto
  have "concat (telecommands xs) @ left = concat frames @ []"
    using serve_client_received [OF assms(5,4) run] xs(2) by simp
  then have "telecommands xs = frames"
    using frames_unique [OF telecommands_frames [OF xs(1)] assms(6) xs(3), of "[]"] by (simp add: incomplete_short)
  then show ?thesis
    using run inv xs by blast
qed

text \<open>A telecommand packet and a header that announces more than the buffer holds.\<close>

lemma client_served_witness:
  "let frames = [tc_encode 9 17 1 [], [0x18, 0x0C, 0xC0, 0, 0xFF, 0xFF]]
   in \<exists>s' w' xs. serve_client (string_peer (concat frames)) 4 100 power_on (0, []) = Some (Done (s', w')) \<and>
     telecommands xs = frames \<and> snd w' = fst (sp_session (Start # xs) (obsw_abs power_on))"
proof -
  let ?frames = "[tc_encode 9 17 1 [], [0x18, 0x0C, 0xC0, 0, 0xFF, 0xFF]] :: u8 list list"
  have frames: "list_all is_frame ?frames"
    by (simp add: is_frame_def announced_def of_be16_def tc_encode_def tc_body_def tc_header_def header_octets_def be16_def nth_append)
  have "delivered T (0, []) = []" for T
    by (simp add: delivered_def)
  then have close: "closes_after (string_peer (concat ?frames)) 4 (delivered (concat ?frames))
      (delivered (concat ?frames) (0, []) @ concat ?frames)"
    using string_peer_closes(1) by simp
  show ?thesis
    using client_served [OF string_peer_ok string_peer_finite string_peer_closes(2) close frames obsw_inv_power_on, of 100]
    unfolding Let_def by auto
qed

end
