(* ===== verification/Ground_Session.thy ===== *)
theory Ground_Session
  imports Gsw_Db Gsw_Link Session_End
begin

text \<open>
  The ground segment and the on-board software together: the packet layer and the link of
  \<open>tests/integration/gsw/\<close> at one end of the socket, the host runner \<open>sim/obc_sim.c\<close> with the
  flight software behind it at the other. All the network is asked for is that the octets one side
  has received are the beginning of those the other side has sent.
\<close>

section \<open>The messages of a session\<close>

primrec sp_messages :: "stimulus list \<Rightarrow> spec \<Rightarrow> tm_msg list" where
  "sp_messages [] a = []"
| "sp_messages (x # xs) a =
     (let b = sp_step x a in sp_queue b @ sp_messages xs (b\<lparr> sp_queue := [] \<rparr>))"

lemma wire_append: "wire (ms @ ns) = wire ms @ wire ns"
  by (simp add: wire_def)

lemma sp_session_messages: "fst (sp_session xs a) = wire (sp_messages xs a)"
  by (induction xs arbitrary: a) (simp_all add: sp_serve_def Let_def split_beta wire_append)

text \<open>All of them fit a packet, since the abstract states of a session are those of real ones.\<close>

lemma drained_state:
  assumes "obsw_inv s"
  obtains s' where "obsw_inv s'" and "obsw_abs s' = (obsw_abs s)\<lparr> sp_queue := [] \<rparr>"
proof
  let ?s = "s\<lparr> tmq := (tmq s)\<lparr> s_count := 0 \<rparr> \<rparr>"
  have "tmq_list ((tmq s)\<lparr> s_count := 0 \<rparr>) = []"
    by (simp add: tmq_list_def)
  then show "obsw_inv ?s" "obsw_abs ?s = (obsw_abs s)\<lparr> sp_queue := [] \<rparr>"
    using assms by (simp_all add: obsw_inv_def obsw_abs_def queue_wf_def tmq_inv_def)
qed

lemma sp_step_state:
  assumes "obsw_inv s"
  obtains s' where "obsw_inv s'" and "obsw_abs s' = sp_step x (obsw_abs s)"
proof -
  obtain s' where "obsw_run s [x] s'"
    using obsw_run_total [OF assms] by blast
  then obtain s1 where "obsw_step s x s1"
    by (auto simp: obsw_run_simps)
  then show ?thesis
    using obsw_step_refines [OF assms] that by blast
qed

lemma sp_messages_fit: "obsw_inv s \<Longrightarrow> list_all tm_fits (sp_messages xs (obsw_abs s))"
proof (induction xs arbitrary: s)
  case (Cons x xs)
  obtain s1 where s1: "obsw_inv s1" "obsw_abs s1 = sp_step x (obsw_abs s)"
    using sp_step_state [OF Cons.prems] by blast
  obtain s2 where s2: "obsw_inv s2" "obsw_abs s2 = (obsw_abs s1)\<lparr> sp_queue := [] \<rparr>"
    using drained_state [OF s1(1)] by blast
  have "list_all tm_fits (sp_queue (obsw_abs s1))"
    using queue_fits [OF s1(1)] by (simp add: list_all_iff)
  then show ?case
    using Cons.IH [OF s2(1)] unfolding s2(2) s1(2) by (simp add: Let_def)
qed simp

section \<open>The telecommands of a session\<close>

lemma frames_prefix:
  "list_all is_frame fs \<Longrightarrow> list_all is_frame gs \<Longrightarrow> concat fs @ rest = concat gs \<Longrightarrow> \<exists>n. fs = take n gs"
proof (induction fs arbitrary: gs)
  case Nil
  then show ?case
    by (intro exI [of _ 0]) simp
next
  case (Cons f fs)
  show ?case
  proof (cases gs)
    case Nil
    then show ?thesis
      using Cons.prems by (simp add: is_frame_def)
  next
    case gs: (Cons g gs')
    have "f @ concat fs @ rest = g @ concat gs'"
      using Cons.prems(3) gs by simp
    then have "f = g"
      using Cons.prems(1,2) gs frame_prefix by (auto simp: append_eq_append_conv2)
    then obtain n where "fs = take n gs'"
      using Cons.IH [of gs'] Cons.prems gs by auto
    then show ?thesis
      using gs \<open>f = g\<close> by (intro exI [of _ "Suc n"]) simp
  qed
qed

text \<open>A packet the ground builds without tampering with its length is a frame.\<close>

lemma build_tc_frame:
  assumes "build_tc a = Inr bs" and "a_declared_length a = None" and "length (a_data a) \<le> 243"
  shows "is_frame bs"
proof -
  let ?e = "if a_valid_crc a then 0 else 1 :: u16"
  have bs: "bs = args_packet a @ be16 (crc16 (args_packet a) XOR ?e)"
    using assms(1) by (simp add: build_tc_eq split: if_splits)
  note t = args_trailer [of a ?e, folded bs]
  have "length_field a mod 65536 = int (length (a_data a)) + 6"
    using assms(2,3) by (simp add: length_field_def)
  then have "7 + unat (data_length (header_of bs)) = 13 + length (a_data a)"
    unfolding t(2) by (simp add: args_length_check)
  then have "announced bs = 13 + length (a_data a)"
    using total_length_header [of bs] by (simp add: ccsds_total_length_def)
  then show ?thesis
    using t(1) assms(3) by (simp add: is_frame_def)
qed

lemma built_frames:
  assumes "map build_tc calls = map Inr bss"
    and "list_all (\<lambda>a. a_declared_length a = None \<and> length (a_data a) \<le> 243) calls"
  shows "list_all is_frame bss"
  unfolding list_all_length
proof (intro allI impI)
  fix k
  assume k: "k < length bss"
  then have "build_tc (calls ! k) = Inr (bss ! k)" "k < length calls"
    using assms(1) by (metis length_map nth_map, metis length_map)
  then show "is_frame (bss ! k)"
    using assms(2) by (auto simp: list_all_length intro: build_tc_frame)
qed

section \<open>The packets of a session\<close>

text \<open>
  The frames of a session are the first ones sent; when nothing is missing, they are all of them,
  since what is left over is less than a frame.
\<close>

lemma session_uplink:
  assumes xs: "list_all driver_stimulus xs" "got = concat (map taken xs) @ left" "incomplete left"
    and frames: "list_all is_frame bss" and sent: "prefix got (concat bss)"
  obtains m where "telecommands xs = take m bss" and "got = concat bss \<longrightarrow> telecommands xs = bss"
proof -
  obtain rest where rest: "got @ rest = concat bss"
    using sent by (auto simp: prefix_def)
  then have "concat (telecommands xs) @ left @ rest = concat bss"
    using xs(2) by (simp add: concat_telecommands)
  then obtain m where m: "telecommands xs = take m bss"
    using frames_prefix [OF telecommands_frames [OF xs(1)] frames] by metis
  have "telecommands xs = bss" if "got = concat bss"
  proof -
    have "concat (telecommands xs) @ left = concat bss @ []"
      using that xs(2) by (simp add: concat_telecommands)
    then show ?thesis
      using frames_unique [OF telecommands_frames [OF xs(1)] frames xs(3), of "[]"] by (simp add: incomplete_short)
  qed
  then show ?thesis
    using that m by blast
qed

text \<open>Whole packets leave no room for a cut one.\<close>

lemma nothing_cut:
  assumes "wire (take n ms) @ c = wire ms" and "cut_packet c" and fits: "list_all tm_fits ms"
  shows "take n ms = ms"
proof (cases "drop n ms")
  case Nil
  then show ?thesis
    by simp
next
  case (Cons k ks)
  have "wire (take n ms) @ c = wire (take n ms @ drop n ms)"
    using assms(1) by simp
  then have "c = tm_encode k @ wire ks"
    unfolding wire_append Cons by simp
  moreover have "tm_fits k"
    using fits Cons by (metis in_set_dropD list.set_intros(1) list_all_iff)
  then have "whole_packet (tm_encode k)"
    by (rule whole_packet_encode)
  ultimately show ?thesis
    using assms(2) by (auto simp: cut_packet_def whole_packet_def announced_append)
qed

text \<open>
  What both sides have of a session. The unit processed the first telecommands, all of them once
  all octets arrived; the ground holds the first messages, all of them once it received all octets
  of a connection that took everything.
\<close>

lemma session_packets:
  assumes "link_ok net fd rx tx" and "obsw_inv s" and "rx w = []" and "tx w = []"
    and "serve_client net fd tick_ms s w = Some (Done (s', w'))"
    and "map build_tc calls = map Inr bss"
    and "list_all (\<lambda>a. a_declared_length a = None \<and> length (a_data a) \<le> 243) calls"
    and "prefix (rx w') (concat bss)"
    and "stream_ok gnet grx" and "grx v = []" and "gsw_drain gnet window l v = Some (r, l', v')"
    and "prefix (grx v') (tx w')"
  obtains xs m n where "list_all driver_stimulus xs" and "telecommands xs = take m bss"
    and "rx w' = concat bss \<longrightarrow> telecommands xs = bss"
    and "received l' = received l @ map packet_of (take n (sp_messages (Start # xs) (obsw_abs s)))"
    and "r \<in> {Inr (pending l @ map packet_of (take n (sp_messages (Start # xs) (obsw_abs s)))), Inl Os_error}"
    and "never_refuses net fd \<and> grx v' = tx w' \<longrightarrow>
      take n (sp_messages (Start # xs) (obsw_abs s)) = sp_messages (Start # xs) (obsw_abs s)"
proof -
  have "client_post (never_refuses net fd) rx tx s w (s', w')"
    using serve_client_safe [OF assms(1,2), of tick_ms w] assms(5) by (simp add: safe_def)
  then obtain xs left lost where xs: "list_all driver_stimulus xs" "rx w' = concat (map taken xs) @ left" "incomplete left"
      "tx w' @ lost = wire (sp_messages (Start # xs) (obsw_abs s))" "never_refuses net fd \<longrightarrow> lost = []"
    using assms(3,4) unfolding client_post_def sp_session_messages by auto
  let ?ms = "sp_messages (Start # xs) (obsw_abs s)"
  obtain m where up: "telecommands xs = take m bss" "rx w' = concat bss \<longrightarrow> telecommands xs = bss"
    using session_uplink [OF xs(1-3) built_frames [OF assms(6,7)] assms(8)] .
  have "prefix (grx v') (grx v @ wire ?ms)"
    using assms(10,12) xs(4) by (metis append_Nil prefixI prefix_order.order_trans)
  then obtain n cut where down: "grx v' = wire (take n ?ms) @ cut" "cut_packet cut"
      "received l' = received l @ map packet_of (take n ?ms)" "r \<in> {Inr (pending l @ map packet_of (take n ?ms)), Inl Os_error}"
    using gsw_drain_wire [OF assms(9,11) sp_messages_fit [OF assms(2)]] assms(10) by (metis append_Nil)
  have "take n ?ms = ?ms" if "never_refuses net fd" "grx v' = tx w'"
  proof (rule nothing_cut [OF _ down(2) sp_messages_fit [OF assms(2)]])
    show "wire (take n ?ms) @ cut = wire ?ms"
      using down(1) xs(4,5) that by simp
  qed
  then show ?thesis
    using that [OF xs(1) up down(3,4)] by blast
qed

text \<open>A connection test over this peer, and the ground draining the octets it was sent.\<close>

lemma scripted_session:
  obtains bs s' w' r l' v' where "build_tc (tc_call 17 1 []) = Inr bs"
    and "serve_client (string_peer bs) 4 100 power_on (0, []) = Some (Done (s', w'))"
    and "gsw_drain gsw_scripted 2 \<lparr> received = [], pending = [] \<rparr>
       \<lparr> to_give = [Received (snd w')], time_now = 0, log_in = [], log_out = [] \<rparr> = Some (r, l', v')"
    and "delivered bs w' = concat [bs]" and "prefix (log_in v') (snd w')"
    and "map build_tc [tc_call 17 1 []] = map Inr [bs]"
    and "list_all (\<lambda>a. a_declared_length a = None \<and> length (a_data a) \<le> 243) [tc_call 17 1 []]"
proof -
  obtain bs where bs: "build_tc (tc_call 17 1 []) = Inr bs"
    by (rule call_verdict [of "[]" 17 1]) simp_all
  note link = string_peer_ok(1) [of bs]
  obtain s' w' where flight: "serve_client (string_peer bs) 4 100 power_on (0, []) = Some (Done (s', w'))"
    using returns_safe_Done [OF serve_client_returns [OF link string_peer_ok(2) string_peer_finite obsw_inv_power_on]
        serve_client_safe [OF link obsw_inv_power_on]] by (metis surj_pair)
  let ?v = "\<lparr> to_give = [Received (snd w')], time_now = 0, log_in = [], log_out = [] \<rparr>"
  obtain r l' v' where ground: "gsw_drain gsw_scripted 2 \<lparr> received = [], pending = [] \<rparr> ?v = Some (r, l', v')"
    using draining.ends [OF gsw_scripted_stream gsw_scripted_limited] by (fastforce simp: gsw_drain_def split: prod.split)
  have "offered v' = snd w'"
    using scripted_offer.drain [OF ground] by (simp add: offered_def)
  then have "prefix (log_in v') (snd w')"
    unfolding offered_def by (metis prefixI)
  moreover have "delivered bs w' = concat [bs]"
    using serve_client_received [OF string_peer_closes flight] by simp
  moreover have "map build_tc [tc_call 17 1 []] = map Inr [bs]"
    "list_all (\<lambda>a. a_declared_length a = None \<and> length (a_data a) \<le> 243) [tc_call 17 1 []]"
    by (simp_all add: bs) (simp add: tc_call_def)
  ultimately show ?thesis
    using that bs flight ground by blast
qed

lemma fresh_links:
  "delivered bs (0, []) = []" "snd (0 :: nat, [] :: u8 list) = []"
  "log_in \<lparr> to_give = cs, time_now = 0, log_in = [], log_out = [] \<rparr> = []"
  by (simp_all add: delivered_def)

section \<open>Properties\<close>

text \<open>
  C4: From end to end, for packets that fit. The ground sends telecommands it built with any
  parameters and injected defects but two: the length field is left to the encoder, and there are
  at most 243 octets of application data, so that the packet fits the receive buffer of 256
  octets. (With a false length field or a longer packet the runner loses the framing of the
  stream, see oversized_packet_not_discarded.) The ground serves its side of the link by
  draining it; the on-board runner serves the same connection. Then the telecommands the
  application processed are the first ones the ground built, octet for octet, and all of them once
  everything sent has arrived; and the packets the ground holds are the first messages, decoded,
  that the specification of the flight software emits for exactly these telecommands and some
  minor cycles in between, all of them once the ground has received what was sent and the socket
  refused nothing. No packet is reported as damaged.
\<close>

theorem end_to_end_session:
  assumes "link_ok net fd rx tx" and "obsw_inv s" and "rx w = []" and "tx w = []"
    and "serve_client net fd tick_ms s w = Some (Done (s', w'))"
    and "map build_tc calls = map Inr bss"
    and "list_all (\<lambda>a. a_declared_length a = None \<and> length (a_data a) \<le> 243) calls"
    and "prefix (rx w') (concat bss)"
    and "stream_ok gnet grx" and "grx v = []" and "gsw_drain gnet window l v = Some (r, l', v')"
    and "prefix (grx v') (tx w')"
  shows "\<exists>xs m n. list_all driver_stimulus xs \<and> telecommands xs = take m bss \<and>
    (rx w' = concat bss \<longrightarrow> telecommands xs = bss) \<and>
    (let ms = take n (sp_messages (Start # xs) (obsw_abs s))
     in received l' = received l @ map packet_of ms \<and>
        r \<in> {Inr (pending l @ map packet_of ms), Inl Os_error} \<and>
        (never_refuses net fd \<and> grx v' = tx w' \<longrightarrow> ms = sp_messages (Start # xs) (obsw_abs s)))"
  using session_packets [OF assms] unfolding Let_def by metis

lemma end_to_end_session_witness:
  "\<exists>bs s' w' r l' v' xs n. build_tc (tc_call 17 1 []) = Inr bs \<and>
     serve_client (string_peer bs) 4 100 power_on (0, []) = Some (Done (s', w')) \<and>
     gsw_drain gsw_scripted 2 \<lparr> received = [], pending = [] \<rparr>
       \<lparr> to_give = [Received (snd w')], time_now = 0, log_in = [], log_out = [] \<rparr> = Some (r, l', v') \<and>
     telecommands xs = [bs] \<and>
     received l' = map packet_of (take n (sp_messages (Start # xs) (obsw_abs power_on)))"
proof -
  obtain bs s' w' r l' v' where bs: "build_tc (tc_call 17 1 []) = Inr bs"
    and flight: "serve_client (string_peer bs) 4 100 power_on (0, []) = Some (Done (s', w'))"
    and ground: "gsw_drain gsw_scripted 2 \<lparr> received = [], pending = [] \<rparr>
       \<lparr> to_give = [Received (snd w')], time_now = 0, log_in = [], log_out = [] \<rparr> = Some (r, l', v')"
    and up: "delivered bs w' = concat [bs]" and down: "prefix (log_in v') (snd w')"
    and calls: "map build_tc [tc_call 17 1 []] = map Inr [bs]"
      "list_all (\<lambda>a. a_declared_length a = None \<and> length (a_data a) \<le> 243) [tc_call 17 1 []]"
    by (rule scripted_session)
  have sent: "prefix (delivered bs w') (concat [bs])"
    unfolding up by simp
  from end_to_end_session [OF string_peer_ok(1) obsw_inv_power_on fresh_links(1,2) flight calls sent
      gsw_scripted_stream fresh_links(3) ground down]
  obtain xs n where "telecommands xs = [bs]"
    and "received l' = received \<lparr> received = [], pending = [] \<rparr> @
      map packet_of (take n (sp_messages (Start # xs) (obsw_abs power_on)))"
    unfolding up Let_def by blast
  moreover from this(2) have "received l' = map packet_of (take n (sp_messages (Start # xs) (obsw_abs power_on)))"
    by (simp only: obc_link.select_convs append_Nil)
  ultimately show ?thesis
    using bs flight ground by blast
qed

end
