(* ===== verification/Request_Answers.thy ===== *)
theory Request_Answers
  imports Ground_Session
begin

text \<open>
  The contract of request verification as the ground sees it: every telecommand that is rejected, or
  that asks for the report of its acceptance, is answered by one report, in the order in which the
  telecommands were sent, with its own request identifier and the reason. First for the messages the specification of the flight
  software emits in a session, then for the packets the ground decodes from the link.
\<close>

section \<open>Reports that answer a telecommand\<close>

text \<open>Subtype and source data of the (1,1) and (1,2) reports among some messages.\<close>

definition answers :: "tm_msg list \<Rightarrow> (u8 \<times> u8 list) list" where
  "answers ms = map (\<lambda>m. (m_subtype m, m_data m)) (filter (\<lambda>m. m_service m = 1 \<and> m_subtype m \<in> {1, 2}) ms)"

text \<open>What a packet must be answered with.\<close>

definition answer_of :: "u8 list \<Rightarrow> (u8 \<times> u8 list) list" where
  "answer_of bs =
     (if tc_verdict bs \<noteq> PUS_OK then [(2, be32 (raw_request bs) @ be16 (status_code (tc_verdict bs)))]
      else if ack_requested (tc_decode bs) PUS_ACK_ACCEPTANCE then [(1, be32 (tc_request (tc_decode bs)))]
      else [])"

lemma answers_append [simp]: "answers (ms @ ns) = answers ms @ answers ns"
  by (simp add: answers_def)

lemma answers_Nil [simp]: "answers [] = []"
  by (simp add: answers_def)

lemma answers_appends:
  assumes "appends S a b" and "1 \<notin> S"
  shows "answers (sp_queue b) = answers (sp_queue a)"
proof -
  obtain ms where "sp_queue b = sp_queue a @ ms" "\<forall>m \<in> set ms. m_service m \<in> S"
    using assms(1) by (rule appends_obtain)
  moreover from this(2) assms(2) have "answers ms = []"
    by (auto simp: answers_def filter_empty_conv)
  ultimately show ?thesis
    by simp
qed

text \<open>Neither the minor cycle, nor a service, nor the end of a telecommand answers anything.\<close>

interpretation minor_queue: minor_relation "appends {3, 5}"
  by unfold_locales (auto intro!: appends_event intro: appends_refl appends_trans appends_emit appends_same)

lemma answers_tick: "answers (sp_queue (sp_tick a)) = answers (sp_queue a)"
  using answers_appends [OF minor_queue.after_sample [of a]] by (simp add: sp_sample_def)

lemma answers_route: "answers (sp_queue (snd (sp_route c a))) = answers (sp_queue a)"
  using answers_appends [OF service_queue.route [of a c]] by simp

lemma answers_emit:
  "answers (sp_queue (snd (emit svc sub data a))) = answers (sp_queue a) @
     (if svc = 1 \<and> sub \<in> {1, 2} \<and> length (sp_queue a) < 16 then [(sub, data)] else [])"
  by (simp add: emit_def stamp_def answers_def Let_def)

lemma answers_event: "answers (sp_queue (snd (sp_event eid sev aux a))) = answers (sp_queue a)"
  by (simp add: sp_event_def answers_emit)

lemma answers_finish: "answers (sp_queue (sp_finish c st a)) = answers (sp_queue a)"
  by (simp add: sp_finish_def sp_completion_def sp_success_def sp_failure_report_def answers_emit answers_event)

text \<open>With room for one message a telecommand is answered once.\<close>

lemma answers_process:
  assumes "length (sp_queue a) < 16"
  shows "answers (sp_queue (snd (sp_process bs a))) = answers (sp_queue a) @ answer_of bs"
proof (cases "tc_verdict bs = PUS_OK")
  case True
  have "answers (sp_queue (snd (sp_execute (tc_decode bs) a))) =
      answers (sp_queue (snd (sp_acceptance (tc_decode bs) (a\<lparr> sp_accepted := sat_inc (sp_accepted a) \<rparr>))))"
    by (simp add: sp_execute_def Let_def split_beta answers_finish answers_route)
  then show ?thesis
    using True assms by (simp add: sp_process_def answer_of_def sp_acceptance_def sp_success_def answers_emit)
next
  case False
  then show ?thesis
    using assms
    by (simp add: sp_process_def answer_of_def sp_refuse_def sp_reject_def sp_failure_report_def Let_def
      answers_event answers_emit)
qed

text \<open>The queue is empty before every stimulus of a session, so every telecommand is answered.\<close>

lemma answers_stimuli:
  "list_all driver_stimulus xs \<Longrightarrow> sp_queue a = [] \<Longrightarrow>
   answers (sp_messages xs a) = concat (map answer_of (telecommands xs))"
proof (induction xs arbitrary: a)
  case Nil
  then show ?case
    by (simp add: telecommands_def)
next
  case (Cons x xs)
  have rest: "answers (sp_messages xs (b\<lparr> sp_queue := [] \<rparr>)) = concat (map answer_of (telecommands xs))" for b
    using Cons.prems(1) by (intro Cons.IH) simp_all
  show ?case
  proof (cases x)
    case Tick
    then show ?thesis
      using rest Cons.prems(2) by (simp add: Let_def sp_step_def answers_tick telecommands_def)
  next
    case (Telecommand bs)
    then have "bs \<noteq> []"
      using Cons.prems(1) by (auto simp: is_frame_def)
    then show ?thesis
      using rest Telecommand Cons.prems(2) by (simp add: Let_def sp_step_def answers_process telecommands_def)
  qed (use Cons.prems(1) in simp_all)
qed

lemma answers_session:
  assumes "list_all driver_stimulus xs"
  shows "answers (sp_messages (Start # xs) a) = concat (map answer_of (telecommands xs))"
  using answers_stimuli [OF assms, of "sp_boot\<lparr> sp_queue := [] \<rparr>"]
  by (simp add: Let_def sp_step_def sp_boot_def answers_event boot_spec_def)

section \<open>On the ground\<close>

text \<open>Subtype, request identifier and failure code, 0 without one, of the packets that answer.\<close>

definition ground_answers :: "tm_packet list \<Rightarrow> (int \<times> int \<times> int) list" where
  "ground_answers ps = map (\<lambda>p. (p_subtype p, p_request_id p, p_failure_code p))
     (filter (\<lambda>p. p_service p = 1 \<and> p_subtype p \<in> {1, 2}) ps)"

text \<open>What the ground must be told of a call of \<open>build_tc\<close> that gave \<open>bs\<close>.\<close>

definition expected_answer :: "tc_args \<Rightarrow> u8 list \<Rightarrow> (int \<times> int \<times> int) list" where
  "expected_answer a bs =
     (if injected_verdict a \<noteq> PUS_OK
      then [(2, from_bytes (take 4 bs), uint (status_code (injected_verdict a)))]
      else if odd (a_ack a) then [(1, from_bytes (take 4 bs), 0)] else [])"

definition read_answer :: "u8 \<times> u8 list \<Rightarrow> int \<times> int \<times> int" where
  "read_answer = (\<lambda>(sub, data). (uint sub, from_bytes (take 4 data), from_bytes (take 2 (drop 4 data))))"

lemma ground_answers_packets: "ground_answers (map packet_of ms) = map read_answer (answers ms)"
proof (induction ms)
  case (Cons m ms)
  have "uint (m_service m) = 1 \<longleftrightarrow> m_service m = 1" "uint (m_subtype m) \<in> {1, 2} \<longleftrightarrow> m_subtype m \<in> {1, 2}"
    by (simp_all add: word_uint_eq_iff)
  then show ?case
    using Cons.IH
    by (simp add: ground_answers_def answers_def read_answer_def packet_of_def p_request_id_def p_failure_code_def
      py_slice_def py_position_def)
qed (simp add: ground_answers_def answers_def)

lemma ack_bit: "((word_of_int k :: u8) AND 0x0F) AND 1 \<noteq> 0 \<longleftrightarrow> odd k"
proof -
  have "((word_of_int k :: u8) AND 0x0F) AND 1 = word_of_int k AND 1"
    by (simp add: and.assoc)
  moreover have "odd (word_of_int k :: u8) \<longleftrightarrow> odd k"
    by (simp add: bit_word_of_int_iff flip: bit_0)
  ultimately show ?thesis
    by (simp add: and_one_eq mod2_eq_if)
qed

lemma read_answer_of:
  assumes "build_tc a = Inr bs"
  shows "map read_answer (answer_of bs) = expected_answer a bs"
proof -
  have "0 \<le> a_source_id a \<and> a_source_id a < 65536"
    using assms by (auto simp: build_tc_eq split: if_splits)
  then obtain bs' where bs': "build_tc a = Inr bs'" "length bs' = 13 + length (a_data a)"
      "tc_verdict bs' = injected_verdict a" "tc_ack (tc_decode bs') = word_of_int (a_ack a) AND 0x0F"
      "tc_request (tc_decode bs') = of_be32 (bs' ! 0) (bs' ! 1) (bs' ! 2) (bs' ! 3)"
    using build_tc_judged by (metis telecommand.select_convs(1,6))
  have "bs' = bs"
    using assms bs'(1) by simp
  note bs = bs' [unfolded this]
  have req: "be32 (raw_request bs) = take 4 bs" "tc_request (tc_decode bs) = raw_request bs"
    using bs(2,5) request_octets [of bs] by (simp_all add: raw_request_def)
  have four: "length (take 4 bs) = 4"
    using bs(2) by simp
  have "ack_requested (tc_decode bs) 1 \<longleftrightarrow> odd (a_ack a)"
    unfolding ack_requested_def bs(4) by (rule ack_bit)
  then show ?thesis
    using four by (simp add: answer_of_def expected_answer_def read_answer_def bs(3) req)
qed

lemma read_answers:
  assumes "map build_tc calls = map Inr bss"
  shows "map read_answer (concat (map answer_of bss)) = concat (map2 expected_answer calls bss)"
  using assms
proof (induction calls arbitrary: bss)
  case (Cons a calls)
  then obtain bs bss' where "bss = bs # bss'" "build_tc a = Inr bs" "map build_tc calls = map Inr bss'"
    by (cases bss) auto
  then show ?case
    using Cons.IH [of bss'] by (simp add: read_answer_of)
qed simp

section \<open>Properties\<close>

text \<open>
  C9: The telecommands of a session are answered in order. The ground sends telecommands it built
  with any parameters and injected defects but a false length field, and with at most 243 octets
  of application data, so that each packet fits the receive buffer of 256 octets. Then the
  acceptance and rejection reports it holds are, in the order of sending and without any other in
  between, the answers to these telecommands, with the request identifier of each: (1,2) with the
  code of its first defect if it has one, (1,1) if it has none and asked for the report, and none
  if it has none and did not ask. The ground may hold only the first of them while octets are
  under way, and holds all of them once they have arrived.
\<close>

theorem requests_answered:
  assumes "link_ok net fd rx tx" and "obsw_inv s" and "rx w = []" and "tx w = []"
    and "serve_client net fd tick_ms s w = Some (Done (s', w'))"
    and "map build_tc calls = map Inr bss"
    and "list_all (\<lambda>a. a_declared_length a = None \<and> length (a_data a) \<le> 243) calls"
    and "prefix (rx w') (concat bss)"
    and "stream_ok gnet grx" and "grx v = []" and "gsw_drain gnet window l v = Some (r, l', v')"
    and "prefix (grx v') (tx w')"
  shows "\<exists>new. received l' = received l @ new \<and>
    prefix (ground_answers new) (concat (map2 expected_answer calls bss)) \<and>
    (rx w' = concat bss \<and> never_refuses net fd \<and> grx v' = tx w' \<longrightarrow>
      ground_answers new = concat (map2 expected_answer calls bss))"
proof -
  obtain xs m n where xs: "list_all driver_stimulus xs" "telecommands xs = take m bss"
      "rx w' = concat bss \<longrightarrow> telecommands xs = bss"
    and l': "received l' = received l @ map packet_of (take n (sp_messages (Start # xs) (obsw_abs s)))"
    and all: "never_refuses net fd \<and> grx v' = tx w' \<longrightarrow>
      take n (sp_messages (Start # xs) (obsw_abs s)) = sp_messages (Start # xs) (obsw_abs s)"
    by (rule session_packets [OF assms])
  let ?ms = "sp_messages (Start # xs) (obsw_abs s)"
  have ms: "answers ?ms = concat (map answer_of (telecommands xs))"
    using xs(1) by (rule answers_session)
  have "answers ?ms = answers (take n ?ms) @ answers (drop n ?ms)"
    by (simp flip: answers_append)
  moreover have "concat (map answer_of bss) = answers ?ms @ concat (map answer_of (drop m bss))"
    unfolding ms xs(2) by (simp flip: concat_append map_append)
  ultimately have "prefix (answers (take n ?ms)) (concat (map answer_of bss))"
    by simp
  then have "prefix (ground_answers (map packet_of (take n ?ms))) (concat (map2 expected_answer calls bss))"
    unfolding ground_answers_packets read_answers [OF assms(6), symmetric] by (rule map_mono_prefix)
  moreover have "ground_answers (map packet_of (take n ?ms)) = concat (map2 expected_answer calls bss)"
    if "rx w' = concat bss \<and> never_refuses net fd \<and> grx v' = tx w'"
    using that all xs(3) ms by (simp add: ground_answers_packets flip: read_answers [OF assms(6)])
  ultimately show ?thesis
    using l' by blast
qed

text \<open>A connection test on the link of \<open>end_to_end_session_witness\<close>: no other answer than its own.\<close>

lemma requests_answered_witness:
  "\<exists>bs s' w' r l' v'. build_tc (tc_call 17 1 []) = Inr bs \<and>
     serve_client (string_peer bs) 4 100 power_on (0, []) = Some (Done (s', w')) \<and>
     gsw_drain gsw_scripted 2 \<lparr> received = [], pending = [] \<rparr>
       \<lparr> to_give = [Received (snd w')], time_now = 0, log_in = [], log_out = [] \<rparr> = Some (r, l', v') \<and>
     prefix (ground_answers (received l')) [(1, from_bytes (take 4 bs), 0)]"
proof -
  obtain bs s' w' r l' v' where bs: "build_tc (tc_call 17 1 []) = Inr bs"
    and flight: "serve_client (string_peer bs) 4 100 power_on (0, []) = Some (Done (s', w'))"
    and ground: "gsw_drain gsw_scripted 2 \<lparr> received = [], pending = [] \<rparr>
       \<lparr> to_give = [Received (snd w')], time_now = 0, log_in = [], log_out = [] \<rparr> = Some (r, l', v')"
    and up: "delivered bs w' = concat [bs]" and down: "prefix (log_in v') (snd w')"
    and calls: "map build_tc [tc_call 17 1 []] = map Inr [bs]"
      "list_all (\<lambda>a. a_declared_length a = None \<and> length (a_data a) \<le> 243) [tc_call 17 1 []]"
    by (rule scripted_session)
  have sent: "prefix (delivered bs w') (concat [bs])"
    unfolding up by simp
  from requests_answered [OF string_peer_ok(1) obsw_inv_power_on fresh_links(1,2) flight calls sent
      gsw_scripted_stream fresh_links(3) ground down]
  obtain new where "received l' = received \<lparr> received = [], pending = [] \<rparr> @ new"
    and "prefix (ground_answers new) (concat (map2 expected_answer [tc_call 17 1 []] [bs]))"
    unfolding up Let_def by blast
  moreover have "concat (map2 expected_answer [tc_call 17 1 []] [bs]) = [(1, from_bytes (take 4 bs), 0)]"
    by (simp add: expected_answer_def injected_verdict_def length_field_def tc_call_def)
  ultimately have "prefix (ground_answers (received l')) [(1, from_bytes (take 4 bs), 0)]"
    by simp
  then show ?thesis
    using bs flight ground by blast
qed

end
