(* ===== verification/Spec2Isabelle.thy ===== *)
theory Spec2Isabelle
  imports Control_Events Loss_Reports Sim_Main Request_Answers
begin

text \<open>
  Verification of the on-board software in \<open>src/\<close>: a C implementation of the packet
  utilisation standard ECSS-E-ST-70-41C (PUS-C) for a small on-board computer with one
  thermistor and one survival heater; its host runner; and the ground segment of its functional
  tests, which speaks the same protocol from the other end of the connection.

  The program. Telecommand packets arrive in a buffer and go through \<open>obc_process_tc\<close>: the
  acceptance checks (\<open>pus_tc.c\<close>, over the CCSDS header of \<open>ccsds.c\<close> and the checksum of
  \<open>crc16.c\<close>), the request verification reports of service 1, and the dispatcher to the
  services 3 (housekeeping), 5 (events), 8 (functions) and 17 (connection test). Every 100 ms
  \<open>obc_tick\<close> samples the temperature, applies the thermal control law, sends the periodic
  housekeeping and reports lost telemetry. All telemetry is built by \<open>pus_tm.c\<close>, stamped with
  the time of the hardware abstraction layer, and waits in the ring buffer of \<open>tm_queue.c\<close>
  until the driver pops it. The modules keep their state in static variables and call back
  into \<open>obc_app.c\<close> to change the mode, the heater and the counters. On the host,
  \<open>sim/obc_sim.c\<close> serves one TCP connection at a time: it cuts the received octets into packets,
  runs the minor cycles and sends what waits in the queue. Its peer is the Python package
  \<open>tests/integration/gsw\<close>, written from the interface document: \<open>packets.py\<close> encodes telecommands
  and decodes telemetry, \<open>obc_db.py\<close> builds arguments and decodes housekeeping, \<open>client.py\<close> reads
  packets off the stream under a deadline and keeps those nobody asked for yet.

  Theories, each importing the ones it calls:

  \<^item> \<open>Prelude\<close>: fixed-width integers, checked memory, outcomes, list lemmas.
  \<^item> \<open>Pus_Types\<close>: \<open>include/pus/pus_types.h\<close> and \<open>include/pus/pus_config.h\<close>.
  \<^item> \<open>Pus_Bytes\<close>: the big-endian accessors of \<open>include/pus/pus_bytes.h\<close>.
  \<^item> \<open>Crc16\<close>: \<open>src/crc16.c\<close>, the bit-serial register of the standard as its reference, and
    the error detection theorems that follow from its linearity.
  \<^item> \<open>Ccsds\<close>: \<open>src/ccsds.c\<close>, the primary header and both round trips.
  \<^item> \<open>Hal_Host\<close>: \<open>src/hal_host.c\<close>, the host implementation of the time base, the thermistor
    and the heater line; exactness of the time code and its two deviations.
  \<^item> \<open>Tm_Queue\<close>: \<open>src/tm_queue.c\<close>, its ring invariant, and the locale \<open>packet_fifo\<close> with the
    bounded queue as its specification.
  \<^item> \<open>Pus_Tc\<close>: \<open>src/pus_tc.c\<close>; the verdict \<open>tc_verdict\<close> and the content \<open>tc_decode\<close> of an
    octet string.
  \<^item> \<open>Pus_Tm\<close>: \<open>src/pus_tm.c\<close> but for \<open>pus_tm_send\<close>; messages, \<open>tm_encode\<close>, \<open>tm_decode\<close>.
  \<^item> \<open>Obsw_State\<close>: the static variables of all modules as the record \<open>obsw\<close>, the abstract state
    \<open>spec\<close>, the abstraction \<open>obsw_abs\<close>, the structural invariant \<open>obsw_inv\<close>, the refinement
    relation \<open>refines\<close> with its composition rules, and \<open>pus_tm_send\<close>.
  \<^item> \<open>Svc01\<close>, \<open>Svc03\<close>, \<open>Svc05\<close>, \<open>Svc08\<close>, \<open>Svc17\<close>: the five \<open>src/svcNN_*.c\<close>, one
    specification \<open>sp_svcNN\<close> per handler.
  \<^item> \<open>Obc_Mode\<close>: mode, heater and thermal control law of \<open>src/obc_app.c\<close>; \<open>Obc_App\<close>: its
    initialisation, dispatcher, telecommand cycle and minor cycle, and the locale
    \<open>service_handler\<close> that the dispatcher relies on and every service interprets.
  \<^item> \<open>Relations\<close>: a hierarchy of locales for relations between abstract states that are kept by
    events, services, commands, the minor cycle or every step; its interpretations carry the
    invariants of the whole application.
  \<^item> \<open>Obsw_Step\<close>: the application as a state machine with the stimuli start, minor cycle,
    telecommand and downlink; reachable states; the simulation by \<open>sp_step\<close>.
  \<^item> \<open>Test_Support\<close>, \<open>Test_Readers\<close>: the telecommand encoder and the telemetry readers of
    \<open>tests/framework/test_support.c\<close>.
  \<^item> \<open>Posix_Link\<close>: the system calls under \<open>sim/obc_sim.c\<close> as the record \<open>posix\<close>, their documented
    contract \<open>link_ok\<close>, calls that may not return (\<open>run\<close>, with \<open>safe\<close> and \<open>returns\<close>), and the
    transfer loops \<open>read_exact\<close> and \<open>write_all\<close>.
  \<^item> \<open>Sim\<close>: the host runner above them: \<open>drain_downlink\<close>, \<open>receive_tc\<close>, \<open>serve_client\<close>; frames of a
    stream, and the specification \<open>sp_session\<close> of a session.
  \<^item> \<open>Session_End\<close>: what ends a session of the runner, and what a client that sends its packets and
    closes gets from it.
  \<^item> \<open>Sim_Main\<close>: \<open>main\<close> of \<open>sim/obc_sim.c\<close>, its options and the loop over the clients; the command lines
    on which it is undefined.
  \<^item> \<open>Reports\<close>: what one telecommand and one minor cycle add to the downlink; \<open>Control_Events\<close>: the
    events of the thermal control law among it, function by function of \<open>src/obc_app.c\<close>;
    \<open>Loss_Reports\<close>: what becomes of telemetry that was lost, from the packet to its report.
  \<^item> \<open>Gsw_Packets\<close>: \<open>gsw/packets.py\<close> over the Python values it uses; agreement of the two
    checksums, the flight parser on every packet the encoder builds, the decoder on every string.
  \<^item> \<open>Gsw_Db\<close>: \<open>gsw/obc_db.py\<close>; what a request built on the ground does on board, and what the
    ground decodes of a report built on board.
  \<^item> \<open>Gsw_Link\<close>: the class \<open>ObcLink\<close> of \<open>gsw/client.py\<close>, its contracts with the socket and the clock, and
    the locales \<open>link_relation\<close> (what every read keeps) and \<open>polling_loop\<close> (why a loop that reads
    until a deadline ends), interpreted by its three loops.
  \<^item> \<open>Ground_Session\<close>: both ends of a connection together; \<open>Request_Answers\<close>: the reports of service 1
    that the ground holds after a session, as the answers to the telecommands it sent.
  \<^item> This theory: the properties that span components.

  Correspondence. A C function is a definition of the same name. Its result is an \<open>option\<close>:
  \<open>None\<close> is undefined behaviour (an access outside an array, a read of an indeterminate octet, a
  NULL dereference), so every equation with \<open>Some\<close> is also a memory-safety statement. A function
  that uses static variables takes and returns the state. Error codes are values of
  \<open>pus_status_t\<close>. Integers have the width of the source and wrap, \<open>int16_t\<close> is read by \<open>sint\<close>;
  \<open>size_t\<close> is a natural number, because it only holds lengths of existing objects. A pointer
  argument is an option (\<open>None\<close> is NULL); a pointer into a buffer is the rest of that buffer.
  An output parameter is a value returned, indeterminate where the source leaves it so. The
  preprocessor constants are input abbreviations with the values of the headers. A Python integer
  is an \<open>int\<close> without a width, a \<open>bytes\<close> object the list of its octets, an exception the left
  injection of its class; a slice and an index are cut and fail as in Python. An object is a record
  of its attributes, given back updated. Names that two files share have the prefix \<open>gsw_\<close> on the
  ground side. Seconds are rational numbers there, so the rounding of floating-point sums is left
  out.

  Hypotheses about code outside the repository: \<open>link_ok\<close> (what \<open>recv\<close>, \<open>send\<close> and \<open>select\<close> do to
  the octets received and sent), \<open>interrupts_end\<close>, \<open>peer_finite\<close>, \<open>server_ok\<close>. The scripted socket
  of \<open>Posix_Link\<close> satisfies all of them. Two more describe a well-behaved client: \<open>never_refuses\<close>
  (it takes what is sent to it) and \<open>closes_after\<close> (its stream does not end before a given string);
  the peer \<open>string_peer\<close> of \<open>Session_End\<close> has both. For the ground segment: \<open>stream_ok\<close> (what \<open>recv\<close> returns
  is what the stream gains, at most as much as asked for), \<open>sendall_ok\<close>, and \<open>peer_limited\<close> (the peer has a
  limited number of octets left to send), all met by the scripted socket of \<open>Gsw_Link\<close>. Nothing is
  assumed of the clock.

  Lemma groups. For every module: definedness on all inputs of the right shape, the result on
  every branch, errors included, and the effect on the abstract state (\<open>refines\<close>). The
  specification is compositional: \<open>sp_process\<close> is built from \<open>sp_refuse\<close>, \<open>sp_route\<close>,
  \<open>sp_execute\<close> and \<open>sp_finish\<close>, \<open>sp_tick\<close> from the control law, the housekeeping cycle and the
  loss report; so the properties of this theory are about \<open>spec\<close> and reach the code by the
  simulation \<open>obsw_refines_specification\<close>. The ground segment is judged against the flight side:
  \<open>build_tc\<close> by the verdict of the flight parser, \<open>parse_tm\<close> by the messages of \<open>tm_encode\<close>, the
  argument builders by the effect of their telecommand; a session of both ends follows from the
  refinement of the host runner and the stream lemmas of the link. Liveness comes in two steps: a
  session only ends with the stream of its client, so all packets sent are processed, provided they
  fit the receive buffer; and the reports of every packet processed find room, since the queue is
  empty whenever a stimulus arrives. Outside a session the queue may be full: the properties of
  single operations then say how much room they need, or what is lost.

  Bounds. All loops of the flight code count to a bound known on entry, and the model recurses on
  the iterations left, so no fuel appears in it. The time and the counters wrap or saturate as in
  the source, and the theorems say at which value. The queue holds 16 packets of 256 octets.
  The loops of the host runner depend on the network and are partial functions with the values
  \<open>None\<close> (never returns) and \<open>Some Undefined\<close> (undefined behaviour) kept apart: safety excludes
  the second without assuming that the loop ends, and termination is proved from the hypotheses
  that signals do not interrupt a call for ever and, for a whole session, that the peer is finite.
  The loops of the link, those with a deadline and \<open>flush\<close> without one, are shown to end when the
  peer has a limited number of octets left to send, whatever the clock shows.

  Where the code deviates from its documents the property is stated for the rest and says so, and
  the deviation is a theorem of its own: sequence flags that are not looked at
  (\<open>pus_tc_parse_ignores_segmentation\<close>), events 7 and 8 (\<open>svc05_accepts_undefined_events\<close>), a time set one
  second late (\<open>hal_set_cuc_time_readback\<close>) and the wrap of the clock (\<open>hal_cuc_time_wraps\<close>), losses
  after the 65535th (\<open>overflow_saturated_silent\<close>), packets too long for the receive buffer
  (\<open>oversized_packet_not_discarded\<close>), numbers on the command line that do not fit an \<open>int\<close>
  (\<open>sim_main_undefined_iff\<close>).

  Not modelled: the test cases, unit and functional, with their fixtures, and the tooling, which
  hold no program logic. Each case is a call of the operations above on one input; the theorems
  state its expectation for all inputs, and the encoder, the readers and the link the cases are
  written with are modelled. Further left out are, of the host runner the log and terminal output; of the ground segment
  connecting and closing, and the texts of its exceptions; the hardware abstraction layer of
  a flight target, which the repository does not contain (the host implementation is modelled);
  concurrency, since the application runs to completion in one thread and the driver serialises
  the stimuli.
\<close>

section \<open>The application as a whole\<close>

text \<open>
  C1: From every state the application can reach, initialisation, a minor cycle, a received
  buffer with any content whatsoever and a downlink pop all run to completion without an access
  out of bounds, a read of an unwritten octet or a NULL dereference, and lead to a reachable
  state again.
\<close>

theorem obsw_memory_safe:
  assumes "reachable s"
  shows "(\<exists>s'. obc_init s = Some ((), s') \<and> reachable s') \<and>
    (\<exists>s'. obc_tick s = Some ((), s') \<and> reachable s') \<and>
    (\<forall>bs rest. \<exists>st s'. obc_process_tc (Some (octets bs @ rest)) (length bs) s = Some (st, s') \<and> reachable s') \<and>
    (\<exists>p q. queue_pop (tmq s) = Some (p, q) \<and> reachable (s\<lparr> tmq := q \<rparr>))"
proof (intro conjI allI)
  show "\<exists>s'. obc_init s = Some ((), s') \<and> reachable s'"
    using reachable_obtain_step [OF assms, of Start] by (auto simp: obsw_step_simps)
  show "\<exists>s'. obc_tick s = Some ((), s') \<and> reachable s'"
    using reachable_obtain_step [OF assms, of Tick] by (auto simp: obsw_step_simps)
  show "\<exists>p q. queue_pop (tmq s) = Some (p, q) \<and> reachable (s\<lparr> tmq := q \<rparr>)"
    by (rule reachable_obtain_step [OF assms, of Downlink]) (auto simp: obsw_step_simps)
  fix bs rest
  obtain st s' where "obc_process_tc (Some (octets bs @ rest)) (length bs) s = Some (st, s')"
    using refinesE [OF obc_process_tc_refines [OF reachable_inv [OF assms], of bs rest]] by blast
  then show "\<exists>st s'. obc_process_tc (Some (octets bs @ rest)) (length bs) s = Some (st, s') \<and> reachable s'"
    using reachable_step [OF assms obsw_step.telecommand] by blast
qed

lemma obsw_memory_safe_witness:
  "\<exists>st s'. obc_process_tc (Some (octets [0xFF, 0x00] @ [None])) (length [0xFF, 0x00 :: u8]) booted
     = Some (st, s') \<and> reachable s'"
  using obsw_memory_safe [OF booted(1)] by blast

text \<open>
  C2: The program refines its specification: whatever stimuli follow power-on, in whatever
  order, the abstraction of the state is what the specification computes from the boot state.
\<close>

theorem obsw_refines_specification:
  assumes "obsw_run power_on (Start # xs) s"
  shows "obsw_inv s \<and> obsw_abs s = fold sp_step xs sp_boot"
  using obsw_run_refines [OF assms obsw_inv_power_on] by (simp add: sp_step_def)

lemma obsw_refines_specification_witness:
  "\<exists>s. obsw_run power_on [Start, Tick, Telecommand [0x18, 0x0C], Downlink] s \<and>
     obsw_abs s = fold sp_step [Tick, Telecommand [0x18, 0x0C], Downlink] sp_boot"
proof -
  obtain s where "obsw_run power_on [Start, Tick, Telecommand [0x18, 0x0C], Downlink] s"
    using obsw_run_total [OF obsw_inv_power_on] by blast
  then show ?thesis
    using obsw_refines_specification by blast
qed

text \<open>
  C6: In every reachable state the heater line of the hardware and the heater state published in
  housekeeping agree, and in SAFE mode both are off.
\<close>

theorem heater_coherent:
  assumes "reachable s"
  shows "hal_get_heater (hal s) = heater_on (s_state s) \<and>
    (mode (s_state s) = OBC_MODE_SAFE \<longrightarrow> hal_get_heater (hal s) = PUS_FALSE)"
proof -
  have "s_heater_on (sp_hal (obsw_abs s)) = of_bool (sp_heater (obsw_abs s))"
    and "sp_mode (obsw_abs s) = Safe \<longrightarrow> \<not> sp_heater (obsw_abs s)"
    using reachable_coherent [OF assms] by (simp_all add: coherent_def)
  then show ?thesis
    using heater_abs [OF reachable_inv [OF assms]] unfolding sp_hal_abs sp_mode_Safe hal_get_heater_def
    by simp
qed

lemma heater_coherent_witness:
  "hal_get_heater (hal booted) = heater_on (s_state booted)"
  using heater_coherent [OF booted(1)] by simp

text \<open>
  C26: The data of every reachable state are what their C types and their use promise: the arrays
  have their declared lengths, the ring indices and the housekeeping phase are in bounds, the
  sequence count fits its 14 bits, the stored packet lengths fit a slot, every truth value is 0
  or 1, and the mode is one of its two enumerators.
\<close>

theorem reachable_well_typed:
  assumes "reachable s"
  shows "length (s_slots (tmq s)) = PUS_TM_QUEUE_DEPTH \<and>
    (\<forall>slot \<in> set (s_slots (tmq s)). length slot = PUS_MAX_PACKET_SIZE) \<and>
    length (s_lengths (tmq s)) = PUS_TM_QUEUE_DEPTH \<and>
    s_head (tmq s) < PUS_TM_QUEUE_DEPTH \<and> s_count (tmq s) \<le> PUS_TM_QUEUE_DEPTH \<and>
    (\<forall>i < s_count (tmq s).
       s_lengths (tmq s) ! ((s_head (tmq s) + i) mod PUS_TM_QUEUE_DEPTH) \<in> {1..PUS_MAX_PACKET_SIZE}) \<and>
    s_seq_count (tmgen s) < 2 ^ 14 \<and> length (s_msg_counter (tmgen s)) = 256 \<and>
    length (svc03_enabled s) = OBC_HK_MAX_STRUCTURES \<and> set (svc03_enabled s) \<subseteq> {PUS_FALSE, PUS_TRUE} \<and>
    svc03_phase s < OBC_HK_PERIOD_TICKS \<and>
    length (svc05_enabled s) = OBC_EVENT_MAX_IDS \<and> set (svc05_enabled s) \<subseteq> {PUS_FALSE, PUS_TRUE} \<and>
    mode (s_state s) \<in> {OBC_MODE_SAFE, OBC_MODE_NOMINAL} \<and>
    heater_on (s_state s) \<in> {PUS_FALSE, PUS_TRUE} \<and> s_heater_on (hal s) = heater_on (s_state s) \<and>
    s_alarm_latched s \<in> {PUS_FALSE, PUS_TRUE}"
proof -
  have inv: "obsw_inv s"
    using assms by (rule reachable_inv)
  have "s_heater_on (hal s) = of_bool (heater_on (s_state s) \<noteq> 0)"
    using reachable_coherent [OF assms] by (simp add: coherent_def obsw_abs_def)
  moreover have "heater_on (s_state s) \<in> {0, 1}"
    using inv by (simp add: obsw_inv_def)
  ultimately have line: "s_heater_on (hal s) = heater_on (s_state s)"
    by auto
  have "\<forall>i < s_count (tmq s). s_lengths (tmq s) ! ((s_head (tmq s) + i) mod 16) \<in> {1..256}"
    using inv by (simp add: obsw_inv_def tmq_inv_def live_def Suc_le_eq)
  then show ?thesis
    using inv line
    by (simp add: obsw_inv_def tmq_inv_def slot_ok_def list_all_iff tm_inv_def flags_ok_def word_less_nat_alt)
qed

lemma reachable_well_typed_witness:
  "length (s_msg_counter (tmgen booted)) = 256 \<and> svc03_phase booted < 10"
  using reachable_well_typed [OF booted(1)] by simp

text \<open>
  C3: A packet that fails the acceptance checks changes nothing but telemetry and its own
  bookkeeping: the rejected counter goes up by one, saturating, and the last failure code is the
  reason. Mode, heater, time, housekeeping and event configuration are untouched.
\<close>

theorem rejected_telecommand_harmless:
  assumes "reachable s" and "tc_verdict bs \<noteq> PUS_OK"
  shows "\<exists>s'. obc_process_tc (Some (octets bs @ rest)) (length bs) s = Some (tc_verdict bs, s') \<and>
    (let a = obsw_abs s; b = obsw_abs s'
     in b = a\<lparr> sp_rejected := sat_inc (sp_rejected a), sp_failure := status_code (tc_verdict bs),
       sp_queue := sp_queue b, sp_drops := sp_drops b, sp_seq := sp_seq b, sp_ctr := sp_ctr b \<rparr>)"
proof -
  obtain s' where "obc_process_tc (Some (octets bs @ rest)) (length bs) s = Some (tc_verdict bs, s')"
      "obsw_abs s' = sp_refuse bs (tc_verdict bs) (obsw_abs s)"
    using refinesE [OF obc_process_tc_rejected [OF reachable_inv [OF assms(1)] assms(2), of rest]] by auto
  moreover have "telemetry_only ((obsw_abs s)\<lparr> sp_rejected := sat_inc (sp_rejected (obsw_abs s)),
      sp_failure := status_code (tc_verdict bs) \<rparr>) (sp_refuse bs (tc_verdict bs) (obsw_abs s))"
    by (rule sp_refuse_frame)
  ultimately show ?thesis
    unfolding telemetry_only_def Let_def by metis
qed

lemma rejected_telecommand_harmless_witness:
  "\<exists>s'. obc_process_tc (Some (octets [] @ [])) (length ([] :: u8 list)) booted = Some (PUS_ERR_TRUNCATED, s') \<and>
     sp_mode (obsw_abs s') = Safe"
proof -
  have v: "tc_verdict [] = PUS_ERR_TRUNCATED"
    by (simp add: tc_verdict_def)
  obtain s' where "obc_process_tc (Some (octets [] @ [])) (length ([] :: u8 list)) booted
        = Some (PUS_ERR_TRUNCATED, s')"
    and b: "obsw_abs s' = (obsw_abs booted)\<lparr> sp_rejected := sat_inc (sp_rejected (obsw_abs booted)),
      sp_failure := status_code PUS_ERR_TRUNCATED, sp_queue := sp_queue (obsw_abs s'),
      sp_drops := sp_drops (obsw_abs s'), sp_seq := sp_seq (obsw_abs s'), sp_ctr := sp_ctr (obsw_abs s') \<rparr>"
    using rejected_telecommand_harmless [OF booted(1), of "[]" "[]"] unfolding v Let_def by auto
  moreover have "sp_mode (obsw_abs s') = Safe"
    using arg_cong [OF b, of sp_mode] by (simp add: booted sp_boot_eq boot_spec_def)
  ultimately show ?thesis
    by blast
qed

text \<open>
  C12: An accepted packet damaged inside a window of at most 16 bits, anywhere, is rejected for
  its length or its checksum, and has no effect on the mode, the heater or the configuration.
\<close>

theorem damaged_telecommand_rejected:
  assumes "reachable s" and "tc_verdict as = PUS_OK" and "length bs = length as"
    and "message_bits as = pre @ u @ post" and "message_bits bs = pre @ v @ post"
    and "length u = length v" and "length u \<le> 16" and "u \<noteq> v"
  shows "\<exists>st s'. obc_process_tc (Some (octets bs @ rest)) (length bs) s = Some (st, s') \<and>
    st \<in> {PUS_ERR_BAD_LENGTH, PUS_ERR_BAD_CRC} \<and>
    sp_mode (obsw_abs s') = sp_mode (obsw_abs s) \<and> hal s' = hal s \<and>
    sp_hk (obsw_abs s') = sp_hk (obsw_abs s) \<and> sp_ev (obsw_abs s') = sp_ev (obsw_abs s)"
proof -
  have v: "tc_verdict bs \<in> {PUS_ERR_BAD_LENGTH, PUS_ERR_BAD_CRC}"
    by (rule tc_verdict_burst [OF assms(2-8)])
  then have "tc_verdict bs \<noteq> PUS_OK"
    by auto
  then obtain s' where s': "obc_process_tc (Some (octets bs @ rest)) (length bs) s = Some (tc_verdict bs, s')"
      "obsw_abs s' = sp_refuse bs (tc_verdict bs) (obsw_abs s)"
    using refinesE [OF obc_process_tc_rejected [OF reachable_inv [OF assms(1)], of bs rest]] by auto
  have "telemetry_only ((obsw_abs s)\<lparr> sp_rejected := sat_inc (sp_rejected (obsw_abs s)),
      sp_failure := status_code (tc_verdict bs) \<rparr>) (obsw_abs s')"
    unfolding s'(2) by (rule sp_refuse_frame)
  then have "sp_mode (obsw_abs s') = sp_mode (obsw_abs s) \<and> sp_hal (obsw_abs s') = sp_hal (obsw_abs s) \<and>
      sp_hk (obsw_abs s') = sp_hk (obsw_abs s) \<and> sp_ev (obsw_abs s') = sp_ev (obsw_abs s)"
    unfolding telemetry_only_def by (cases "obsw_abs s"; cases "obsw_abs s'") simp
  then show ?thesis
    using s'(1) v by (auto simp: sp_hal_abs)
qed


lemma damaged_telecommand_rejected_witness:
  "let bs = [0x18, 0x0C, 0xC0, 0x01, 0x00, 0x06, 0x29, 0x08, 0x01, 0x01, 0x01, 0x37, 0x60]
   in \<exists>st s'. obc_process_tc (Some (octets bs @ [])) (length bs) booted = Some (st, s') \<and>
     st \<in> {PUS_ERR_BAD_LENGTH, PUS_ERR_BAD_CRC}"
proof -
  let ?as = "[0x18, 0x0C, 0xC0, 0x01, 0x00, 0x06, 0x29, 0x11, 0x01, 0x01, 0x01, 0x37, 0x60] :: u8 list"
  let ?bs = "[0x18, 0x0C, 0xC0, 0x01, 0x00, 0x06, 0x29, 0x08, 0x01, 0x01, 0x01, 0x37, 0x60] :: u8 list"
  let ?pre = "message_bits [0x18, 0x0C, 0xC0, 0x01, 0x00, 0x06, 0x29]"
  let ?post = "message_bits [0x01, 0x01, 0x01, 0x37, 0x60]"
  have ok: "tc_verdict ?as = PUS_OK" and "octet_bits 0x11 \<noteq> octet_bits 0x08"
    by code_simp+
  moreover have "message_bits ?as = ?pre @ octet_bits 0x11 @ ?post" "message_bits ?bs = ?pre @ octet_bits 0x08 @ ?post"
    by (simp_all add: message_bits_def)
  moreover have "length ?bs = length ?as" "length (octet_bits 0x11) = length (octet_bits 0x08)"
      "length (octet_bits 0x11) \<le> 16"
    by simp_all
  ultimately show ?thesis
    unfolding Let_def using damaged_telecommand_rejected [OF booted(1) ok] by blast
qed


section \<open>Telecommands\<close>

text \<open>
  C8: The reports of an accepted telecommand that asks for both acknowledgements leave in order,
  as long as the queue does not fill up: the acceptance report, whatever the service produces
  (never a service 1 report), the completion report, success or failure as the handler returned,
  and after a failure exactly one rejection event with the code of the failure while that event
  is enabled, otherwise nothing more. Both reports carry the request identifier of the packet.
\<close>

theorem telecommand_report_order:
  assumes "reachable s" and "tc_verdict bs = PUS_OK"
    and "ack_requested (tc_decode bs) PUS_ACK_ACCEPTANCE" and "ack_requested (tc_decode bs) PUS_ACK_COMPLETION"
    and "obc_process_tc (Some (octets bs @ rest)) (length bs) s = Some (st, s')" and "s_count (tmq s') < 16"
  shows "\<exists>first ms fin evs. sp_queue (obsw_abs s') = sp_queue (obsw_abs s) @ [first] @ ms @ [fin] @ evs \<and>
    m_service first = 1 \<and> m_subtype first = 1 \<and> m_data first = be32 (tc_request (tc_decode bs)) \<and>
    (\<forall>m \<in> set ms. m_service m \<in> {3, 5, 17}) \<and>
    m_service fin = 1 \<and> m_subtype fin = (if st = PUS_OK then 7 else 8) \<and>
    m_data fin = be32 (tc_request (tc_decode bs)) @ (if st = PUS_OK then [] else be16 (status_code st)) \<and>
    length evs = of_bool (st \<noteq> PUS_OK \<and> svc05_is_enabled OBC_EVT_TC_REJECTED s = Some PUS_TRUE) \<and>
    (\<forall>m \<in> set evs. m_service m = 5 \<and> m_subtype m = 2 \<and> m_data m = be16 3 @ be16 (status_code st))"
proof -
  have "refines (Some (st, s')) (sp_execute (tc_decode bs) (obsw_abs s))"
    using obc_process_tc_accepted [OF reachable_inv [OF assms(1)] assms(2), of rest] unfolding assms(5) .
  then have ex: "sp_execute (tc_decode bs) (obsw_abs s) = (st, obsw_abs s')"
    by (simp add: refines_def)
  have ev: "svc05_is_enabled OBC_EVT_TC_REJECTED s = Some PUS_TRUE \<longleftrightarrow> sp_ev (obsw_abs s) 3"
    by (simp add: svc05_is_enabled_abs [OF reachable_inv [OF assms(1)]])
  have "length (sp_queue (snd (sp_execute (tc_decode bs) (obsw_abs s)))) < 16"
    using assms(6) unfolding ex by (simp add: obsw_abs_def)
  from sp_execute_reports [OF assms(3,4) this] show ?thesis
    unfolding ex fst_conv snd_conv final_report_def rejection_event_def list_all_iff ev by blast
qed

lemma telecommand_report_order_witness:
  "\<exists>s' first ms fin. obsw_do (Telecommand (tc_encode 9 17 1 [])) booted = Some s' \<and>
     sp_queue (obsw_abs s') = sp_queue (obsw_abs booted) @ [first] @ ms @ [fin] \<and>
     m_subtype first = 1 \<and> m_subtype fin = 7"
proof -
  let ?bs = "tc_encode 9 17 1 []"
  have ok: "tc_verdict ?bs = PUS_OK"
    by (rule tc_verdict_encode) simp
  have c: "tc_decode ?bs = \<lparr> tc_ack = 9, tc_service = 17, tc_subtype = 1, tc_source = 0x0101, tc_app = [],
      tc_request = raw_request ?bs \<rparr>"
    by (simp add: tc_decode_encode)
  have acks: "ack_requested (tc_decode ?bs) 1" "ack_requested (tc_decode ?bs) 8"
    by (simp_all add: c ack_requested_def)
  have spec: "fst (sp_execute (tc_decode ?bs) sp_boot) = PUS_OK"
      "length (sp_queue (snd (sp_execute (tc_decode ?bs) sp_boot))) = 4"
    using acks by (simp_all add: sp_execute_def sp_acceptance_def sp_success_def sp_route_def sp_svc17_def
        c sp_finish_def sp_completion_def sp_boot_eq boot_spec_def emit_def Let_def)
  obtain s' where s': "obc_process_tc (Some (octets ?bs @ [])) (length ?bs) booted = Some (PUS_OK, s')"
      "obsw_abs s' = snd (sp_execute (tc_decode ?bs) sp_boot)"
    using refinesE [OF obc_process_tc_accepted [OF booted(2) ok, of "[]"]] spec(1) unfolding booted(3) by metis
  have "s_count (tmq s') < 16"
    using spec(2) unfolding s'(2) [symmetric] by (simp add: obsw_abs_def)
  from telecommand_report_order [OF booted(1) ok acks s'(1) this] show ?thesis
    using s'(1) by (auto simp: obsw_do_def)
qed

text \<open>
  Exactly one of the two telecommand counters moves: a rejected packet counts as rejected,
  an accepted one as accepted, both saturating at 65535, unless the accepted telecommand itself
  clears the counters.
\<close>

theorem telecommand_counted:
  assumes "reachable s" and "obsw_step s (Telecommand bs) s'"
  shows "if tc_verdict bs \<noteq> PUS_OK
    then unat (tc_rejected (s_state s')) = min 65535 (unat (tc_rejected (s_state s)) + 1) \<and>
      tc_accepted (s_state s') = tc_accepted (s_state s)
    else unat (tc_accepted (s_state s')) = min 65535 (unat (tc_accepted (s_state s)) + 1) \<and>
      tc_rejected (s_state s') = tc_rejected (s_state s) \<or>
      tc_accepted (s_state s') = 0 \<and> tc_rejected (s_state s') = 0"
proof -
  let ?a = "obsw_abs s" and ?b = "obsw_abs s'"
  have step: "?b = snd (sp_process bs ?a)"
    using obsw_step_refines [OF reachable_inv [OF assms(1)] assms(2)] by (simp add: sp_step_def)
  have f: "sp_accepted (obsw_abs x) = tc_accepted (s_state x)" "sp_rejected (obsw_abs x) = tc_rejected (s_state x)" for x
    by (simp_all add: obsw_abs_def)
  show ?thesis
  proof (cases "tc_verdict bs = PUS_OK")
    case False
    then have "telemetry_only (?a\<lparr> sp_rejected := sat_inc (sp_rejected ?a),
        sp_failure := status_code (tc_verdict bs) \<rparr>) ?b"
      using sp_refuse_frame [where a = ?a and bs = bs] step by (simp add: sp_process_def)
    then have "sp_rejected ?b = sat_inc (sp_rejected ?a) \<and> sp_accepted ?b = sp_accepted ?a"
      unfolding telemetry_only_def by (cases ?a; cases ?b) simp
    then show ?thesis
      using False by (simp add: f unat_sat_inc)
  next
    case True
    let ?a1 = "snd (sp_acceptance (tc_decode bs) (?a\<lparr> sp_accepted := sat_inc (sp_accepted ?a) \<rparr>))"
    have b: "?b = sp_finish (tc_decode bs) (fst (sp_route (tc_decode bs) ?a1)) (snd (sp_route (tc_decode bs) ?a1))"
      using step True by (simp add: sp_process_def sp_execute_def Let_def split_beta)
    have "sp_accepted ?a1 = sat_inc (sp_accepted ?a) \<and> sp_rejected ?a1 = sp_rejected ?a"
      by (simp add: sp_acceptance_def sp_success_def)
    moreover have "sp_accepted (sp_finish c st d) = sp_accepted d \<and> sp_rejected (sp_finish c st d) = sp_rejected d" for c st d
      by (simp add: sp_finish_def sp_completion_def sp_success_def sp_failure_report_def)
    moreover have "counters_kept ?a1 (snd (sp_route (tc_decode bs) ?a1))"
      by (rule counters.route)
    ultimately show ?thesis
      using True unfolding counters_kept_def b [symmetric] by (auto simp: b f unat_sat_inc simp flip: f)
  qed
qed

lemma telecommand_counted_witness:
  "\<exists>s'. obsw_step booted (Telecommand []) s' \<and> unat (tc_rejected (s_state s')) = 1"
proof -
  obtain s' where s': "obsw_step booted (Telecommand []) s'"
    using obsw_step_total [OF booted(2)] by blast
  have "tc_rejected (s_state booted) = sp_rejected (obsw_abs booted)"
    by (simp add: obsw_abs_def)
  then have "tc_rejected (s_state booted) = 0"
    by (simp add: booted sp_boot_eq boot_spec_def)
  then have "unat (tc_rejected (s_state s')) = 1"
    using telecommand_counted [OF booted(1) s'] by (simp add: tc_verdict_def split: if_splits)
  with s' show ?thesis
    by blast
qed

text \<open>
  No telecommand, accepted or not, disturbs what the minor cycle owns: uptime, housekeeping
  phase, sampled temperature, alarm latch, loss bookkeeping and the tick count stay as they are.
\<close>

theorem telecommand_keeps_cycle:
  assumes "reachable s" and "obsw_step s (Telecommand bs) s'"
  shows "uptime_ticks (s_state s') = uptime_ticks (s_state s) \<and> svc03_phase s' = svc03_phase s \<and>
    temperature_dc (s_state s') = temperature_dc (s_state s) \<and>
    (s_alarm_latched s' \<noteq> 0 \<longleftrightarrow> s_alarm_latched s \<noteq> 0) \<and> s_last_overflow s' = s_last_overflow s \<and>
    s_ticks (hal s') = s_ticks (hal s)"
proof -
  have "obsw_abs s' = snd (sp_process bs (obsw_abs s))"
    using obsw_step_refines [OF reachable_inv [OF assms(1)] assms(2)] by (simp add: sp_step_def)
  then have "cycle_kept (obsw_abs s) (obsw_abs s')"
    using ground.process by simp
  then show ?thesis
    by (simp add: cycle_kept_def obsw_abs_def word_unat_eq_iff)
qed

lemma telecommand_keeps_cycle_witness:
  "\<exists>s'. obsw_step booted (Telecommand (tc_encode 9 8 1 [1, 1])) s' \<and> svc03_phase s' = svc03_phase booted"
proof -
  obtain s' where s': "obsw_step booted (Telecommand (tc_encode 9 8 1 [1, 1])) s'"
    using obsw_step_total [OF booted(2)] by blast
  then show ?thesis
    using telecommand_keeps_cycle [OF booted(1) s'] by blast
qed

text \<open>
  Round trip: a telecommand encoded by the test support encoder into a buffer is accepted by
  the parser, which reads back the acknowledgement flags, the service, the subtype, the source
  and the application data.
\<close>

theorem telecommand_roundtrip:
  assumes "13 + length app \<le> length buf" and "length app \<le> 65529"
  shows "\<exists>n p tc. ts_build_tc buf (length buf) svc sub ack (Some (octets app)) (length app) = Some (n, p) \<and>
    pus_tc_parse (Some p) n (Some None) = Some (PUS_OK, Some (Some tc)) \<and>
    ack_flags tc = ack AND 0x0F \<and> service_type tc = svc \<and> service_subtype tc = sub \<and>
    source_id tc = 0x0101 \<and> tc_app (tc_abs tc) = app \<and> tc_ok tc"
proof -
  let ?bs = "tc_encode ack svc sub app"
  let ?rest = "drop (13 + length app) buf"
  have build: "ts_build_tc buf (length buf) svc sub ack (Some (octets app)) (length app)
      = Some (length ?bs, octets ?bs @ ?rest)"
    using ts_build_tc_in [OF holds_octets, of "length buf" buf app svc sub ack] assms(1)
    by (simp add: overwrite_0)
  have ok: "tc_verdict ?bs = PUS_OK"
    using assms(2) by (rule tc_verdict_encode)
  have parse: "pus_tc_parse (Some (octets ?bs @ ?rest)) (length ?bs) (Some None)
      = Some (PUS_OK, Some (Some (tc_image ?bs ?rest)))"
    unfolding pus_tc_parse_octets ok by simp
  have abs: "tc_abs (tc_image ?bs ?rest) = tc_decode ?bs" and safe: "tc_ok (tc_image ?bs ?rest)"
    using tc_verdict_OK_length [OF ok] by (rule tc_abs_image, rule tc_ok_image)
  have "ack_flags t = tc_ack (tc_abs t)" "service_type t = tc_service (tc_abs t)"
      "service_subtype t = tc_subtype (tc_abs t)" "source_id t = tc_source (tc_abs t)" for t
    by (simp_all add: tc_abs_def)
  then show ?thesis
    using build parse safe by (auto simp: abs tc_decode_encode)
qed

lemma telecommand_roundtrip_witness:
  "\<exists>n p tc. ts_build_tc (replicate 256 None) 256 8 1 9 (Some (octets [1, 1])) (length [1, 1 :: u8]) = Some (n, p) \<and>
    pus_tc_parse (Some p) n (Some None) = Some (PUS_OK, Some (Some tc)) \<and> tc_app (tc_abs tc) = [1, 1]"
  using telecommand_roundtrip [of "[1, 1]" "replicate 256 None" 8 1 9] by auto


section \<open>The minor cycle\<close>

text \<open>
  C5: The control law of one minor cycle, from any reachable state, on the temperature sampled in
  that cycle: NOMINAL mode survives exactly below 40.0 degC; the heater is on afterwards exactly
  in NOMINAL mode, below 25.0 degC, when the temperature is at most 5.0 degC or the heater was on
  already, so that inside the band between the two thresholds nothing switches; in SAFE mode
  nothing heats; the alarm latch is set from an alarm until the temperature is below 25.0 degC.
\<close>

theorem thermal_control_law:
  assumes "reachable s" and "obsw_step s Tick s'"
  shows "let t = sint (hal_read_temperature (hal s)); nominal = (mode (s_state s) = OBC_MODE_NOMINAL) in
    mode (s_state s') = (if nominal \<and> t < 400 then OBC_MODE_NOMINAL else OBC_MODE_SAFE) \<and>
    hal_get_heater (hal s') = of_bool (nominal \<and> t < 250 \<and> (t \<le> 50 \<or> heater_on (s_state s) = PUS_TRUE)) \<and>
    (s_alarm_latched s' \<noteq> 0 \<longleftrightarrow> 250 \<le> t \<and> (s_alarm_latched s \<noteq> 0 \<or> nominal \<and> 400 \<le> t))"
proof -
  let ?a = "obsw_abs s" and ?b = "obsw_abs s'"
  have inv: "obsw_inv s" and inv': "obsw_inv s'"
    using assms reachable_inv reachable_step by blast+
  have b: "?b = sp_tick ?a"
    using obsw_step_refines [OF inv assms(2)] by (simp add: sp_step_def)
  have safe: "sp_mode ?a = Safe \<longrightarrow> \<not> sp_heater ?a"
    using reachable_coherent [OF assms(1)] by (simp add: coherent_def)
  have hal': "hal_get_heater (hal s') = of_bool (sp_heater ?b)"
    using reachable_coherent [OF reachable_step [OF assms]] by (simp add: coherent_def hal_get_heater_def sp_hal_abs)
  have nominal: "sp_mode ?a = Nominal \<longleftrightarrow> mode (s_state s) = 1"
    using mode_abs [OF inv] by (cases "sp_mode ?a") (simp_all add: mode_code_def)
  have heater: "sp_heater ?a \<longleftrightarrow> heater_on (s_state s) = 1"
    using heater_abs [OF inv] by simp
  let ?t = "sint (hal_read_temperature (hal s))"
  have t: "sp_temp (sp_sample ?a) = hal_read_temperature (hal s)"
    by (simp add: hal_read_temperature_def sp_hal_abs)
  have "sp_mode ?b = (if sp_mode ?a = Nominal \<and> ?t < 400 then Nominal else Safe)"
    using sp_thermal_mode [of "sp_sample ?a"] unfolding b sp_tick_fields t by simp
  then have "mode (s_state s') = (if sp_mode ?a = Nominal \<and> ?t < 400 then 1 else 0)"
    unfolding mode_abs [OF inv'] by (simp add: mode_code_def)
  moreover have "sp_heater ?b \<longleftrightarrow> sp_mode ?a = Nominal \<and> ?t < 250 \<and> (?t \<le> 50 \<or> sp_heater ?a)"
    using sp_thermal_heater [of "sp_sample ?a"] safe unfolding b sp_tick_fields t by simp
  moreover have "s_alarm_latched s' \<noteq> 0 \<longleftrightarrow>
      250 \<le> ?t \<and> (s_alarm_latched s \<noteq> 0 \<or> sp_mode ?a = Nominal \<and> 400 \<le> ?t)"
    using sp_thermal_alarm [of "sp_sample ?a"] unfolding alarm_abs [symmetric] b sp_tick_fields t by simp
  ultimately show ?thesis
    unfolding Let_def hal' nominal heater by simp
qed

lemma thermal_control_law_witness:
  "\<exists>s'. obsw_step booted Tick s' \<and> mode (s_state s') = OBC_MODE_SAFE \<and> hal_get_heater (hal s') = 0"
proof -
  obtain s' where s': "obsw_step booted Tick s'"
    using obsw_step_total [OF booted(2)] by blast
  have "mode (s_state booted) = 0"
    using sp_mode_Safe [of booted] by (simp add: booted sp_boot_eq boot_spec_def)
  then show ?thesis
    using thermal_control_law [OF booted(1) s'] s' by (auto simp: Let_def)
qed

text \<open>
  C35: One alarm per excursion: while the alarm is latched, no step other than a restart adds an
  over-temperature report to the queue or clears the latch, as long as each minor cycle samples
  a temperature of at least 25.0 degC.
\<close>

theorem alarm_reported_once:
  assumes "reachable s" and "s_alarm_latched s \<noteq> 0" and "obsw_step s x s'" and "x \<noteq> Start"
    and "x = Tick \<longrightarrow> 250 \<le> sint (hal_read_temperature (hal s))"
  shows "s_alarm_latched s' \<noteq> 0 \<and>
    length (filter alarm_msg (sp_queue (obsw_abs s'))) \<le> length (filter alarm_msg (sp_queue (obsw_abs s)))"
proof -
  let ?a = "obsw_abs s" and ?b = "obsw_abs s'"
  have b: "?b = sp_step x ?a"
    using obsw_step_refines [OF reachable_inv [OF assms(1)] assms(3)] by simp
  have a: "sp_alarm ?a"
    using assms(2) by (simp add: alarm_abs)
  then have hot: "250 \<le> sint (sp_temp ?a)"
    using reachable_alarm [OF assms(1)] by simp
  have "sp_alarm ?b \<and> length (filter alarm_msg (sp_queue ?b)) \<le> length (filter alarm_msg (sp_queue ?a))"
  proof (cases x)
    case Start
    then show ?thesis
      using assms(4) by simp
  next
    case Tick
    then have t: "250 \<le> sint (sp_temp (sp_sample ?a))" and bt: "?b = sp_tick ?a"
      using assms(5) b by (simp_all add: hal_read_temperature_def sp_hal_abs sp_step_def)
    then have "sp_alarm ?b"
      using a by (simp add: sp_tick_fields sp_thermal_alarm)
    moreover have "hot_kept (sp_sample ?a) ?b"
      unfolding bt by (rule alarm_minor.after_sample)
    ultimately show ?thesis
      using a t by (simp add: hot_kept_def alarm_budget_def)
  next
    case (Telecommand bs)
    then have bt: "?b = snd (sp_process bs ?a)"
      using b by (simp add: sp_step_def)
    have "hot_kept ?a ?b" and "cycle_kept ?a ?b"
      unfolding bt by (rule alarm_command.process, rule ground.process)
    then show ?thesis
      using a hot by (simp add: hot_kept_def alarm_budget_def cycle_kept_def)
  next
    case Downlink
    then show ?thesis
      using a b by (cases "sp_queue ?a") (simp_all add: sp_step_def)
  qed
  then show ?thesis
    by (simp add: alarm_abs)
qed

text \<open>The hot unit of \<open>hot_state\<close> after one minor cycle: the alarm is latched.\<close>

lemma alarm_state: "\<exists>s. reachable s \<and> s_alarm_latched s \<noteq> 0 \<and> sint (hal_read_temperature (hal s)) = 500"
proof -
  obtain s where s: "reachable s" "mode (s_state s) = 1" "sint (hal_read_temperature (hal s)) = 500"
    using hot_state by blast
  obtain s' where s': "obsw_step s Tick s'"
    using s(1) by (rule reachable_obtain_step)
  have inv: "obsw_inv s"
    using s(1) by (rule reachable_inv)
  have b: "obsw_abs s' = sp_tick (obsw_abs s)"
    using obsw_step_refines [OF inv s'] by (simp add: sp_step_def)
  have "sp_mode (obsw_abs s) = Nominal"
    using s(2) sp_mode_Safe [of s] by (cases "sp_mode (obsw_abs s)") simp_all
  moreover have "sint (s_temperature_dc (sp_hal (obsw_abs s))) = 500"
    using s(3) by (simp add: hal_read_temperature_def sp_hal_abs)
  ultimately have "sp_alarm (obsw_abs s')" "sint (s_temperature_dc (sp_hal (obsw_abs s'))) = 500"
    unfolding b by (simp_all add: sp_tick_fields sp_thermal_alarm sp_tick_temperature)
  then show ?thesis
    using reachable_step [OF s(1) s'] unfolding alarm_abs [symmetric] sp_hal_abs [symmetric]
    by (auto simp: hal_read_temperature_def)
qed

lemma alarm_reported_once_witness:
  "\<exists>s s'. s_alarm_latched s \<noteq> 0 \<and> obsw_step s Tick s' \<and> s_alarm_latched s' \<noteq> 0"
proof -
  obtain s where s: "reachable s" "s_alarm_latched s \<noteq> 0" "sint (hal_read_temperature (hal s)) = 500"
    using alarm_state by blast
  obtain s' where s': "obsw_step s Tick s'"
    using s(1) by (rule reachable_obtain_step)
  have "Tick = Tick \<longrightarrow> 250 \<le> sint (hal_read_temperature (hal s))"
    using s(3) by simp
  from alarm_reported_once [OF s(1,2) s' _ this] s' s(2) show ?thesis
    by auto
qed


text \<open>
  C34: The periodic housekeeping reports leave in the tenth cycle of each period and in no other:
  in a minor cycle that does not fill the queue, a report of a structure is added exactly when
  the phase counter was 9 and the structure is enabled.
\<close>

theorem housekeeping_period:
  assumes "reachable s" and "obsw_step s Tick s'" and "s_count (tmq s') < 16"
  shows "(\<exists>m \<in> set (drop (s_count (tmq s)) (sp_queue (obsw_abs s'))).
      m_service m = 3 \<and> m_subtype m = 25 \<and> m_data m ! 0 = sid) \<longleftrightarrow>
    svc03_phase s = 9 \<and> svc03_is_enabled sid s = Some PUS_TRUE"
proof -
  let ?a = "obsw_abs s" and ?b = "obsw_abs s'"
  have inv: "obsw_inv s"
    using assms(1) by (rule reachable_inv)
  have b: "?b = sp_tick ?a"
    using obsw_step_refines [OF inv assms(2)] by (simp add: sp_step_def)
  have count: "length (sp_queue (obsw_abs x)) = s_count (tmq x)" for x
    by (simp add: obsw_abs_def)
  obtain ms where ms: "sp_queue ?b = sp_queue ?a @ ms"
      "\<forall>x. (\<exists>m \<in> set ms. hk_msg x m) \<longleftrightarrow> \<not> sp_phase ?a + 1 < 10 \<and> (x = 1 \<or> x = 2) \<and> sp_hk ?a x"
    using sp_tick_hk_reports [of ?a] assms(3) unfolding b [symmetric] count [symmetric] by blast
  have new: "drop (s_count (tmq s)) (sp_queue ?b) = ms"
    using ms(1) count [of s] by simp
  have "unat (svc03_phase s) < 10"
    using inv by (simp add: obsw_inv_def)
  then have phase: "\<not> sp_phase ?a + 1 < 10 \<longleftrightarrow> svc03_phase s = 9"
    by (auto simp: obsw_abs_def word_unat_eq_iff)
  have "svc03_is_enabled sid s = Some 1 \<longleftrightarrow> (sid = 1 \<or> sid = 2) \<and> sp_hk ?a sid"
    using hk_flag_not_ok [of sid "svc03_enabled s"]
    by (auto simp: svc03_is_enabled_abs [OF inv] hk_sid_ok_def obsw_abs_def)
  then show ?thesis
    using ms(2) unfolding new phase hk_msg_def by blast
qed

lemma housekeeping_period_witness:
  "\<exists>s'. obsw_step booted Tick s' \<and>
    \<not> (\<exists>m \<in> set (drop (s_count (tmq booted)) (sp_queue (obsw_abs s'))).
      m_service m = 3 \<and> m_subtype m = 25 \<and> m_data m ! 0 = 1)"
proof -
  obtain s' where s': "obsw_step booted Tick s'"
    using obsw_step_total [OF booted(2)] by blast
  have b: "obsw_abs s' = sp_tick sp_boot"
    using obsw_step_refines [OF booted(2) s'] by (simp add: sp_step_def booted)
  have boot: "sp_queue sp_boot = [stamp 5 1 (event_data 1 0) boot_spec]" "sp_phase sp_boot = 0"
    "sp_drops sp_boot = 0" "sp_last_drops sp_boot = 0" "sp_mode sp_boot = Safe" "\<not> sp_heater sp_boot"
    by (simp_all add: sp_boot_eq boot_spec_def emit_def)
  have "s_count (tmq s') = length (sp_queue (obsw_abs s'))"
    by (simp add: obsw_abs_def)
  also have "\<dots> = 1"
    using boot by (simp add: b sp_tick_def sp_hk_tick_def sp_overflow_def sp_thermal_def sp_switch_heater_def Let_def)
  finally have "s_count (tmq s') < 16"
    by simp
  moreover have "unat (svc03_phase booted) = sp_phase (obsw_abs booted)"
    by (simp add: obsw_abs_def)
  then have "svc03_phase booted \<noteq> 9"
    using boot(2) by (auto simp: booted)
  ultimately show ?thesis
    using housekeeping_period [OF booted(1) s', of 1] s' by auto
qed

text \<open>
  The housekeeping phase counts minor cycles modulo ten and nothing else: after any stimuli
  without a restart it has advanced by the number of minor cycles among them.
\<close>

theorem housekeeping_phase_counts:
  assumes "reachable s" and "obsw_run s xs s'" and "Start \<notin> set xs"
  shows "unat (svc03_phase s') = (unat (svc03_phase s) + count_list xs Tick) mod 10"
proof -
  have step: "sp_phase (sp_step x a) = (sp_phase a + (if x = Tick then 1 else 0)) mod 10"
    if "x \<noteq> Start" "sp_phase a < 10" for x a
  proof (cases x)
    case (Telecommand bs)
    then show ?thesis
      using ground.process [of a bs] that(2) by (simp add: sp_step_def cycle_kept_def)
  next
    case Tick
    then show ?thesis
      using that(2) by (cases "sp_phase a = 9") (auto simp: sp_step_def sp_tick_fields)
  qed (use that in \<open>auto simp: sp_step_def\<close>)
  have "sp_phase (fold sp_step xs a) = (sp_phase a + count_list xs Tick) mod 10"
    if "sp_phase a < 10" "Start \<notin> set xs" for a xs
    using that
  proof (induction xs arbitrary: a)
    case Nil
    then show ?case by simp
  next
    case (Cons x xs)
    have "sp_phase (sp_step x a) = (sp_phase a + (if x = Tick then 1 else 0)) mod 10"
      using Cons.prems by (intro step) auto
    moreover from this have "sp_phase (fold sp_step xs (sp_step x a)) = (sp_phase (sp_step x a) + count_list xs Tick) mod 10"
      using Cons.prems by (intro Cons.IH) auto
    ultimately show ?case
      by (auto simp: mod_simps add_ac)
  qed
  moreover have "sp_phase (obsw_abs s) < 10"
    using reachable_inv [OF assms(1)] by (simp add: obsw_inv_def obsw_abs_def)
  moreover have "obsw_abs s' = fold sp_step xs (obsw_abs s)"
    using obsw_run_refines [OF assms(2) reachable_inv [OF assms(1)]] by simp
  moreover have "sp_phase (obsw_abs x) = unat (svc03_phase x)" for x
    by (simp add: obsw_abs_def)
  ultimately show ?thesis
    using assms(3) by metis
qed

lemma housekeeping_phase_counts_witness:
  "\<exists>s'. obsw_run booted (replicate 13 Tick) s' \<and> unat (svc03_phase s') = 3"
proof -
  obtain s' where s': "obsw_run booted (replicate 13 Tick) s'"
    using obsw_run_total [OF booted(2)] by blast
  have "unat (svc03_phase booted) = sp_phase (obsw_abs booted)"
    by (simp add: obsw_abs_def)
  then have "unat (svc03_phase booted) = 0"
    by (simp add: booted sp_boot_eq boot_spec_def)
  moreover have "count_list (replicate 13 Tick) Tick = 13"
    by (simp add: numeral_eq_Suc)
  ultimately show ?thesis
    using housekeeping_phase_counts [OF booted(1) s'] s' by auto
qed

section \<open>The downlink\<close>

text \<open>
  C17: Every packet that leaves for the ground is well formed: a packet popped in a reachable state
  carries the length its header announces, its checksum is 0, it is telemetry of the application's
  APID with an unsegmented, numbered header, and decoding it and encoding the result gives the
  same octets.
\<close>

theorem downlink_packets_wellformed:
  assumes "reachable s" and "queue_pop (tmq s) = Some (Some p, q)"
  shows "length p = 7 + unat (data_length (header_of p)) \<and> crc16 p = 0 \<and>
    packet_type (header_of p) = CCSDS_TYPE_TM \<and> apid (header_of p) = PUS_TM_APID \<and>
    seq_flags (header_of p) = 3 \<and> tm_encode (tm_decode p) = p \<and>
    tm_decode p = hd (sp_queue (obsw_abs s))"
proof -
  have inv: "obsw_inv s"
    using assms(1) by (rule reachable_inv)
  obtain m ms where q: "sp_queue (obsw_abs s) = m # ms" and p: "p = tm_encode m"
    using queue_pop_cases [OF inv] assms(2) by (auto split: list.splits)
  have "p \<in> set (tmq_list (tmq s))"
  proof -
    have "tmq_inv (tmq s)" and "tmq_list (tmq s) \<noteq> []"
      using inv q by (auto simp: obsw_inv_def obsw_abs_def)
    then show ?thesis
      using tmq.pop_some [of "tmq s"] assms(2) by (cases "tmq_list (tmq s)") auto
  qed
  then obtain m' where m': "tm_fits m'" "p = tm_encode m'"
    using inv by (auto simp: obsw_inv_def queue_wf_def)
  then have seq: "m_seq m' < 16384" and len: "length (m_data m') \<le> 235"
    by (simp_all add: tm_fits_def)
  have "tm_decode p = m'"
    unfolding m'(2) using seq by (rule tm_decode_encode)
  moreover have "m' = m"
  proof -
    have "tm_decode p = m"
      using q assms(2) tmq.pop_some [of "tmq s"] inv
      by (cases "tmq_list (tmq s)") (auto simp: obsw_abs_def obsw_inv_def)
    with calculation show ?thesis by simp
  qed
  moreover have "unat (of_nat (length (m_data m') + 14) :: u16) = length (m_data m') + 14"
    unfolding unsigned_of_nat using len by (simp add: take_bit_eq_mod)
  ultimately show ?thesis
    using header_of_tm_encode [OF seq] tm_encode_crc [of m'] by (simp add: m'(2) tm_header_def q del: of_nat_add)
qed

lemma downlink_packets_wellformed_witness:
  "\<exists>p q. queue_pop (tmq booted) = Some (Some p, q) \<and> crc16 p = 0 \<and> m_service (tm_decode p) = 5"
proof -
  have boot: "sp_queue (obsw_abs booted) = [stamp 5 1 (event_data 1 0) boot_spec]"
    by (simp add: booted sp_boot_eq boot_spec_def emit_def Let_def)
  then obtain p q where "queue_pop (tmq booted) = Some (Some p, q)"
    using queue_pop_cases [OF booted(2)] by auto
  then show ?thesis
    using downlink_packets_wellformed [OF booted(1)] boot by auto
qed

text \<open>
  C25: While no packet was lost the sequence counts of the queued packets are consecutive modulo
  16384 and the next packet continues them, so that the ground can detect a loss by a gap.
\<close>

theorem sequence_gap_free:
  assumes "reachable s" and "tm_queue_overflow_count (tmq s) = 0"
  shows "successively (\<lambda>m n. n = (m + 1) AND 0x3FFF)
    (map m_seq (sp_queue (obsw_abs s)) @ [s_seq_count (tmgen s)])"
proof -
  have eq: "(\<lambda>m n. n = (m + 1) AND 0x3FFF) = seq_follows"
    by (simp add: seq_follows_def fun_eq_iff)
  show ?thesis
    unfolding eq using reachable_gap_free [OF assms(1)] assms(2)
    by (simp add: gap_free_def obsw_abs_def tm_queue_overflow_count_def)
qed

lemma sequence_gap_free_witness:
  "map m_seq (sp_queue (obsw_abs booted)) = [0] \<and> s_seq_count (tmgen booted) = 1"
proof -
  have "sp_drops (obsw_abs booted) = 0" and q: "map m_seq (sp_queue (obsw_abs booted)) = [0]"
    by (simp_all add: booted sp_boot_eq boot_spec_def emit_def stamp_def Let_def)
  then have "tm_queue_overflow_count (tmq booted) = 0"
    by (simp add: obsw_abs_def tm_queue_overflow_count_def)
  from sequence_gap_free [OF booted(1) this] q show ?thesis
    by simp
qed

section \<open>Initialisation\<close>

text \<open>
  Initialisation forgets everything: from any state in which the arrays have their declared
  sizes it leads to the same boot state, in SAFE mode with the heater off, essential housekeeping
  on, all events on, all counters zero and the boot event as the only queued packet.
\<close>

theorem obc_init_boot_state:
  assumes "obsw_inv s"
  shows "\<exists>s'. obc_init s = Some ((), s') \<and> obsw_inv s' \<and>
    mode (s_state s') = OBC_MODE_SAFE \<and> hal_get_heater (hal s') = PUS_FALSE \<and> heater_on (s_state s') = PUS_FALSE \<and>
    svc03_is_enabled 1 s' = Some PUS_TRUE \<and> svc03_is_enabled 2 s' = Some PUS_FALSE \<and>
    (\<forall>eid. 1 \<le> unat eid \<and> unat eid \<le> 8 \<longrightarrow> svc05_is_enabled eid s' = Some PUS_TRUE) \<and>
    tc_accepted (s_state s') = 0 \<and> tc_rejected (s_state s') = 0 \<and> tm_queue_overflow_count (tmq s') = 0 \<and>
    (\<exists>m. sp_queue (obsw_abs s') = [m] \<and> m_seq m = 0 \<and> m_service m = 5 \<and> m_data m = be16 1 @ be16 0)"
proof -
  obtain s' where s': "obc_init s = Some ((), s')" "obsw_inv s'" "obsw_abs s' = sp_boot"
    using refinesE [OF obc_init_refines [OF assms]] by auto
  have f: "hal_get_heater (hal s') = s_heater_on (sp_hal sp_boot)" "tc_accepted (s_state s') = sp_accepted sp_boot"
      "tc_rejected (s_state s') = sp_rejected sp_boot" "tm_queue_overflow_count (tmq s') = sp_drops sp_boot"
    unfolding s'(3) [symmetric] by (simp_all add: obsw_abs_def hal_get_heater_def tm_queue_overflow_count_def)
  have "event_id_ok (ucast eid)" if "1 \<le> unat eid" "unat eid \<le> 8" for eid :: u32
    using that by (simp add: event_id_ok_def unat_ucast_mod)
  then show ?thesis
    using s' by (intro exI [of _ s'])
      (auto simp: f mode_abs [OF s'(2)] heater_abs [OF s'(2)] mode_code_def svc03_is_enabled_abs
        svc05_is_enabled_abs sp_boot_eq boot_spec_def emit_def stamp_def event_data_def Let_def)
qed

lemma obc_init_boot_state_witness:
  "\<exists>s'. obc_init power_on = Some ((), s') \<and> mode (s_state s') = OBC_MODE_SAFE"
  using obc_init_boot_state [OF obsw_inv_power_on] by blast

end
